(* ===== verification/Prelude.thy ===== *)
theory Prelude
  imports Main "HOL-Library.Word" "HOL-Library.Multiset" "HOL-Library.List_Lexorder"
    "HOL-Library.Char_ord"
begin

text \<open>
  What every component shares: the names of the machine types, \<open>Result\<close> values as sums and
  the \<open>?\<close> operator on them, the few operations of Rust's standard library the sources use
  on strings, slices and integers, and the stable sort behind \<open>sort_by\<close>.

  Conventions of the whole development.
  \<^item> \<open>u8\<close>, \<open>u16\<close>, \<open>u32\<close>, \<open>u64\<close> are words, so \<open>+\<close> wraps as it does in the release
    profile. \<open>usize\<close> is the length of something in memory and is a \<open>nat\<close>; \<open>i64\<close>
    (timestamps only) is an \<open>int\<close>, with the clamps of the saturating operations written out.
  \<^item> A Rust string is its UTF-8 bytes, one \<open>char\<close> each.
  \<^item> \<open>Result<T, E>\<close> is \<open>'e + 't\<close>, with \<open>Inl\<close> for \<open>Err\<close>; \<open>Option<T>\<close> is \<open>'t option\<close>.
\<close>

type_synonym u8 = "8 word"
type_synonym u16 = "16 word"
type_synonym u32 = "32 word"
type_synonym u64 = "64 word"
type_synonym usize = nat
type_synonym i64 = int
type_synonym ('t, 'e) result = "'e + 't"

abbreviation (input) Ok :: "'t \<Rightarrow> ('t, 'e) result" where
  "Ok \<equiv> Inr"

abbreviation (input) Err :: "'e \<Rightarrow> ('t, 'e) result" where
  "Err \<equiv> Inl"

named_theorems result_simps \<open>unfolding of the operations on results\<close>

section \<open>Results\<close>

text \<open>The \<open>?\<close> operator: continue with the value, or return the error.\<close>

definition and_then :: "('a, 'e) result \<Rightarrow> ('a \<Rightarrow> ('b, 'e) result) \<Rightarrow> ('b, 'e) result" where
  "and_then r f = (case r of Inl e \<Rightarrow> Inl e | Inr a \<Rightarrow> f a)"

text \<open>\<open>map_err\<close>.\<close>

definition map_err :: "('e \<Rightarrow> 'f) \<Rightarrow> ('a, 'e) result \<Rightarrow> ('a, 'f) result" where
  "map_err f r = (case r of Inl e \<Rightarrow> Inl (f e) | Inr a \<Rightarrow> Inr a)"

text \<open>\<open>ok_or\<close>.\<close>

definition ok_or :: "'e \<Rightarrow> 'a option \<Rightarrow> ('a, 'e) result" where
  "ok_or e x = (case x of None \<Rightarrow> Inl e | Some a \<Rightarrow> Inr a)"

text \<open>\<open>iter().map(f).collect::<Result<Vec<_>, _>>()\<close>: the first error wins.\<close>

fun try_map :: "('a \<Rightarrow> ('b, 'e) result) \<Rightarrow> 'a list \<Rightarrow> ('b list, 'e) result" where
  "try_map f [] = Inr []"
| "try_map f (x # xs) =
     (case f x of Inl e \<Rightarrow> Inl e
      | Inr y \<Rightarrow> (case try_map f xs of Inl e \<Rightarrow> Inl e | Inr ys \<Rightarrow> Inr (y # ys)))"

lemma and_then_simps [simp, result_simps]:
  "and_then (Inl e) f = Inl e"
  "and_then (Inr a) f = f a"
  by (simp_all add: and_then_def)

lemma map_err_simps [simp, result_simps]:
  "map_err f (Inl e) = Inl (f e)"
  "map_err f (Inr a) = Inr a"
  by (simp_all add: map_err_def)

lemma ok_or_simps [simp, result_simps]:
  "ok_or e None = Inl e"
  "ok_or e (Some a) = Inr a"
  by (simp_all add: ok_or_def)

lemma and_then_eq_Inr: "and_then r f = Inr b \<longleftrightarrow> (\<exists>a. r = Inr a \<and> f a = Inr b)"
  by (cases r) auto

lemma map_err_eq_Inr [simp]: "map_err f r = Inr b \<longleftrightarrow> r = Inr b"
  by (cases r) auto

lemma ok_or_eq_Inr [simp]: "ok_or e x = Inr a \<longleftrightarrow> x = Some a"
  by (cases x) auto

lemma try_map_list_all2: "try_map f xs = Inr ys \<longleftrightarrow> list_all2 (\<lambda>x y. f x = Inr y) xs ys"
proof (induction xs arbitrary: ys)
  case (Cons x xs)
  show ?case
    by (cases "f x"; cases "try_map f xs"; cases ys) (auto simp: Cons.IH [symmetric])
qed auto

lemma try_map_eq_Inr:
  "try_map f xs = Inr ys \<longleftrightarrow>
     length ys = length xs \<and> (\<forall>i < length xs. f (xs ! i) = Inr (ys ! i))"
  by (auto simp: try_map_list_all2 list_all2_conv_all_nth)

lemma try_map_in:
  "try_map f xs = Inr ys \<Longrightarrow> y \<in> set ys \<Longrightarrow> \<exists>x \<in> set xs. f x = Inr y"
  by (force simp: try_map_eq_Inr in_set_conv_nth)

lemma ex_nat_split: "(\<exists>i::nat. P i) \<longleftrightarrow> P 0 \<or> (\<exists>i. P (Suc i))"
  by (metis not0_implies_Suc)

lemma try_map_Inr_map: "(\<And>x. x \<in> set xs \<Longrightarrow> f x = Inr (g x)) \<Longrightarrow> try_map f xs = Inr (map g xs)"
  by (induction xs) auto

lemma try_map_append:
  "try_map f (xs @ ys) = and_then (try_map f xs) (\<lambda>a. and_then (try_map f ys) (\<lambda>b. Inr (a @ b)))"
proof (induction xs)
  case Nil
  show ?case by (cases "try_map f ys") auto
next
  case (Cons x xs)
  then show ?case by (cases "try_map f ys") (auto split: sum.splits)
qed

section \<open>Strings and bytes\<close>

text \<open>\<open>as_bytes\<close> on a string.\<close>

definition byte_of :: "char \<Rightarrow> u8" where
  "byte_of c = word_of_nat (of_char c)"

definition str_bytes :: "string \<Rightarrow> u8 list" where
  "str_bytes s = map byte_of s"

lemma of_char_less: "(of_char c :: nat) < 256"
  by (rule nat_of_char_less_256)

lemma unat_byte_of [simp]: "unat (byte_of c) = of_char c"
  using of_char_less [of c] by (simp add: byte_of_def unat_of_nat)

lemma inj_byte_of: "inj byte_of"
proof (rule injI)
  fix c d assume "byte_of c = byte_of d"
  then have "unat (byte_of c) = unat (byte_of d)" by simp
  then show "c = d" by simp
qed

lemma length_str_bytes [simp]: "length (str_bytes s) = length s"
  by (simp add: str_bytes_def)

lemma str_bytes_eq_iff [simp]: "str_bytes s = str_bytes t \<longleftrightarrow> s = t"
  by (simp add: str_bytes_def inj_map_eq_map inj_byte_of)

lemma str_bytes_append: "str_bytes (s @ t) = str_bytes s @ str_bytes t"
  by (simp add: str_bytes_def)

text \<open>\<open>starts_with\<close>, \<open>ends_with\<close>, \<open>strip_prefix\<close>, \<open>split_once\<close> with one character.\<close>

definition starts_with :: "'a list \<Rightarrow> 'a list \<Rightarrow> bool" where
  "starts_with s p \<longleftrightarrow> take (length p) s = p"

definition ends_with :: "'a list \<Rightarrow> 'a list \<Rightarrow> bool" where
  "ends_with s p \<longleftrightarrow> length p \<le> length s \<and> drop (length s - length p) s = p"

definition strip_prefix :: "'a list \<Rightarrow> 'a list \<Rightarrow> 'a list option" where
  "strip_prefix s p = (if starts_with s p then Some (drop (length p) s) else None)"

definition split_once :: "'a \<Rightarrow> 'a list \<Rightarrow> ('a list \<times> 'a list) option" where
  "split_once c s =
     (if c \<in> set s then Some (takeWhile (\<lambda>x. x \<noteq> c) s, tl (dropWhile (\<lambda>x. x \<noteq> c) s)) else None)"

lemma starts_with_append [simp]: "starts_with (p @ s) p"
  by (simp add: starts_with_def)

lemma starts_with_conv: "starts_with s p \<longleftrightarrow> (\<exists>r. s = p @ r)"
  by (metis append_take_drop_id starts_with_append starts_with_def)

lemma ends_with_conv: "ends_with s p \<longleftrightarrow> (\<exists>r. s = r @ p)"
proof
  assume "ends_with s p"
  then have "s = take (length s - length p) s @ p"
    by (metis append_take_drop_id ends_with_def)
  then show "\<exists>r. s = r @ p" by blast
qed (auto simp: ends_with_def)

text \<open>\<open>eq_ignore_ascii_case\<close>: only \<open>A\<close> to \<open>Z\<close> are folded.\<close>

definition ascii_lower :: "char \<Rightarrow> char" where
  "ascii_lower c = (let n = (of_char c :: nat) in if 65 \<le> n \<and> n \<le> 90 then char_of (n + 32) else c)"

definition eq_ignore_ascii_case :: "string \<Rightarrow> string \<Rightarrow> bool" where
  "eq_ignore_ascii_case s t \<longleftrightarrow> map ascii_lower s = map ascii_lower t"

lemma eq_ignore_ascii_case_refl [simp]: "eq_ignore_ascii_case s s"
  by (simp add: eq_ignore_ascii_case_def)

section \<open>Integers\<close>

text \<open>\<open>u32::to_le_bytes\<close>, and the conversion \<open>u32::try_from(n).unwrap_or(u32::MAX)\<close>.\<close>

definition le_bytes32 :: "u32 \<Rightarrow> u8 list" where
  "le_bytes32 w = [ucast w, ucast (drop_bit 8 w), ucast (drop_bit 16 w), ucast (drop_bit 24 w)]"

definition u32_or_max :: "nat \<Rightarrow> u32" where
  "u32_or_max n = (if n < 2 ^ 32 then word_of_nat n else - 1)"

lemma length_le_bytes32 [simp]: "length (le_bytes32 w) = 4"
  by (simp add: le_bytes32_def)

lemma bit_le_bytes32:
  assumes "n < 32"
  shows "bit (le_bytes32 w ! (n div 8)) (n mod 8) = bit w n"
proof -
  have n: "n = 8 * (n div 8) + n mod 8" and r: "n mod 8 < 8" by simp_all
  define q r' where "q = n div 8" and "r' = n mod 8"
  have "q < 4" using assms by (auto simp: q_def)
  then have "q = 0 \<or> q = 1 \<or> q = 2 \<or> q = 3" by auto
  moreover have "r' < 8" by (simp add: r'_def)
  ultimately have "bit (le_bytes32 w ! q) r' = bit w (8 * q + r')"
    by (elim disjE) (simp_all add: le_bytes32_def bit_ucast_iff bit_drop_bit_eq nth_Cons')
  then show ?thesis using n by (simp add: q_def r'_def)
qed

lemma le_bytes32_eq_iff [simp]: "le_bytes32 v = le_bytes32 w \<longleftrightarrow> v = w"
proof
  assume eq: "le_bytes32 v = le_bytes32 w"
  show "v = w"
  proof (rule bit_word_eqI)
    fix n assume "n < LENGTH(32)"
    then have n: "n < 32" by simp
    have "bit v n = bit (le_bytes32 v ! (n div 8)) (n mod 8)" using bit_le_bytes32 [OF n] by simp
    also have "\<dots> = bit w n" using eq bit_le_bytes32 [OF n] by simp
    finally show "bit v n = bit w n" .
  qed
qed simp

lemma u32_or_max_inj:
  assumes "m < 4294967295" "n < 4294967295" "u32_or_max m = u32_or_max n"
  shows "m = n"
proof -
  have un: "unat (word_of_nat k :: u32) = k" if "k < 4294967295" for k
    using that by (simp add: unat_of_nat take_bit_nat_eq_self)
  have "word_of_nat m = (word_of_nat n :: u32)" using assms by (simp add: u32_or_max_def)
  then have "unat (word_of_nat m :: u32) = unat (word_of_nat n :: u32)" by simp
  then show ?thesis using un [OF assms(1)] un [OF assms(2)] by simp
qed

text \<open>\<open>saturating_sub\<close> on an unsigned word.\<close>

definition saturating_sub :: "'a::len word \<Rightarrow> 'a word \<Rightarrow> 'a word" where
  "saturating_sub a b = (if a \<le> b then 0 else a - b)"

text \<open>The range of \<open>i64\<close> and its saturating subtraction.\<close>

definition i64_max :: i64 where
  "i64_max = 2 ^ 63 - 1"

definition i64_min :: i64 where
  "i64_min = - (2 ^ 63)"

definition i64_saturating_sub :: "i64 \<Rightarrow> i64 \<Rightarrow> i64" where
  "i64_saturating_sub a b = max i64_min (min i64_max (a - b))"

text \<open>Positions below the end of their range.\<close>

lemma unat_inc: "a < b \<Longrightarrow> unat (a + 1) = Suc (unat a)" for a b :: "'a::len word"
proof -
  assume "a < b"
  then have "a \<noteq> - 1" using word_n1_ge [of b] by auto
  then have "1 + a \<noteq> 0" by (metis add.commute eq_neg_iff_add_eq_0)
  then show ?thesis by (metis add.commute unatSuc)
qed

lemma word_less_inc: "a < - 1 \<Longrightarrow> a < a + 1" for a :: "'a::len word"
  using unat_inc [of a "- 1"] by (simp add: word_less_nat_alt)

lemma unat_of_nat64: "n < 2 ^ 64 \<Longrightarrow> unat (of_nat n :: u64) = n"
  by (simp add: unat_of_nat take_bit_nat_eq_self)

lemma unat_less64: "unat (a :: u64) < 2 ^ 64"
  using unsigned_less [of a] by simp

section \<open>Stable sorting\<close>

text \<open>
  \<open>sort_by\<close> of the standard library is stable. An element goes in front of the first
  element it is not greater than, and elements are inserted from the last to the first, so
  equal elements keep their order.
\<close>

primrec insort_by :: "('a \<Rightarrow> 'a \<Rightarrow> bool) \<Rightarrow> 'a \<Rightarrow> 'a list \<Rightarrow> 'a list" where
  "insort_by le x [] = [x]"
| "insort_by le x (y # ys) = (if le x y then x # y # ys else y # insort_by le x ys)"

definition sort_by :: "('a \<Rightarrow> 'a \<Rightarrow> bool) \<Rightarrow> 'a list \<Rightarrow> 'a list" where
  "sort_by le xs = foldr (insort_by le) xs []"

lemma sort_by_simps [simp]:
  "sort_by le [] = []"
  "sort_by le (x # xs) = insort_by le x (sort_by le xs)"
  by (simp_all add: sort_by_def)

lemma mset_insort_by [simp]: "mset (insort_by le x xs) = add_mset x (mset xs)"
  by (induction xs) auto

lemma mset_sort_by [simp]: "mset (sort_by le xs) = mset xs"
  by (induction xs) auto

lemma set_sort_by [simp]: "set (sort_by le xs) = set xs"
  using mset_eq_setD [OF mset_sort_by] .

lemma length_sort_by [simp]: "length (sort_by le xs) = length xs"
  using mset_eq_length [OF mset_sort_by] .

text \<open>
  The contract of a comparison passed to \<open>sort_by\<close>: a total preorder. Everything the code
  needs of the sort (the result is sorted, sorting twice changes nothing, and when distinct
  elements never compare equal the result does not depend on the order of the input) follows
  from it.
\<close>

locale total_preorder =
  fixes le :: "'a \<Rightarrow> 'a \<Rightarrow> bool"
  assumes total: "le x y \<or> le y x"
    and trans: "le x y \<Longrightarrow> le y z \<Longrightarrow> le x z"
begin

lemma refl: "le x x"
  using total [of x x] by simp

lemma sorted_insort_by: "sorted_wrt le xs \<Longrightarrow> sorted_wrt le (insort_by le x xs)"
proof (induction xs)
  case (Cons y ys)
  have set: "set (insort_by le x ys) = insert x (set ys)"
    using mset_eq_setD [of "insort_by le x ys" "x # ys"] by simp
  show ?case using Cons total [of x y] by (auto simp: set intro: trans)
qed simp

lemma sorted_sort_by: "sorted_wrt le (sort_by le xs)"
  by (induction xs) (auto intro: sorted_insort_by)

lemma insort_by_sorted: "sorted_wrt le (x # xs) \<Longrightarrow> insort_by le x xs = x # xs"
  by (cases xs) auto

lemma sort_by_sorted: "sorted_wrt le xs \<Longrightarrow> sort_by le xs = xs"
  by (induction xs) (auto simp: insort_by_sorted)

lemma sort_by_idem: "sort_by le (sort_by le xs) = sort_by le xs"
  by (intro sort_by_sorted sorted_sort_by)

lemma sorted_mset_unique:
  assumes "sorted_wrt le xs" "sorted_wrt le ys" "mset xs = mset ys"
    and anti: "\<And>x y. x \<in> set xs \<Longrightarrow> y \<in> set xs \<Longrightarrow> le x y \<Longrightarrow> le y x \<Longrightarrow> x = y"
  shows "xs = ys"
  using assms
proof (induction xs arbitrary: ys)
  case (Cons x xs)
  then obtain y ys' where ys: "ys = y # ys'" by (cases ys) auto
  have sets: "set (x # xs) = set (y # ys')"
    using mset_eq_setD [OF Cons.prems(3)] ys by simp
  have "x = y"
  proof (rule ccontr)
    assume "x \<noteq> y"
    then have "y \<in> set xs" "x \<in> set ys'" using sets by auto
    then have "le x y" "le y x" using Cons.prems(1,2) ys by auto
    then show False using \<open>x \<noteq> y\<close> \<open>y \<in> set xs\<close> Cons.prems(4) by auto
  qed
  moreover have "xs = ys'"
    using Cons.prems \<open>x = y\<close> ys by (intro Cons.IH) auto
  ultimately show ?case using ys by simp
qed simp

lemma sort_by_perm:
  assumes "mset xs = mset ys"
    and "\<And>x y. x \<in> set xs \<Longrightarrow> y \<in> set xs \<Longrightarrow> le x y \<Longrightarrow> le y x \<Longrightarrow> x = y"
  shows "sort_by le xs = sort_by le ys"
  using assms by (intro sorted_mset_unique) (auto simp: sorted_sort_by)

text \<open>Adjacent elements of a sorted list reveal every pair that compares equal.\<close>

lemma adjacent_distinct:
  assumes "sorted_wrt le xs" "\<And>i. Suc i < length xs \<Longrightarrow> \<not> le (xs ! Suc i) (xs ! i)"
  shows "i < j \<Longrightarrow> j < length xs \<Longrightarrow> \<not> le (xs ! j) (xs ! i)"
proof (induction j)
  case (Suc j)
  have step: "\<not> le (xs ! Suc j) (xs ! j)" using assms(2) Suc.prems by simp
  show ?case
  proof (cases "i = j")
    case False
    then have "le (xs ! i) (xs ! j)"
      using assms(1) Suc.prems by (auto simp: sorted_wrt_iff_nth_less)
    then show ?thesis using step trans by blast
  qed (use step in simp)
qed simp

end

text \<open>Comparing by a key in a linear order, as \<open>sort_by(|a, b| a.k.cmp(&b.k))\<close> and \<open>sort_by_key\<close>.\<close>

definition by_key :: "('a \<Rightarrow> 'k::linorder) \<Rightarrow> 'a \<Rightarrow> 'a \<Rightarrow> bool" where
  "by_key k a b \<longleftrightarrow> k a \<le> k b"

interpretation by_key: total_preorder "by_key (k :: 'a \<Rightarrow> 'k::linorder)" for k
  by unfold_locales (auto simp: by_key_def)

end
