(* ===== verification/Hex.thy ===== *)
theory Hex
  imports Prelude
begin

unbundle bit_operations_syntax

text \<open>
  \<open>crates/ancre-canon/src/hex.rs\<close>: the lowercase hex encoder and the decoder that accepts
  either case. \<open>decode_into\<close> fills a slice the caller has sized; here it takes the size of
  that slice and returns what it holds on success (every caller drops it on an error).
\<close>

section \<open>Operations\<close>

definition DIGITS :: string where
  "DIGITS = ''0123456789abcdef''"

fun hex_encode :: "u8 list \<Rightarrow> string" where
  "hex_encode [] = []"
| "hex_encode (b # bs) = DIGITS ! unat (drop_bit 4 b) # DIGITS ! unat (b AND 15) # hex_encode bs"

definition nibble :: "u8 \<Rightarrow> (u8, unit) result" where
  "nibble c =
     (if 48 \<le> c \<and> c \<le> 57 then Ok (c - 48)
      else if 97 \<le> c \<and> c \<le> 102 then Ok (c - 97 + 10)
      else if 65 \<le> c \<and> c \<le> 70 then Ok (c - 65 + 10)
      else Err ())"

definition decode_slot :: "u8 list \<Rightarrow> usize \<Rightarrow> (u8, unit) result" where
  "decode_slot src i =
     and_then (nibble (src ! (i * 2))) (\<lambda>hi.
     and_then (nibble (src ! (i * 2 + 1))) (\<lambda>lo.
     Ok (push_bit 4 hi OR lo)))"

definition decode_into :: "string \<Rightarrow> usize \<Rightarrow> (u8 list, unit) result" where
  "decode_into s out_len =
     (let src = str_bytes s in
      if length src \<noteq> out_len * 2 then Err ()
      else try_map (decode_slot src) [0..<out_len])"

section \<open>Lemmas\<close>

lemma length_hex_encode [simp]: "length (hex_encode bs) = 2 * length bs"
  by (induction bs) auto

lemma nth_hex_encode:
  "i < length bs \<Longrightarrow> hex_encode bs ! (i * 2) = DIGITS ! unat (drop_bit 4 (bs ! i))"
  "i < length bs \<Longrightarrow> hex_encode bs ! (i * 2 + 1) = DIGITS ! unat ((bs ! i) AND 15)"
  by (induction bs arbitrary: i) (auto simp: less_Suc_eq_0_disj)

lemma below_16:
  "P 0 \<Longrightarrow> P 1 \<Longrightarrow> P 2 \<Longrightarrow> P 3 \<Longrightarrow> P 4 \<Longrightarrow> P 5 \<Longrightarrow> P 6 \<Longrightarrow> P 7 \<Longrightarrow> P 8 \<Longrightarrow> P 9 \<Longrightarrow> P 10 \<Longrightarrow> P 11
    \<Longrightarrow> P 12 \<Longrightarrow> P 13 \<Longrightarrow> P 14 \<Longrightarrow> P 15 \<Longrightarrow> n < (16::nat) \<Longrightarrow> P n"
  by (simp add: less_Suc_eq numeral_eq_Suc) blast

lemma nibble_DIGITS: "n < 16 \<Longrightarrow> nibble (byte_of (DIGITS ! n)) = Inr (word_of_nat n)"
  by (erule below_16 [rotated -1]; simp add: DIGITS_def nibble_def byte_of_def of_char_def)

lemma unat_drop_bit_4: "unat (drop_bit 4 (b :: u8)) < 16"
  using unsigned_less [of b, where ?'a = nat] by (simp add: drop_bit_eq_div unat_div)

lemma and_15: "(b :: u8) AND 15 = take_bit 4 b"
  by (simp add: take_bit_eq_mask mask_eq_exp_minus_1)

lemma unat_and_15: "unat ((b :: u8) AND 15) < 16"
  by (simp add: and_15 take_bit_eq_mod unat_mod)

lemma nibbles_join: "push_bit 4 (drop_bit 4 b) OR (b AND 15) = (b :: u8)"
  unfolding and_15 by (rule bit_word_eqI) (auto simp: bit_simps)

lemma decode_slot_encode:
  assumes "i < length bs"
  shows "decode_slot (str_bytes (hex_encode bs)) i = Inr (bs ! i)"
proof -
  have "nibble (str_bytes (hex_encode bs) ! (i * 2)) = Inr (drop_bit 4 (bs ! i))"
    using assms nibble_DIGITS [OF unat_drop_bit_4] by (simp add: str_bytes_def nth_hex_encode)
  moreover have "nibble (str_bytes (hex_encode bs) ! (i * 2 + 1)) = Inr (bs ! i AND 15)"
    using assms nibble_DIGITS [OF unat_and_15] nth_hex_encode(2) [OF assms]
    by (simp add: str_bytes_def)
  ultimately show ?thesis by (simp add: decode_slot_def nibbles_join)
qed

lemma nibble_eq_Inr:
  assumes "nibble w = Inr d"
  shows "unat w \<in> {48..57} \<and> unat d = unat w - 48 \<or> unat w \<in> {97..102} \<and> unat d = unat w - 87
    \<or> unat w \<in> {65..70} \<and> unat d = unat w - 55"
  using assms
  by (auto simp: nibble_def word_le_nat_alt unat_sub unat_word_ariths split: if_splits)

lemma nibble_lower:
  assumes "nibble (byte_of c) = Inr d"
  shows "DIGITS ! unat d = ascii_lower c \<and> unat d < 16"
proof -
  have digit: "\<forall>n \<in> set [48..<58]. DIGITS ! (n - 48) = ascii_lower (char_of n)" by code_simp
  have lower: "\<forall>n \<in> set [97..<103]. DIGITS ! (n - 87) = ascii_lower (char_of n)" by code_simp
  have upper: "\<forall>n \<in> set [65..<71]. DIGITS ! (n - 55) = ascii_lower (char_of n)" by code_simp
  define n where "n = (of_char c :: nat)"
  have c: "c = char_of n" by (simp add: n_def)
  have "n \<in> {48..57} \<and> unat d = n - 48 \<or> n \<in> {97..102} \<and> unat d = n - 87
      \<or> n \<in> {65..70} \<and> unat d = n - 55"
    using nibble_eq_Inr [OF assms] by (simp add: n_def)
  then show ?thesis
    using digit [unfolded set_upt, THEN bspec, of n] lower [unfolded set_upt, THEN bspec, of n]
      upper [unfolded set_upt, THEN bspec, of n]
    unfolding c by auto
qed

lemma join_parts:
  assumes "unat h < 16" "unat l < 16"
  shows "drop_bit 4 (push_bit 4 h OR l) = (h :: u8)" "(push_bit 4 h OR l) AND 15 = (l :: u8)"
proof -
  have tb: "take_bit 4 x = x" if "unat x < 16" for x :: u8
    using that by (simp add: take_bit_eq_mod word_unat_eq_iff unat_mod)
  have hb: "bit h n \<Longrightarrow> n < 4" and lb: "bit l n \<Longrightarrow> n < 4" for n
    using tb [OF assms(1)] tb [OF assms(2)] by (metis bit_take_bit_iff)+
  show "drop_bit 4 (push_bit 4 h OR l) = h"
    by (rule bit_word_eqI) (auto simp: bit_simps dest: lb hb)
  show "(push_bit 4 h OR l) AND 15 = l"
    unfolding and_15 by (rule bit_word_eqI) (auto simp: bit_simps dest: lb hb)
qed

lemma hex_encode_conv:
  "hex_encode bs = concat (map (\<lambda>b. [DIGITS ! unat (drop_bit 4 b), DIGITS ! unat (b AND 15)]) bs)"
  by (induction bs) auto

lemma decode_slot_eq_Inr:
  assumes "decode_slot (str_bytes s) i = Inr b" "i * 2 + 1 < length s"
  shows "DIGITS ! unat (drop_bit 4 b) = ascii_lower (s ! (i * 2))"
    and "DIGITS ! unat (b AND 15) = ascii_lower (s ! (i * 2 + 1))"
proof -
  obtain h l where h: "nibble (byte_of (s ! (i * 2))) = Inr h"
    and l: "nibble (byte_of (s ! (i * 2 + 1))) = Inr l" and b: "b = push_bit 4 h OR l"
    using assms by (auto simp: decode_slot_def and_then_eq_Inr str_bytes_def)
  show "DIGITS ! unat (drop_bit 4 b) = ascii_lower (s ! (i * 2))"
    using nibble_lower [OF h] nibble_lower [OF l] by (simp only: b join_parts)
  show "DIGITS ! unat (b AND 15) = ascii_lower (s ! (i * 2 + 1))"
    using nibble_lower [OF h] nibble_lower [OF l] by (simp only: b join_parts)
qed

lemma decode_into_encode: "decode_into (hex_encode bs) (length bs) = Inr bs"
  by (auto simp: decode_into_def try_map_eq_Inr decode_slot_encode)

lemma hex_encode_inj: "hex_encode bs = hex_encode cs \<Longrightarrow> bs = cs"
  using decode_into_encode [of bs] decode_into_encode [of cs] length_hex_encode [of bs]
    length_hex_encode [of cs] by simp

lemma decode_into_lower:
  assumes "decode_into s n = Inr bs"
  shows "length bs = n" "hex_encode bs = map ascii_lower s"
proof -
  have len: "length s = n * 2" and bs: "length bs = n"
    and slots: "\<And>i. i < n \<Longrightarrow> decode_slot (str_bytes s) i = Inr (bs ! i)"
    using assms by (auto simp: decode_into_def Let_def try_map_eq_Inr split: if_splits)
  show "length bs = n" by (fact bs)
  show "hex_encode bs = map ascii_lower s"
  proof (rule nth_equalityI)
    fix i assume i: "i < length (hex_encode bs)"
    define j where "j = i div 2"
    have "i < 2 * n" using i bs by simp
    then have j: "j < n" "j * 2 + 1 < length s" unfolding j_def len by presburger+
    note slot = decode_slot_eq_Inr [OF slots [OF j(1)] j(2)]
    have "i = j * 2 \<or> i = j * 2 + 1" unfolding j_def by presburger
    then show "hex_encode bs ! i = map ascii_lower s ! i"
    proof
      assume "i = j * 2"
      then show ?thesis using slot(1) j bs by (simp add: nth_hex_encode(1))
    next
      assume "i = j * 2 + 1"
      then show ?thesis using slot(2) j bs nth_hex_encode(2) [of j bs] by simp
    qed
  qed (use len bs in simp)
qed

end
