(* ===== verification/Hash.thy ===== *)
theory Hash
  imports Hex
begin

text \<open>
  \<open>crates/ancre-canon/src/hash.rs\<close>: the 32-byte digest, the incremental hasher, and the
  RFC 6962 Merkle tree with its inclusion proofs.

  The hash primitive (BLAKE3 or SHA-256, chosen by the build) is not code of the repository: it
  is the argument \<open>H\<close> of every definition that hashes, a function on the bytes absorbed. What
  is proved of trees needs no more of \<open>H\<close> than that it does not collide on the finitely many
  inputs the two computations at hand feed it: \<open>inj_on H\<close> of an explicit set.
\<close>

section \<open>Digests\<close>

typedef hash32 = "{bs :: u8 list. length bs = 32}"
  morphisms as_bytes Hash32
  by (rule exI [of _ "replicate 32 0"]) simp

lemma hash32_abstype [code abstype]: "Hash32 (as_bytes h) = h"
  by (rule as_bytes_inverse)

lemma length_as_bytes [simp]: "length (as_bytes h) = 32"
  using as_bytes [of h] by simp

lemma as_bytes_eq_iff [simp]: "as_bytes g = as_bytes h \<longleftrightarrow> g = h"
  by (rule as_bytes_inject)

text \<open>The derived equality and order compare the bytes.\<close>

instantiation hash32 :: equal
begin

definition equal_hash32 :: "hash32 \<Rightarrow> hash32 \<Rightarrow> bool" where
  "equal_hash32 g h \<longleftrightarrow> as_bytes g = as_bytes h"

instance
  by standard (simp add: equal_hash32_def)

end

instantiation hash32 :: linorder
begin

definition less_eq_hash32 :: "hash32 \<Rightarrow> hash32 \<Rightarrow> bool" where
  "less_eq_hash32 g h \<longleftrightarrow> as_bytes g \<le> as_bytes h"

definition less_hash32 :: "hash32 \<Rightarrow> hash32 \<Rightarrow> bool" where
  "less_hash32 g h \<longleftrightarrow> as_bytes g < as_bytes h"

instance
  by standard (auto simp: less_eq_hash32_def less_hash32_def less_le_not_le)

end

text \<open>\<open>from_bytes\<close>: a fixed-size array, filled from a list of that length.\<close>

definition from_bytes :: "u8 list \<Rightarrow> hash32" where
  "from_bytes b = Hash32 (take 32 (b @ replicate 32 0))"

lemma as_bytes_from_bytes [code abstract]: "as_bytes (from_bytes b) = take 32 (b @ replicate 32 0)"
  by (simp add: from_bytes_def Hash32_inverse)

lemma from_bytes_as_bytes [simp]: "from_bytes (as_bytes h) = h"
  by (simp add: from_bytes_def as_bytes_inverse)

definition GENESIS :: hash32 where
  "GENESIS = from_bytes (replicate 32 0)"

definition is_genesis :: "hash32 \<Rightarrow> bool" where
  "is_genesis h \<longleftrightarrow> h = GENESIS"

text \<open>\<open><[u8; 32]>::try_from\<close> on a slice.\<close>

definition hash32_of_list :: "u8 list \<Rightarrow> hash32 option" where
  "hash32_of_list bs = (if length bs = 32 then Some (from_bytes bs) else None)"

definition to_hex :: "hash32 \<Rightarrow> string" where
  "to_hex h = hex_encode (as_bytes h)"

datatype hex_error = HexError

definition from_hex :: "string \<Rightarrow> (hash32, hex_error) result" where
  "from_hex s =
     and_then (map_err (\<lambda>_. HexError) (decode_into s 32)) (\<lambda>out. ok_or HexError (hash32_of_list out))"

text \<open>
  The two serialized forms: a byte string in CBOR, lowercase hex in a human-readable format.
  What serde hands the visitor is one of the two, so a value of the other shape is refused.
\<close>

datatype serialized = SStr string | SBytes "u8 list"

datatype visit_error = InvalidLength nat | InvalidValue string | InvalidType

definition hash32_serialize :: "bool \<Rightarrow> hash32 \<Rightarrow> serialized" where
  "hash32_serialize is_human_readable h =
     (if is_human_readable then SStr (hex_encode (as_bytes h)) else SBytes (as_bytes h))"

definition visit_bytes :: "u8 list \<Rightarrow> (hash32, visit_error) result" where
  "visit_bytes v = ok_or (InvalidLength (length v)) (hash32_of_list v)"

definition visit_str :: "string \<Rightarrow> (hash32, visit_error) result" where
  "visit_str v = map_err (\<lambda>_. InvalidValue v) (from_hex v)"

definition hash32_deserialize :: "bool \<Rightarrow> serialized \<Rightarrow> (hash32, visit_error) result" where
  "hash32_deserialize is_human_readable d =
     (case (is_human_readable, d) of
        (True, SStr v) \<Rightarrow> visit_str v
      | (False, SBytes v) \<Rightarrow> visit_bytes v
      | _ \<Rightarrow> Err InvalidType)"

lemma hash32_of_list_as_bytes [simp]: "hash32_of_list (as_bytes h) = Some h"
  by (simp add: hash32_of_list_def)

lemma hash32_of_list_eq_Some: "hash32_of_list bs = Some h \<longleftrightarrow> as_bytes h = bs"
  by (auto simp: hash32_of_list_def as_bytes_from_bytes)

lemma hash32_of_list_eq_None: "hash32_of_list bs = None \<longleftrightarrow> length bs \<noteq> 32"
  by (simp add: hash32_of_list_def)

lemma as_bytes_GENESIS: "as_bytes GENESIS = replicate 32 0"
  by (simp add: GENESIS_def as_bytes_from_bytes)

lemma from_hex_to_hex: "from_hex (to_hex h) = Inr h"
  using decode_into_encode [of "as_bytes h"] by (simp add: from_hex_def to_hex_def)

lemma to_hex_inj: "to_hex g = to_hex h \<longleftrightarrow> g = h"
  by (metis Inr_inject from_hex_to_hex)

lemma from_hex_eq_Inr:
  "from_hex s = Inr h \<Longrightarrow> to_hex h = map ascii_lower s"
  by (auto simp: from_hex_def to_hex_def and_then_eq_Inr hash32_of_list_eq_Some
      dest: decode_into_lower)

section \<open>The hasher\<close>

text \<open>A hasher is the bytes it has absorbed.\<close>

type_synonym hasher = "u8 list"
type_synonym hash_fn = "u8 list \<Rightarrow> hash32"

definition hasher_new :: hasher where
  "hasher_new = []"

definition update :: "hasher \<Rightarrow> u8 list \<Rightarrow> hasher" where
  "update h bytes = h @ bytes"

definition finalize :: "hash_fn \<Rightarrow> hasher \<Rightarrow> hash32" where
  "finalize H h = H h"

definition hash_bytes :: "hash_fn \<Rightarrow> u8 list \<Rightarrow> hash32" where
  "hash_bytes H bytes = finalize H (update hasher_new bytes)"

lemmas hasher_simps = hasher_new_def update_def finalize_def

section \<open>The Merkle tree\<close>

definition LEAF_TAG :: u8 where
  "LEAF_TAG = 0"

definition NODE_TAG :: u8 where
  "NODE_TAG = 1"

definition EMPTY_TAG :: "u8 list" where
  "EMPTY_TAG = str_bytes ''ancre-tree/empty''"

definition hash_leaf :: "hash_fn \<Rightarrow> hash32 \<Rightarrow> hash32" where
  "hash_leaf H leaf = finalize H (update (update hasher_new [LEAF_TAG]) (as_bytes leaf))"

definition hash_node :: "hash_fn \<Rightarrow> hash32 \<Rightarrow> hash32 \<Rightarrow> hash32" where
  "hash_node H l r =
     finalize H (update (update (update hasher_new [NODE_TAG]) (as_bytes l)) (as_bytes r))"

text \<open>\<open>usize::leading_zeros\<close> on a 64-bit target.\<close>

definition leading_zeros :: "usize \<Rightarrow> nat" where
  "leading_zeros m = length (takeWhile (\<lambda>i. \<not> bit m i) (rev [0..<64]))"

definition largest_pow2_below :: "usize \<Rightarrow> usize" where
  "largest_pow2_below n = 2 ^ (64 - 1 - leading_zeros (n - 1))"

lemma leading_zeros_bit:
  assumes "leading_zeros m < 64"
  shows "bit m (63 - leading_zeros m)"
    and "\<And>i. i < 64 \<Longrightarrow> 63 - leading_zeros m < i \<Longrightarrow> \<not> bit m i"
proof -
  let ?z = "leading_zeros m" and ?P = "\<lambda>i. \<not> bit m i"
  have nth: "rev [0..<64] ! j = 63 - j" if "j < 64" for j :: nat
    using that by (simp add: rev_nth)
  have "\<not> ?P (rev [0..<64] ! ?z)"
    using assms nth_length_takeWhile [of ?P "rev [0..<64]"] by (simp add: leading_zeros_def)
  then show "bit m (63 - ?z)" using assms nth by simp
  fix i :: nat assume i: "i < 64" "63 - ?z < i"
  then have "63 - i < ?z" by simp
  then have "?P (takeWhile ?P (rev [0..<64]) ! (63 - i))"
    using nth_mem [of "63 - i" "takeWhile ?P (rev [0..<64])"] set_takeWhileD
    unfolding leading_zeros_def by metis
  moreover have "takeWhile ?P (rev [0..<64]) ! (63 - i) = 63 - (63 - i)"
    using \<open>63 - i < ?z\<close> i by (simp add: takeWhile_nth leading_zeros_def nth)
  ultimately show "\<not> bit m i" using i by simp
qed

lemma largest_pow2_below_less:
  assumes "2 \<le> n"
  shows "largest_pow2_below n < n"
proof (cases "leading_zeros (n - 1) < 64")
  case True
  define e where "e = 63 - leading_zeros (n - 1)"
  have "bit (n - 1) e" using leading_zeros_bit(1) [OF True] by (simp add: e_def)
  then have "2 ^ e \<le> n - 1"
    by (metis bit_iff_odd div_less even_zero not_le_imp_less)
  then show ?thesis using assms by (simp add: largest_pow2_below_def e_def)
next
  case False
  then show ?thesis using assms by (simp add: largest_pow2_below_def)
qed

lemma largest_pow2_below_pos [simp]: "0 < largest_pow2_below n"
  by (simp add: largest_pow2_below_def)

lemma largest_pow2_below_rest: "0 < n \<Longrightarrow> n - largest_pow2_below n < n"
  by (rule diff_less) simp_all

lemma largest_pow2_below_bounds:
  assumes "2 \<le> n" "n \<le> 2 ^ 64"
  shows "n \<le> 2 * largest_pow2_below n" "largest_pow2_below n = 2 ^ (63 - leading_zeros (n - 1))"
proof -
  show "largest_pow2_below n = 2 ^ (63 - leading_zeros (n - 1))"
    by (simp add: largest_pow2_below_def)
  define m where "m = n - 1"
  have m: "0 < m" "m < 2 ^ 64" using assms by (auto simp: m_def)
  have take: "take_bit 64 m = m" using m(2) by (simp add: take_bit_nat_eq_self)
  have "leading_zeros m < 64"
  proof (rule ccontr)
    assume "\<not> leading_zeros m < 64"
    moreover have "leading_zeros m \<le> 64"
      using length_takeWhile_le [of _ "rev [0..<64::nat]"] by (simp add: leading_zeros_def)
    ultimately have "length (takeWhile (\<lambda>i. \<not> bit m i) (rev [0..<64])) = length (rev [0..<64::nat])"
      by (simp add: leading_zeros_def)
    then have "takeWhile (\<lambda>i. \<not> bit m i) (rev [0..<64]) = rev [0..<64]"
      by (metis takeWhile_eq_take take_all_iff order_refl)
    then have "\<forall>i < 64. \<not> bit m i" by (simp add: takeWhile_eq_all_conv)
    then have "take_bit 64 m = 0" by (auto intro!: bit_eqI simp: bit_take_bit_iff)
    then show False using take m by simp
  qed
  then have "take_bit (Suc (63 - leading_zeros m)) m = m"
    using leading_zeros_bit(2) [of m] take
    by (intro bit_eqI) (metis bit_take_bit_iff less_Suc_eq_le not_le)
  then have "m < 2 ^ Suc (63 - leading_zeros m)"
    by (metis take_bit_nat_less_exp)
  then show "n \<le> 2 * largest_pow2_below n"
    by (simp add: largest_pow2_below_def m_def)
qed

function (sequential) tree_root :: "hash_fn \<Rightarrow> hash32 list \<Rightarrow> hash32" where
  "tree_root H [] = hash_bytes H EMPTY_TAG"
| "tree_root H [single] = hash_leaf H single"
| "tree_root H leaves =
     (let k = largest_pow2_below (length leaves) in
      hash_node H (tree_root H (take k leaves)) (tree_root H (drop k leaves)))"
  by pat_completeness auto

lemma split_lengths:
  assumes "2 \<le> length xs"
  defines "k \<equiv> largest_pow2_below (length xs)"
  shows "length (take k xs) = k" "k < length xs" "length (drop k xs) = length xs - k"
    "0 < k" "length xs - k < length xs"
  using largest_pow2_below_less [OF assms(1)] assms(1)
  by (auto simp: k_def intro!: largest_pow2_below_rest)

termination tree_root
  by (relation "measure (\<lambda>(H, leaves). length leaves)")
    (use largest_pow2_below_less in \<open>auto simp: Let_def intro!: largest_pow2_below_rest\<close>)

text \<open>
  \<open>build_proof\<close> pushes onto the proof it is handed: first the siblings below, then its own.
\<close>

function build_proof :: "hash_fn \<Rightarrow> hash32 list \<Rightarrow> usize \<Rightarrow> hash32 list \<Rightarrow> hash32 list" where
  "build_proof H leaves index proof' =
     (if length leaves \<le> 1 then proof'
      else
        let k = largest_pow2_below (length leaves) in
        if index < k
        then build_proof H (take k leaves) index proof' @ [tree_root H (drop k leaves)]
        else build_proof H (drop k leaves) (index - k) proof' @ [tree_root H (take k leaves)])"
  by pat_completeness auto

termination build_proof
  by (relation "measure (\<lambda>(H, leaves, _). length leaves)")
    (use largest_pow2_below_less in \<open>auto simp: not_le intro!: largest_pow2_below_rest\<close>)

definition tree_proof :: "hash_fn \<Rightarrow> hash32 list \<Rightarrow> usize \<Rightarrow> hash32 list option" where
  "tree_proof H leaves index =
     (if index \<ge> length leaves then None else Some (build_proof H leaves index []))"

text \<open>
  The descent of \<open>root_from_proof\<close>: the loop's vector of sides, from the root down.
\<close>

function descend :: "usize \<Rightarrow> usize \<Rightarrow> bool list \<Rightarrow> bool list" where
  "descend idx sz side_is_left =
     (if sz > 1 then
        let k = largest_pow2_below sz in
        if idx < k then descend idx k (side_is_left @ [True])
        else descend (idx - k) (sz - k) (side_is_left @ [False])
      else side_is_left)"
  by pat_completeness auto

termination descend
  by (relation "measure (\<lambda>(_, sz, _). sz)") (use largest_pow2_below_less in \<open>auto intro!: largest_pow2_below_rest\<close>)

text \<open>The combination upward, one step per pair of a side and a sibling.\<close>

definition combine :: "hash_fn \<Rightarrow> hash32 \<Rightarrow> bool \<times> hash32 \<Rightarrow> hash32" where
  "combine H acc step =
     (case step of (is_left, sibling) \<Rightarrow>
        if is_left then hash_node H acc sibling else hash_node H sibling acc)"

definition root_from_proof ::
    "hash_fn \<Rightarrow> hash32 \<Rightarrow> usize \<Rightarrow> usize \<Rightarrow> hash32 list \<Rightarrow> hash32 option" where
  "root_from_proof H leaf index tree_size proof' =
     (if index \<ge> tree_size then None
      else
        let side_is_left = descend index tree_size [] in
        if length side_is_left \<noteq> length proof' then None
        else Some (foldl (combine H) (hash_leaf H leaf) (zip (rev side_is_left) proof')))"

declare tree_root.simps(3) [simp del] build_proof.simps [simp del] descend.simps [simp del]

section \<open>Lemmas on the tree\<close>

lemma tree_root_split:
  assumes "2 \<le> length leaves"
  shows "tree_root H leaves =
    (let k = largest_pow2_below (length leaves) in
      hash_node H (tree_root H (take k leaves)) (tree_root H (drop k leaves)))"
proof -
  obtain a b r where "leaves = a # b # r"
    using assms by (metis Suc_le_length_iff numeral_2_eq_2)
  then show ?thesis by (simp add: tree_root.simps(3) Let_def)
qed

lemma descend_acc: "descend idx sz acc = acc @ descend idx sz []"
proof (induction sz arbitrary: idx acc rule: less_induct)
  case (less sz)
  show ?case
  proof (cases "sz > 1")
    case True
    let ?k = "largest_pow2_below sz"
    have k: "?k < sz" "sz - ?k < sz" using largest_pow2_below_less [of sz] True by auto
    show ?thesis
      using less.IH [OF k(1), of idx "acc @ [True]"] less.IH [OF k(1), of idx "[True]"]
        less.IH [OF k(2), of "idx - ?k" "acc @ [False]"] less.IH [OF k(2), of "idx - ?k" "[False]"]
      by (simp add: descend.simps [of idx sz] Let_def)
  qed (simp add: descend.simps)
qed

lemma descend_step:
  assumes "2 \<le> n"
  shows "descend i n [] =
    (let k = largest_pow2_below n in
      if i < k then True # descend i k [] else False # descend (i - k) (n - k) [])"
proof -
  let ?k = "largest_pow2_below n"
  show ?thesis
    using assms descend_acc [of i ?k "[True]"] descend_acc [of "i - ?k" "n - ?k" "[False]"]
    by (simp add: descend.simps [of i n] Let_def)
qed

lemma build_proof_acc: "build_proof H leaves i acc = acc @ build_proof H leaves i []"
proof (induction "length leaves" arbitrary: leaves i acc rule: less_induct)
  case less
  show ?case
  proof (cases "2 \<le> length leaves")
    case True
    let ?k = "largest_pow2_below (length leaves)"
    note sl = split_lengths [OF True]
    have len: "length (take ?k leaves) < length leaves" "length (drop ?k leaves) < length leaves"
      using sl by simp_all
    show ?thesis
      using less.hyps [OF len(1), of i acc] less.hyps [OF len(2), of "i - ?k" acc] True
      by (simp add: build_proof.simps [of H leaves i] Let_def)
  qed (simp add: build_proof.simps)
qed

lemma build_proof_step:
  assumes "2 \<le> length leaves"
  shows "build_proof H leaves i [] =
    (let k = largest_pow2_below (length leaves) in
      if i < k then build_proof H (take k leaves) i [] @ [tree_root H (drop k leaves)]
      else build_proof H (drop k leaves) (i - k) [] @ [tree_root H (take k leaves)])"
  using assms by (simp add: build_proof.simps [of H leaves i] Let_def)

text \<open>
  Splitting off the top of the tree: what an inclusion proof proves of the whole is what its
  front proves of the half that holds the leaf, joined with the sibling.
\<close>

definition climb :: "hash_fn \<Rightarrow> hash32 \<Rightarrow> bool list \<Rightarrow> hash32 list \<Rightarrow> hash32" where
  "climb H leaf sides p = foldl (combine H) (hash_leaf H leaf) (zip (rev sides) p)"

lemma climb_Nil [simp]: "climb H leaf [] [] = hash_leaf H leaf"
  by (simp add: climb_def)

lemma climb_Cons:
  "length sides = length p \<Longrightarrow>
    climb H leaf (s # sides) (p @ [x]) = combine H (climb H leaf sides p) (s, x)"
  by (simp add: climb_def)

lemma root_from_proof_conv:
  "root_from_proof H leaf i n p =
    (if i < n \<and> length (descend i n []) = length p then Some (climb H leaf (descend i n []) p) else None)"
  by (auto simp: root_from_proof_def climb_def Let_def)

lemma short_list:
  assumes "\<not> 2 \<le> length leaves" "i < length leaves"
  shows "leaves = [leaves ! i]" "i = 0"
  using assms by (cases leaves; cases "tl leaves"; simp)+

lemma inclusion_complete:
  "i < length leaves \<Longrightarrow>
    length (descend i (length leaves) []) = length (build_proof H leaves i []) \<and>
    climb H (leaves ! i) (descend i (length leaves) []) (build_proof H leaves i []) = tree_root H leaves"
proof (induction "length leaves" arbitrary: leaves i rule: less_induct)
  case less
  show ?case
  proof (cases "2 \<le> length leaves")
    case True
    let ?k = "largest_pow2_below (length leaves)"
    note sl = split_lengths [OF True]
    show ?thesis
    proof (cases "i < ?k")
      case lt: True
      show ?thesis
        using less.hyps [of "take ?k leaves" i] sl lt
        by (simp add: descend_step [OF True] build_proof_step [OF True] tree_root_split [OF True]
            Let_def climb_Cons combine_def)
    next
      case False
      have "drop ?k leaves ! (i - ?k) = leaves ! i" using False less.prems by simp
      then show ?thesis
        using less.hyps [of "drop ?k leaves" "i - ?k"] sl False less.prems
        by (simp add: descend_step [OF True] build_proof_step [OF True] tree_root_split [OF True]
            Let_def climb_Cons combine_def)
    qed
  next
    case False
    note sh = short_list [OF False less.prems]
    show ?thesis by (subst (1 2 3 4 5 6) sh(1)) (simp add: descend.simps build_proof.simps sh(2))
  qed
qed

section \<open>Soundness and binding, up to collisions\<close>

text \<open>
  The byte strings a computation hashes, and what it means that the hash does not collide on
  a list of them.
\<close>

definition collision_free :: "hash_fn \<Rightarrow> u8 list list \<Rightarrow> bool" where
  "collision_free H inputs \<longleftrightarrow>
     list_all (\<lambda>x. list_all (\<lambda>y. H x = H y \<longrightarrow> x = y) inputs) inputs"

definition leaf_input :: "hash32 \<Rightarrow> u8 list" where
  "leaf_input leaf = LEAF_TAG # as_bytes leaf"

definition node_input :: "hash32 \<Rightarrow> hash32 \<Rightarrow> u8 list" where
  "node_input l r = NODE_TAG # as_bytes l @ as_bytes r"

function (sequential) tree_inputs :: "hash_fn \<Rightarrow> hash32 list \<Rightarrow> u8 list list" where
  "tree_inputs H [] = [EMPTY_TAG]"
| "tree_inputs H [single] = [leaf_input single]"
| "tree_inputs H leaves =
     (let k = largest_pow2_below (length leaves) in
      node_input (tree_root H (take k leaves)) (tree_root H (drop k leaves))
        # tree_inputs H (take k leaves) @ tree_inputs H (drop k leaves))"
  by pat_completeness auto

termination tree_inputs
  by (relation "measure (\<lambda>(H, leaves). length leaves)")
    (use largest_pow2_below_less in \<open>auto simp: Let_def\<close>)

primrec climb_inputs :: "hash_fn \<Rightarrow> hash32 \<Rightarrow> bool list \<Rightarrow> hash32 list \<Rightarrow> u8 list list" where
  "climb_inputs H leaf [] p = [leaf_input leaf]"
| "climb_inputs H leaf (s # sides) p =
     (let below = climb H leaf sides (butlast p) in
      (if s then node_input below (last p) else node_input (last p) below)
        # climb_inputs H leaf sides (butlast p))"

definition proof_inputs :: "hash_fn \<Rightarrow> hash32 \<Rightarrow> usize \<Rightarrow> usize \<Rightarrow> hash32 list \<Rightarrow> u8 list list" where
  "proof_inputs H leaf index n p = climb_inputs H leaf (descend index n []) p"

declare tree_inputs.simps(3) [simp del]

lemma collision_freeD:
  "collision_free H inputs \<Longrightarrow> H x = H y \<Longrightarrow> x \<in> set inputs \<Longrightarrow> y \<in> set inputs \<Longrightarrow> x = y"
  by (auto simp: collision_free_def list_all_iff)

lemma collision_free_mono:
  "collision_free H ys \<Longrightarrow> set xs \<subseteq> set ys \<Longrightarrow> collision_free H xs"
  by (auto simp: collision_free_def list_all_iff subset_iff)

lemma hash_leaf_input: "hash_leaf H leaf = H (leaf_input leaf)"
  by (simp add: hash_leaf_def leaf_input_def hasher_simps)

lemma hash_node_input: "hash_node H l r = H (node_input l r)"
  by (simp add: hash_node_def node_input_def hasher_simps)

lemma leaf_input_eq_iff [simp]: "leaf_input g = leaf_input h \<longleftrightarrow> g = h"
  by (simp add: leaf_input_def)

lemma node_input_eq_iff [simp]: "node_input l r = node_input l' r' \<longleftrightarrow> l = l' \<and> r = r'"
  by (auto simp: node_input_def)

lemma inputs_separated [simp]:
  "leaf_input g \<noteq> node_input l r" "node_input l r \<noteq> leaf_input g"
  "leaf_input g \<noteq> EMPTY_TAG" "EMPTY_TAG \<noteq> leaf_input g"
  "node_input l r \<noteq> EMPTY_TAG" "EMPTY_TAG \<noteq> node_input l r"
  by (simp_all add: leaf_input_def node_input_def LEAF_TAG_def NODE_TAG_def EMPTY_TAG_def
      str_bytes_def byte_of_def of_char_def)

lemma tree_inputs_split:
  assumes "2 \<le> length leaves"
  shows "tree_inputs H leaves =
    (let k = largest_pow2_below (length leaves) in
      node_input (tree_root H (take k leaves)) (tree_root H (drop k leaves))
        # tree_inputs H (take k leaves) @ tree_inputs H (drop k leaves))"
proof -
  obtain a b r where "leaves = a # b # r"
    using assms by (metis Suc_le_length_iff numeral_2_eq_2)
  then show ?thesis by (simp add: tree_inputs.simps(3) Let_def)
qed

text \<open>The input the root is the hash of.\<close>

definition top_input :: "hash_fn \<Rightarrow> hash32 list \<Rightarrow> u8 list" where
  "top_input H leaves =
     (case leaves of [] \<Rightarrow> EMPTY_TAG
      | [single] \<Rightarrow> leaf_input single
      | _ \<Rightarrow> (let k = largest_pow2_below (length leaves) in
              node_input (tree_root H (take k leaves)) (tree_root H (drop k leaves))))"

lemma tree_root_top: "tree_root H leaves = H (top_input H leaves)"
  by (cases "(H, leaves)" rule: tree_root.cases)
    (simp_all add: top_input_def hash_bytes_def hasher_simps hash_leaf_input hash_node_input
      tree_root.simps(3) Let_def)

lemma top_input_in: "top_input H leaves \<in> set (tree_inputs H leaves)"
  by (cases "(H, leaves)" rule: tree_root.cases)
    (simp_all add: top_input_def tree_inputs.simps(3) Let_def)

lemma top_input_split:
  assumes "2 \<le> length leaves"
  shows "top_input H leaves = (let k = largest_pow2_below (length leaves) in
    node_input (tree_root H (take k leaves)) (tree_root H (drop k leaves)))"
proof -
  obtain a b r where "leaves = a # b # r"
    using assms by (metis Suc_le_length_iff numeral_2_eq_2)
  then show ?thesis by (simp add: top_input_def)
qed

lemma top_input_node:
  assumes "top_input H leaves = node_input l r"
  shows "2 \<le> length leaves"
  using assms by (cases "(H, leaves)" rule: tree_root.cases) (auto simp: top_input_def)

lemma tree_binding:
  assumes "collision_free H (tree_inputs H xs @ tree_inputs H ys)"
    and "tree_root H xs = tree_root H ys"
  shows "xs = ys"
  using assms
proof (induction "length xs" arbitrary: xs ys rule: less_induct)
  case less
  have top: "top_input H xs = top_input H ys"
    using less.prems top_input_in [of H xs] top_input_in [of H ys]
    by (intro collision_freeD [OF less.prems(1)]) (auto simp: tree_root_top)
  show ?case
  proof (cases "2 \<le> length xs")
    case True
    let ?k = "largest_pow2_below (length xs)" and ?j = "largest_pow2_below (length ys)"
    have long: "2 \<le> length ys"
      using top top_input_split [OF True] by (metis top_input_node)
    have roots: "tree_root H (take ?k xs) = tree_root H (take ?j ys)"
        "tree_root H (drop ?k xs) = tree_root H (drop ?j ys)"
      using top by (simp_all add: top_input_split [OF True] top_input_split [OF long] Let_def)
    have sub: "set (tree_inputs H (take ?k xs)) \<subseteq> set (tree_inputs H xs)"
      "set (tree_inputs H (drop ?k xs)) \<subseteq> set (tree_inputs H xs)"
      "set (tree_inputs H (take ?j ys)) \<subseteq> set (tree_inputs H ys)"
      "set (tree_inputs H (drop ?j ys)) \<subseteq> set (tree_inputs H ys)"
      by (auto simp: tree_inputs_split [OF True] tree_inputs_split [OF long] Let_def)
    have "take ?k xs = take ?j ys"
      using split_lengths [OF True] sub roots
      by (intro less.hyps collision_free_mono [OF less.prems(1)]) auto
    moreover have "drop ?k xs = drop ?j ys"
      using split_lengths [OF True] sub roots
      by (intro less.hyps collision_free_mono [OF less.prems(1)]) auto
    ultimately show ?thesis by (metis append_take_drop_id)
  next
    case False
    then show ?thesis
      using top top_input_split [of ys H]
      by (cases xs; cases ys; cases "tl xs"; cases "tl ys") (auto simp: top_input_def Let_def)
  qed
qed

lemma inclusion_unique:
  assumes "collision_free H (tree_inputs H leaves @ climb_inputs H leaf (descend i (length leaves) []) p)"
    and "i < length leaves" "length (descend i (length leaves) []) = length p"
    and "climb H leaf (descend i (length leaves) []) p = tree_root H leaves"
  shows "leaf = leaves ! i \<and> p = build_proof H leaves i []"
  using assms
proof (induction "length leaves" arbitrary: leaves i p rule: less_induct)
  case less
  show ?case
  proof (cases "2 \<le> length leaves")
    case True
    let ?k = "largest_pow2_below (length leaves)"
    note sl = split_lengths [OF True]
    let ?left = "i < ?k"
    let ?half = "if ?left then take ?k leaves else drop ?k leaves"
    let ?i = "if ?left then i else i - ?k"
    let ?sides = "descend ?i (length ?half) []"
    have sides: "descend i (length leaves) [] = ?left # ?sides"
      using sl by (auto simp: descend_step [OF True] Let_def)
    obtain q x where p: "p = q @ [x]" "length ?sides = length q"
      using less.prems(3) unfolding sides by (cases p rule: rev_cases) auto
    let ?below = "climb H leaf ?sides q"
    let ?node = "if ?left then node_input ?below x else node_input x ?below"
    have climb: "climb H leaf (descend i (length leaves) []) p = H ?node"
      unfolding sides p(1) climb_Cons [OF p(2)] by (simp add: combine_def hash_node_input)
    have inputs: "climb_inputs H leaf (descend i (length leaves) []) p =
        ?node # climb_inputs H leaf ?sides q"
      unfolding sides p(1) by simp
    have "?node = top_input H leaves"
      using less.prems(4) top_input_in [of H leaves] unfolding climb tree_root_top
      by (intro collision_freeD [OF less.prems(1)]) (simp_all add: inputs)
    then have below: "?below = tree_root H ?half"
      and x: "x = tree_root H (if ?left then drop ?k leaves else take ?k leaves)"
      by (auto simp: top_input_split [OF True] Let_def split: if_splits)
    have sub: "set (tree_inputs H ?half) \<subseteq> set (tree_inputs H leaves)"
      by (auto simp: tree_inputs_split [OF True] Let_def)
    have "leaf = ?half ! ?i \<and> q = build_proof H ?half ?i []"
    proof (rule less.hyps)
      show "length ?half < length leaves" using sl by simp
      show "collision_free H (tree_inputs H ?half @ climb_inputs H leaf ?sides q)"
        using sub by (intro collision_free_mono [OF less.prems(1)]) (auto simp: inputs)
      show "?i < length ?half" using sl less.prems(2) by auto
    qed (use p(2) below in simp_all)
    then show ?thesis
      using less.prems(2) by (auto simp: p(1) x build_proof_step [OF True] Let_def split: if_splits)
  next
    case False
    note sh = short_list [OF False less.prems(2)]
    have d: "descend i (length leaves) [] = []" using False by (simp add: descend.simps)
    have p: "p = []" using less.prems(3) d by simp
    have root: "tree_root H leaves = hash_leaf H (leaves ! i)" by (subst sh(1)) simp
    have "leaf_input leaf = leaf_input (leaves ! i)"
    proof (rule collision_freeD [OF less.prems(1)])
      show "H (leaf_input leaf) = H (leaf_input (leaves ! i))"
        using less.prems(4) by (simp add: root d p hash_leaf_input)
      show "leaf_input (leaves ! i) \<in> set (tree_inputs H leaves @
          climb_inputs H leaf (descend i (length leaves) []) p)"
        by (subst sh(1)) simp
    qed (simp add: d)
    then show ?thesis using False by (simp add: p build_proof.simps)
  qed
qed

lemma descend_length:
  "i < n \<Longrightarrow> n \<le> 2 ^ d \<Longrightarrow> d \<le> 64 \<Longrightarrow> length (descend i n []) \<le> d"
proof (induction d arbitrary: i n)
  case 0
  then show ?case by (simp add: descend.simps)
next
  case (Suc d)
  show ?case
  proof (cases "2 \<le> n")
    case True
    let ?k = "largest_pow2_below n"
    have n64: "n \<le> 2 ^ 64"
      using Suc.prems(2,3) power_increasing [of "Suc d" 64 "2::nat"] by (simp del: power_Suc)
    note b = largest_pow2_below_bounds [OF True n64] and lt = largest_pow2_below_less [OF True]
    have "(2::nat) ^ (63 - leading_zeros (n - 1)) < 2 ^ Suc d" using b(2) lt Suc.prems(2) by simp
    then have "63 - leading_zeros (n - 1) \<le> d"
      by (metis less_Suc_eq_le nat_power_less_imp_less zero_less_numeral)
    then have k: "?k \<le> 2 ^ d" unfolding b(2) by (rule power_increasing) simp
    moreover have "n - ?k \<le> 2 ^ d" using b(1) k by simp
    ultimately show ?thesis
      using Suc.IH [of i ?k] Suc.IH [of "i - ?k" "n - ?k"] Suc.prems
      by (auto simp: descend_step [OF True] Let_def)
  qed (simp add: descend.simps)
qed

section \<open>A concrete hash for examples\<close>

text \<open>
  A digest made of the front of the input and of what follows its first 33 bytes (where the
  second half of a node is): enough to tell small trees apart, and cheap to evaluate.
\<close>

definition mini_hash :: hash_fn where
  "mini_hash bs = from_bytes (take 12 bs @ take 12 (drop 33 bs))"

lemma largest_pow2_below_eq:
  assumes "2 ^ e < n" "n \<le> 2 ^ Suc e" "e < 64"
  shows "largest_pow2_below n = 2 ^ e"
proof -
  define c where "c = 63 - leading_zeros (n - 1)"
  have "(2::nat) ^ Suc e \<le> 2 ^ 64" using assms(3) by (intro power_increasing) simp_all
  then have n: "2 \<le> n" "n \<le> 2 ^ 64" using assms one_le_power [of "2::nat" e] by linarith+
  have k: "largest_pow2_below n = 2 ^ c" "n \<le> 2 * largest_pow2_below n" "largest_pow2_below n < n"
    using largest_pow2_below_bounds [OF n] largest_pow2_below_less [OF n(1)] by (simp_all add: c_def)
  have "(2::nat) ^ e < 2 ^ Suc c" "(2::nat) ^ c < 2 ^ Suc e" using k assms(1,2) by auto
  then have "e < Suc c" "c < Suc e" by (metis nat_power_less_imp_less zero_less_numeral)+
  then show ?thesis using k(1) by simp
qed

lemma small_splits:
  "largest_pow2_below 2 = 1" "largest_pow2_below 3 = 2" "largest_pow2_below 4 = 2"
  "largest_pow2_below 5 = 4"
  by (simp_all add: largest_pow2_below_eq [of 0, simplified] largest_pow2_below_eq [of 1, simplified]
      largest_pow2_below_eq [of 2, simplified])

lemma from_bytes_eq_iff:
  "from_bytes a = from_bytes b \<longleftrightarrow> take 32 (a @ replicate 32 0) = take 32 (b @ replicate 32 0)"
  by (metis as_bytes_from_bytes as_bytes_eq_iff)

lemma splits_Suc:
  "largest_pow2_below (Suc (Suc 0)) = Suc 0" "largest_pow2_below (Suc (Suc (Suc 0))) = 2"
  "largest_pow2_below (Suc (Suc (Suc (Suc 0)))) = 2"
  using small_splits by (simp_all add: eval_nat_numeral)

lemma tree_small:
  "tree_root H [a, b] = hash_node H (hash_leaf H a) (hash_leaf H b)"
  "tree_root H [a, b, c] = hash_node H (tree_root H [a, b]) (hash_leaf H c)"
  "tree_inputs H [a, b] = [node_input (hash_leaf H a) (hash_leaf H b), leaf_input a, leaf_input b]"
  "tree_inputs H [a, b, c] =
    node_input (tree_root H [a, b]) (hash_leaf H c) # tree_inputs H [a, b] @ [leaf_input c]"
  by (simp_all add: tree_root_split tree_inputs_split splits_Suc)

lemma replicate_32:
  "replicate 32 (0 :: u8) = [0, 0, 0, 0, 0, 0, 0, 0, 0, 0, 0, 0, 0, 0, 0, 0,
    0, 0, 0, 0, 0, 0, 0, 0, 0, 0, 0, 0, 0, 0, 0, 0]"
  by (simp add: eval_nat_numeral)

lemmas mini_hash_simps = mini_hash_def as_bytes_from_bytes from_bytes_eq_iff replicate_32
  hash_leaf_input hash_node_input leaf_input_def node_input_def LEAF_TAG_def NODE_TAG_def

lemma descend_base: "n \<le> Suc 0 \<Longrightarrow> descend i n [] = []"
  by (simp add: descend.simps)

section \<open>Properties\<close>

text \<open>
  A digest printed as hex reads back as itself, and whatever \<open>from_hex\<close> accepts is the
  printed digest up to the case of its letters.
\<close>

theorem hex_roundtrip:
  "from_hex (to_hex h) = Ok h \<and> (from_hex s = Ok g \<longrightarrow> to_hex g = map ascii_lower s)"
  by (simp add: from_hex_to_hex from_hex_eq_Inr)

theorem hex_roundtrip_witness:
  "from_hex (replicate 64 (CHR ''A'')) = Ok (from_bytes (replicate 32 170)) \<and>
   to_hex (from_bytes (replicate 32 170)) = replicate 64 (CHR ''a'')"
proof
  show accepted: "from_hex (replicate 64 (CHR ''A'')) = Ok (from_bytes (replicate 32 170))"
    by code_simp
  have "map ascii_lower (replicate 64 (CHR ''A'')) = replicate 64 (CHR ''a'')" by code_simp
  then show "to_hex (from_bytes (replicate 32 170)) = replicate 64 (CHR ''a'')"
    using hex_roundtrip [of GENESIS "replicate 64 (CHR ''A'')" "from_bytes (replicate 32 170)"] accepted
    by simp
qed

text \<open>
  The split point is the power of two the tree needs: for every length from 2 up to the
  largest a 64-bit machine has, strictly below the length and at least half of it.
\<close>

theorem split_point_bounds:
  assumes "2 \<le> n" "n \<le> 2 ^ 64"
  shows "\<exists>e < 64. largest_pow2_below n = 2 ^ e \<and> 2 ^ e < n \<and> n \<le> 2 * 2 ^ e"
  using largest_pow2_below_bounds [OF assms] largest_pow2_below_less [OF assms(1)]
  by (intro exI [of _ "63 - leading_zeros (n - 1)"]) simp

theorem split_point_bounds_witness:
  "\<exists>e < 64. largest_pow2_below 1000 = 2 ^ e \<and> 2 ^ e < (1000 :: nat) \<and> (1000 :: nat) \<le> 2 * 2 ^ e"
  by (rule split_point_bounds) simp_all

text \<open>
  Inclusion proofs are complete and logarithmic: every index inside the range has a proof,
  the verifier computes the tree's root from it, and in a range of at most \<open>2 ^ d\<close> leaves it
  has at most \<open>d\<close> steps.
\<close>

theorem inclusion_proof_complete:
  assumes "index < length leaves" "length leaves \<le> 2 ^ d" "d \<le> 64"
  shows "\<exists>p. tree_proof H leaves index = Some p \<and> length p \<le> d \<and>
    root_from_proof H (leaves ! index) index (length leaves) p = Some (tree_root H leaves)"
  using inclusion_complete [OF assms(1), of H] descend_length [OF assms] assms(1)
  by (simp add: tree_proof_def root_from_proof_conv)

theorem inclusion_proof_complete_witness:
  "\<exists>p. tree_proof mini_hash [GENESIS, from_bytes [1], from_bytes [2]] 1 = Some p \<and> length p \<le> 2 \<and>
    root_from_proof mini_hash (from_bytes [1]) 1 3 p =
      Some (tree_root mini_hash [GENESIS, from_bytes [1], from_bytes [2]])"
  using inclusion_proof_complete [of 1 "[GENESIS, from_bytes [1], from_bytes [2]]" 2 mini_hash]
  by (simp add: eval_nat_numeral)

text \<open>
  C28. Inclusion proofs are sound: if the verifier arrives at the root of a range, the leaf it
  started from is the leaf of the range at that index and the proof is the one
  \<open>tree_proof\<close> builds, unless the hash collides among the inputs of the two computations.
\<close>

theorem inclusion_proof_sound:
  assumes "collision_free H (tree_inputs H leaves @ proof_inputs H leaf index (length leaves) p)"
    and "root_from_proof H leaf index (length leaves) p = Some (tree_root H leaves)"
  shows "index < length leaves \<and> leaf = leaves ! index \<and> tree_proof H leaves index = Some p"
  using inclusion_unique [of H leaves leaf index p] assms
  by (auto simp: root_from_proof_conv proof_inputs_def tree_proof_def split: if_splits)

theorem inclusion_proof_sound_witness:
  "let leaves = [from_bytes [1], from_bytes [2, 5], from_bytes [7]];
       p = [hash_leaf mini_hash (from_bytes [1]), hash_leaf mini_hash (from_bytes [7])] in
   tree_proof mini_hash leaves 1 = Some p"
proof -
  let ?leaves = "[from_bytes [1], from_bytes [2, 5], from_bytes [7]]"
  let ?p = "[hash_leaf mini_hash (from_bytes [1]), hash_leaf mini_hash (from_bytes [7])]"
  have d: "descend (Suc 0) (length ?leaves) [] = [True, False]"
    by (simp add: descend_step splits_Suc small_splits descend_base Let_def)
  have "collision_free mini_hash (tree_inputs mini_hash ?leaves @
      proof_inputs mini_hash (from_bytes [2, 5]) 1 (length ?leaves) ?p)"
    unfolding proof_inputs_def One_nat_def d
    by (simp add: collision_free_def tree_small climb_def combine_def mini_hash_simps)
  moreover have "root_from_proof mini_hash (from_bytes [2, 5]) 1 (length ?leaves) ?p =
      Some (tree_root mini_hash ?leaves)"
    unfolding root_from_proof_conv One_nat_def d by (simp add: climb_def combine_def tree_small)
  ultimately show ?thesis
    using inclusion_proof_sound [of mini_hash ?leaves "from_bytes [2, 5]" 1 ?p] by simp
qed

text \<open>
  A tree root binds its leaves, their order and their number: two ranges of any lengths
  with the same root are the same range, unless the hash collides on what the two trees hash.
  (The tree that duplicates an odd last leaf does not have this.)
\<close>

theorem tree_root_binding:
  assumes "collision_free H (tree_inputs H xs @ tree_inputs H ys)"
    and "tree_root H xs = tree_root H ys"
  shows "xs = ys"
  using assms by (rule tree_binding)

theorem tree_root_binding_witness:
  "\<not> tree_root mini_hash [from_bytes [1], from_bytes [2], from_bytes [2]] =
     tree_root mini_hash [from_bytes [1], from_bytes [2]]"
proof
  assume eq: "tree_root mini_hash [from_bytes [1], from_bytes [2], from_bytes [2]] =
     tree_root mini_hash [from_bytes [1], from_bytes [2]]"
  have "collision_free mini_hash (tree_inputs mini_hash [from_bytes [1], from_bytes [2], from_bytes [2]] @
      tree_inputs mini_hash [from_bytes [1], from_bytes [2]])"
    by (simp add: collision_free_def tree_small mini_hash_simps)
  from tree_root_binding [OF this eq] show False by simp
qed

end
