(* ===== verification/Canon.thy ===== *)
theory Canon
  imports Hash
begin

text \<open>
  \<open>crates/ancre-canon/src/lib.rs\<close>: canonical CBOR. A value is serialized to ciborium's
  \<open>Value\<close>, rewritten into its single permitted form (or refused), and written; decoding
  accepts only bytes that the writer gives back.

  ciborium is not code of the repository. What the code calls of it is the record
  \<open>canon_prims\<close>: the order of \<open>CanonicalValue\<close>, \<open>into_writer\<close>, \<open>from_reader\<close>, and beside it the
  hash primitive. serde's derived conversions are the arguments \<open>ser\<close> and \<open>de\<close>.
\<close>

section \<open>Values\<close>

datatype cbor =
    VInteger int
  | VBytes "u8 list"
  | VFloat u64
  | VText string
  | VBool bool
  | VNull
  | VTag u64 cbor
  | VArray "cbor list"
  | VMap "(cbor \<times> cbor) list"

record canon_prims =
  key_le :: "cbor \<Rightarrow> cbor \<Rightarrow> bool"
  into_writer :: "cbor \<Rightarrow> (u8 list, string) result"
  from_reader :: "u8 list \<Rightarrow> (cbor, string) result"
  digest :: hash_fn

definition CANON_VERSION :: string where
  "CANON_VERSION = ''ancre-canon/1''"

datatype canon_error =
    FloatNotAllowed
  | DuplicateMapKey
  | Encode string
  | Decode string
  | NotCanonical
  | UnknownCanonVersion string

fun canon_error_to_string :: "canon_error \<Rightarrow> string" where
  "canon_error_to_string FloatNotAllowed = ''floats are not canonically encodable''"
| "canon_error_to_string DuplicateMapKey = ''duplicate map key''"
| "canon_error_to_string (Encode m) = ''encode failed: '' @ m"
| "canon_error_to_string (Decode m) = ''decode failed: '' @ m"
| "canon_error_to_string NotCanonical = ''input was not canonically encoded''"
| "canon_error_to_string (UnknownCanonVersion v) = ''unknown canon_version: '' @ v"

text \<open>\<open>Bytes\<close> and \<open>Hash32\<close> reach the canonical form as byte strings.\<close>

definition Bytes :: "u8 list \<Rightarrow> cbor" where
  "Bytes bs = VBytes bs"

definition hash_value :: "hash32 \<Rightarrow> cbor" where
  "hash_value h = VBytes (as_bytes h)"

section \<open>Canonicalization\<close>

text \<open>\<open>CanonicalValue\<close>'s \<open>==\<close> is its \<open>cmp\<close> giving \<open>Equal\<close>.\<close>

definition key_eq :: "(cbor \<Rightarrow> cbor \<Rightarrow> bool) \<Rightarrow> cbor \<Rightarrow> cbor \<Rightarrow> bool" where
  "key_eq le a b \<longleftrightarrow> le a b \<and> le b a"

definition entry_le :: "(cbor \<Rightarrow> cbor \<Rightarrow> bool) \<Rightarrow> cbor \<times> cbor \<Rightarrow> cbor \<times> cbor \<Rightarrow> bool" where
  "entry_le le a b \<longleftrightarrow> le (fst a) (fst b)"

fun windows_any :: "('a \<Rightarrow> 'a \<Rightarrow> bool) \<Rightarrow> 'a list \<Rightarrow> bool" where
  "windows_any p (a # b # r) \<longleftrightarrow> p a b \<or> windows_any p (b # r)"
| "windows_any p _ \<longleftrightarrow> False"

lemma and_then_cong [fundef_cong]:
  "r = r' \<Longrightarrow> (\<And>a. r' = Inr a \<Longrightarrow> f a = g a) \<Longrightarrow> and_then r f = and_then r' g"
  by (cases r') auto

lemma try_map_cong [fundef_cong]:
  "xs = ys \<Longrightarrow> (\<And>x. x \<in> set ys \<Longrightarrow> f x = g x) \<Longrightarrow> try_map f xs = try_map g ys"
  by (induction ys arbitrary: xs) (auto split: sum.splits)

fun canonicalize :: "(cbor \<Rightarrow> cbor \<Rightarrow> bool) \<Rightarrow> cbor \<Rightarrow> (cbor, canon_error) result" where
  "canonicalize le (VFloat f) = Err FloatNotAllowed"
| "canonicalize le (VMap entries) =
     and_then
       (try_map (\<lambda>e. and_then (canonicalize le (fst e)) (\<lambda>k.
                     and_then (canonicalize le (snd e)) (\<lambda>val. Ok (k, val)))) entries)
       (\<lambda>out. let out = sort_by (entry_le le) out in
         if windows_any (\<lambda>a b. key_eq le (fst a) (fst b)) out then Err DuplicateMapKey
         else Ok (VMap out))"
| "canonicalize le (VArray items) =
     and_then (try_map (\<lambda>i. canonicalize le i) items) (\<lambda>out. Ok (VArray out))"
| "canonicalize le (VTag tag inner) =
     and_then (canonicalize le inner) (\<lambda>i. Ok (VTag tag i))"
| "canonicalize le other = Ok other"

section \<open>Encoding and decoding\<close>

definition write_canonical :: "canon_prims \<Rightarrow> cbor \<Rightarrow> (u8 list, canon_error) result" where
  "write_canonical P v = map_err Encode (into_writer P v)"

definition encode ::
    "canon_prims \<Rightarrow> ('a \<Rightarrow> (cbor, string) result) \<Rightarrow> 'a \<Rightarrow> (u8 list, canon_error) result" where
  "encode P ser x =
     and_then (map_err Encode (ser x)) (\<lambda>v.
     and_then (canonicalize (key_le P) v) (\<lambda>v. write_canonical P v))"

definition decode ::
    "canon_prims \<Rightarrow> (cbor \<Rightarrow> ('a, string) result) \<Rightarrow> u8 list \<Rightarrow> ('a, canon_error) result" where
  "decode P de bytes =
     and_then (map_err Decode (from_reader P bytes)) (\<lambda>v.
     and_then (canonicalize (key_le P) v) (\<lambda>v.
     and_then (write_canonical P v) (\<lambda>w.
       if w \<noteq> bytes then Err NotCanonical else map_err Decode (de v))))"

definition content_hash ::
    "canon_prims \<Rightarrow> ('a \<Rightarrow> (cbor, string) result) \<Rightarrow> 'a \<Rightarrow> (hash32, canon_error) result" where
  "content_hash P ser x = and_then (encode P ser x) (\<lambda>bytes. Ok (hash_bytes (digest P) bytes))"

section \<open>The canonical form\<close>

text \<open>What \<open>canonicalize\<close> promises: no float anywhere, and the keys of every map ascend strictly.\<close>

fun canonical :: "(cbor \<Rightarrow> cbor \<Rightarrow> bool) \<Rightarrow> cbor \<Rightarrow> bool" where
  "canonical le (VFloat f) \<longleftrightarrow> False"
| "canonical le (VMap entries) \<longleftrightarrow>
     list_all (\<lambda>e. canonical le (fst e) \<and> canonical le (snd e)) entries \<and>
     sorted_wrt (\<lambda>a b. le (fst a) (fst b) \<and> \<not> le (fst b) (fst a)) entries"
| "canonical le (VArray items) \<longleftrightarrow> list_all (\<lambda>i. canonical le i) items"
| "canonical le (VTag tag inner) \<longleftrightarrow> canonical le inner"
| "canonical le other \<longleftrightarrow> True"

lemma entry_le_preorder: "total_preorder le \<Longrightarrow> total_preorder (entry_le le)"
  unfolding total_preorder_def entry_le_def by blast

lemma windows_any_conv:
  "windows_any p xs \<longleftrightarrow> (\<exists>i. Suc i < length xs \<and> p (xs ! i) (xs ! Suc i))"
proof (induction p xs rule: windows_any.induct)
  case (1 p a b r)
  show ?case
    by (subst ex_nat_split) (simp add: 1)
qed auto

lemma windows_any_sorted:
  assumes "total_preorder le" "sorted_wrt le xs"
  shows "(\<not> windows_any (\<lambda>a b. le a b \<and> le b a) xs) \<longleftrightarrow> sorted_wrt (\<lambda>a b. le a b \<and> \<not> le b a) xs"
proof
  assume no: "\<not> windows_any (\<lambda>a b. le a b \<and> le b a) xs"
  have adj: "le (xs ! i) (xs ! Suc i)" if "Suc i < length xs" for i
    using assms(2) that by (simp add: sorted_wrt_iff_nth_less)
  have "\<not> le (xs ! j) (xs ! i)" if "i < j" "j < length xs" for i j
    using no adj by (intro total_preorder.adjacent_distinct [OF assms _ that])
      (auto simp: windows_any_conv)
  then show "sorted_wrt (\<lambda>a b. le a b \<and> \<not> le b a) xs"
    using assms(2) by (simp add: sorted_wrt_iff_nth_less)
next
  assume "sorted_wrt (\<lambda>a b. le a b \<and> \<not> le b a) xs"
  then show "\<not> windows_any (\<lambda>a b. le a b \<and> le b a) xs"
    by (auto simp: windows_any_conv sorted_wrt_iff_nth_less)
qed

lemma no_dup_sorted:
  assumes "total_preorder le"
  shows "(\<not> windows_any (\<lambda>a b. key_eq le (fst a) (fst b)) (sort_by (entry_le le) es)) \<longleftrightarrow>
    sorted_wrt (\<lambda>a b. le (fst a) (fst b) \<and> \<not> le (fst b) (fst a)) (sort_by (entry_le le) es)"
  using windows_any_sorted [OF entry_le_preorder [OF assms]
      total_preorder.sorted_sort_by [OF entry_le_preorder [OF assms]]]
  by (simp add: entry_le_def key_eq_def)

lemma canonicalize_canonical:
  assumes "total_preorder le"
  shows "canonicalize le v = Inr w \<Longrightarrow> canonical le w"
proof (induction v arbitrary: w)
  case (VMap es)
  obtain out where out: "try_map (\<lambda>e. and_then (canonicalize le (fst e)) (\<lambda>k.
                     and_then (canonicalize le (snd e)) (\<lambda>val. Inr (k, val)))) es = Inr out"
    and w: "w = VMap (sort_by (entry_le le) out)"
    and nd: "\<not> windows_any (\<lambda>a b. key_eq le (fst a) (fst b)) (sort_by (entry_le le) out)"
    using VMap.prems by (auto simp: and_then_eq_Inr Let_def split: if_splits)
  have "canonical le (fst e) \<and> canonical le (snd e)" if e: "e \<in> set out" for e
  proof -
    obtain e0 where "e0 \<in> set es" "canonicalize le (fst e0) = Inr (fst e)"
      "canonicalize le (snd e0) = Inr (snd e)"
      using try_map_in [OF out e] by (auto simp: and_then_eq_Inr)
    then show ?thesis
      using VMap.IH(1) [of e0 "fst e0" "fst e"] VMap.IH(2) [of e0 "snd e0" "snd e"]
      by (auto simp: prod_set_defs)
  qed
  then show ?case using nd no_dup_sorted [OF assms] by (auto simp: w list_all_iff)
next
  case (VArray vs)
  then show ?case
    by (fastforce simp: and_then_eq_Inr list_all_iff dest: try_map_in)
qed (auto simp: and_then_eq_Inr)

lemma canonicalize_fixed:
  assumes "total_preorder le"
  shows "canonical le w \<Longrightarrow> canonicalize le w = Inr w"
proof (induction w)
  case (VMap es)
  have es: "\<And>e. e \<in> set es \<Longrightarrow> canonicalize le (fst e) = Inr (fst e) \<and>
      canonicalize le (snd e) = Inr (snd e)"
    using VMap by (auto simp: list_all_iff)
  have strict: "sorted_wrt (\<lambda>a b. le (fst a) (fst b) \<and> \<not> le (fst b) (fst a)) es"
    using VMap.prems by simp
  then have "sort_by (entry_le le) es = es"
    by (intro total_preorder.sort_by_sorted [OF entry_le_preorder [OF assms]])
      (auto simp: entry_le_def elim: sorted_wrt_mono_rel [rotated])
  moreover from this have "\<not> windows_any (\<lambda>a b. key_eq le (fst a) (fst b)) es"
    using no_dup_sorted [OF assms, of es] strict by simp
  moreover have "try_map (\<lambda>e. and_then (canonicalize le (fst e)) (\<lambda>k.
                     and_then (canonicalize le (snd e)) (\<lambda>val. Inr (k, val)))) es = Inr es"
    using es by (subst try_map_Inr_map [where g = id]) auto
  ultimately show ?case by simp
next
  case (VArray vs)
  have "try_map (canonicalize le) vs = Inr vs"
    using VArray by (subst try_map_Inr_map [where g = id]) (auto simp: list_all_iff)
  then show ?case by simp
qed auto

text \<open>
  Two value graphs that hold the same logical value: they differ in the order the entries of
  their maps were inserted, at any depth.
\<close>

inductive same_value :: "cbor \<Rightarrow> cbor \<Rightarrow> bool" where
  same_refl: "same_value v v"
| same_tag: "same_value v w \<Longrightarrow> same_value (VTag t v) (VTag t w)"
| same_array: "list_all2 same_value vs ws \<Longrightarrow> same_value (VArray vs) (VArray ws)"
| same_map: "list_all2 (\<lambda>d e. same_value (fst d) (fst e) \<and> same_value (snd d) (snd e)) ds es \<Longrightarrow>
    same_value (VMap ds) (VMap es)"
| same_perm: "mset ds = mset es \<Longrightarrow> same_value (VMap ds) (VMap es)"
| same_trans: "same_value u v \<Longrightarrow> same_value v w \<Longrightarrow> same_value u w"

definition canonical_entry ::
    "(cbor \<Rightarrow> cbor \<Rightarrow> bool) \<Rightarrow> cbor \<times> cbor \<Rightarrow> (cbor \<times> cbor, canon_error) result" where
  "canonical_entry le e = and_then (canonicalize le (fst e)) (\<lambda>k.
     and_then (canonicalize le (snd e)) (\<lambda>val. Ok (k, val)))"

lemma canonicalize_VMap:
  "canonicalize le (VMap es) = Inr w \<longleftrightarrow>
    (\<exists>out. try_map (canonical_entry le) es = Inr out \<and>
      \<not> windows_any (\<lambda>a b. key_eq le (fst a) (fst b)) (sort_by (entry_le le) out) \<and>
      w = VMap (sort_by (entry_le le) out))"
  unfolding canonical_entry_def [abs_def] by (auto simp: and_then_eq_Inr Let_def)

lemma canonicalize_VArray:
  "canonicalize le (VArray vs) = Inr w \<longleftrightarrow>
    (\<exists>out. try_map (canonicalize le) vs = Inr out \<and> w = VArray out)"
  by (auto simp: and_then_eq_Inr)

lemma same_map_entries:
  assumes "list_all2 (\<lambda>d e. (\<forall>w. canonicalize le (fst d) = Inr w \<longrightarrow> canonicalize le (fst e) = Inr w) \<and>
    (\<forall>w. canonicalize le (snd d) = Inr w \<longrightarrow> canonicalize le (snd e) = Inr w)) ds es"
  shows "try_map (canonical_entry le) ds = Inr out \<Longrightarrow> try_map (canonical_entry le) es = Inr out"
  using assms
  by (fastforce simp: try_map_eq_Inr list_all2_conv_all_nth canonical_entry_def and_then_eq_Inr)

lemma same_value_canonicalize:
  assumes "total_preorder le"
  shows "same_value v v' \<Longrightarrow> canonicalize le v = Inr w \<Longrightarrow> canonicalize le v' = Inr w"
proof (induction v v' arbitrary: w rule: same_value.induct)
  case (same_array vs ws)
  then show ?case
    unfolding canonicalize_VArray by (fastforce simp: try_map_eq_Inr list_all2_conv_all_nth)
next
  case (same_map ds es)
  have "list_all2 (\<lambda>d e. (\<forall>w. canonicalize le (fst d) = Inr w \<longrightarrow> canonicalize le (fst e) = Inr w) \<and>
    (\<forall>w. canonicalize le (snd d) = Inr w \<longrightarrow> canonicalize le (snd e) = Inr w)) ds es"
    using same_map.IH by (rule list_all2_mono) blast
  then show ?case using same_map.prems same_map_entries unfolding canonicalize_VMap by blast
next
  case (same_perm ds es)
  obtain out where out: "try_map (canonical_entry le) ds = Inr out"
    and nd: "\<not> windows_any (\<lambda>a b. key_eq le (fst a) (fst b)) (sort_by (entry_le le) out)"
    and w: "w = VMap (sort_by (entry_le le) out)"
    using same_perm.prems unfolding canonicalize_VMap by blast
  obtain out' where out': "try_map (canonical_entry le) es = Inr out'" "mset out' = mset out"
    using list_all2_reorder_left_invariance [OF out [unfolded try_map_list_all2] same_perm.hyps [symmetric]]
    unfolding try_map_list_all2 by blast
  let ?s = "sort_by (entry_le le) out"
  have strict: "sorted_wrt (\<lambda>a b. le (fst a) (fst b) \<and> \<not> le (fst b) (fst a)) ?s"
    using nd no_dup_sorted [OF assms] by simp
  have "x = y" if xy: "x \<in> set out" "y \<in> set out" and le: "entry_le le x y" "entry_le le y x" for x y
  proof -
    obtain i j where ij: "i < length ?s" "j < length ?s" "?s ! i = x" "?s ! j = y"
      using xy by (metis set_sort_by in_set_conv_nth)
    show ?thesis
      using ij strict le sorted_wrt_nth_less [OF strict, of i j]
        sorted_wrt_nth_less [OF strict, of j i]
      by (cases i j rule: linorder_cases) (auto simp: entry_le_def)
  qed
  then have "sort_by (entry_le le) out = sort_by (entry_le le) out'"
    using out'(2) by (intro total_preorder.sort_by_perm [OF entry_le_preorder [OF assms]]) auto
  then show ?case using out' nd w unfolding canonicalize_VMap by metis
qed (auto simp: and_then_eq_Inr)

lemma same_value_sym: "same_value v v' \<Longrightarrow> same_value v' v"
proof (induction rule: same_value.induct)
  case (same_array vs ws)
  have "list_all2 same_value ws vs"
    using same_array.IH by (auto simp: list_all2_conv_all_nth)
  then show ?case by (rule same_value.same_array)
next
  case (same_map ds es)
  have "list_all2 (\<lambda>d e. same_value (fst d) (fst e) \<and> same_value (snd d) (snd e)) es ds"
    using same_map.IH by (auto simp: list_all2_conv_all_nth)
  then show ?case by (rule same_value.same_map)
qed (auto intro: same_value.intros)

section \<open>Encodings\<close>

lemma write_canonical_eq_Inr [simp]:
  "write_canonical P v = Inr bytes \<longleftrightarrow> into_writer P v = Inr bytes"
  by (simp add: write_canonical_def)

lemma encode_eq_Inr:
  "encode P ser x = Inr bytes \<longleftrightarrow>
    (\<exists>v w. ser x = Inr v \<and> canonicalize (key_le P) v = Inr w \<and> into_writer P w = Inr bytes)"
  by (auto simp: encode_def and_then_eq_Inr)

lemma decode_eq_Inr:
  "decode P de bytes = Inr x \<longleftrightarrow>
    (\<exists>v w. from_reader P bytes = Inr v \<and> canonicalize (key_le P) v = Inr w \<and>
      into_writer P w = Inr bytes \<and> de w = Inr x)"
  by (auto simp: decode_def and_then_eq_Inr split: if_splits)

lemma content_hash_eq_Inr:
  "content_hash P ser x = Inr h \<longleftrightarrow> (\<exists>bytes. encode P ser x = Inr bytes \<and> h = digest P bytes)"
  by (auto simp: content_hash_def and_then_eq_Inr hash_bytes_def hasher_simps)

text \<open>
  The writer keeps the canonical forms of the given values apart: equal encodings come from
  equal forms.
\<close>

definition canonical_form ::
    "canon_prims \<Rightarrow> ('a \<Rightarrow> (cbor, string) result) \<Rightarrow> 'a \<Rightarrow> (cbor, canon_error) result" where
  "canonical_form P ser x = and_then (map_err Encode (ser x)) (canonicalize (key_le P))"

definition written_apart ::
    "canon_prims \<Rightarrow> ('a \<Rightarrow> (cbor, string) result) \<Rightarrow> 'a list \<Rightarrow> bool" where
  "written_apart P ser xs \<longleftrightarrow>
     list_all (\<lambda>x. list_all (\<lambda>y.
       encode P ser x = encode P ser y \<longrightarrow> canonical_form P ser x = canonical_form P ser y) xs) xs"

lemma written_apartD:
  assumes "written_apart P ser xs" "x \<in> set xs" "y \<in> set xs"
    and "encode P ser x = Inr b" "encode P ser y = Inr b"
  shows "\<exists>v v' w. ser x = Inr v \<and> ser y = Inr v' \<and>
    canonicalize (key_le P) v = Inr w \<and> canonicalize (key_le P) v' = Inr w"
proof -
  have "encode P ser x = encode P ser y" unfolding assms(4,5) ..
  then have same: "canonical_form P ser x = canonical_form P ser y"
    using assms(1-3) unfolding written_apart_def list_all_iff by blast
  obtain v w where v: "ser x = Inr v" "canonicalize (key_le P) v = Inr w"
    using assms(4) unfolding encode_eq_Inr by blast
  obtain v' where v': "ser y = Inr v'"
    using assms(5) unfolding encode_eq_Inr by blast
  have "canonicalize (key_le P) v' = Inr w"
    using same v v' by (simp add: canonical_form_def)
  then show ?thesis using v v' by blast
qed

lemma written_apart_sub: "written_apart P ser ys \<Longrightarrow> set xs \<subseteq> set ys \<Longrightarrow> written_apart P ser xs"
  unfolding written_apart_def list_all_iff by blast

section \<open>A concrete instance for examples\<close>

text \<open>
  Keys ordered by length and then bytewise, which is the documented order on text keys, and a
  writer that is injective on small values.
\<close>

fun demo_key :: "cbor \<Rightarrow> nat list" where
  "demo_key (VText s) = length s # map of_char s"
| "demo_key _ = []"

definition demo_key_le :: "cbor \<Rightarrow> cbor \<Rightarrow> bool" where
  "demo_key_le = by_key demo_key"

fun demo_write :: "cbor \<Rightarrow> u8 list" where
  "demo_write (VInteger i) = [1, of_int i]"
| "demo_write (VBytes bs) = 2 # of_nat (length bs) # bs"
| "demo_write (VFloat f) = [3]"
| "demo_write (VText s) = 4 # of_nat (length s) # str_bytes s"
| "demo_write (VBool b) = [5, of_bool b]"
| "demo_write VNull = [6]"
| "demo_write (VTag t v) = 7 # ucast t # demo_write v"
| "demo_write (VArray vs) = 8 # of_nat (length vs) # concat (map demo_write vs)"
| "demo_write (VMap es) =
     9 # of_nat (length es) # concat (map (\<lambda>e. demo_write (fst e) @ demo_write (snd e)) es)"

text \<open>A reader that knows the values it is given.\<close>

definition demo_read :: "cbor list \<Rightarrow> u8 list \<Rightarrow> (cbor, string) result" where
  "demo_read vs bytes = ok_or ''syntax'' (find (\<lambda>v. demo_write v = bytes) vs)"

definition demo_prims :: "cbor list \<Rightarrow> canon_prims" where
  "demo_prims vs =
     \<lparr>key_le = demo_key_le, into_writer = (\<lambda>v. Ok (demo_write v)), from_reader = demo_read vs,
       digest = mini_hash\<rparr>"

lemma demo_key_le_preorder: "total_preorder demo_key_le"
  unfolding demo_key_le_def by (rule by_key.total_preorder_axioms)

lemma demo_prims_simps [simp]:
  "key_le (demo_prims vs) = demo_key_le" "into_writer (demo_prims vs) v = Inr (demo_write v)"
  "from_reader (demo_prims vs) = demo_read vs" "digest (demo_prims vs) = mini_hash"
  by (simp_all add: demo_prims_def)

section \<open>Properties\<close>

text \<open>
  What \<open>canonicalize\<close> returns is in the single permitted form at every depth (no float, the
  keys of each map strictly ascending, so none twice), and it is a fixed point: canonicalizing
  again changes nothing.
\<close>

theorem canonicalize_single_form:
  assumes "total_preorder le" "canonicalize le v = Ok w"
  shows "canonical le w \<and> canonicalize le w = Ok w"
  using canonicalize_canonical [OF assms] canonicalize_fixed [OF assms(1)] by blast

theorem canonicalize_single_form_witness:
  "canonical demo_key_le (VMap [(VText ''z'', VNull), (VText ''aa'', VArray [VInteger 1])]) \<and>
   canonicalize demo_key_le (VMap [(VText ''aa'', VArray [VInteger 1]), (VText ''z'', VNull)]) =
     Ok (VMap [(VText ''z'', VNull), (VText ''aa'', VArray [VInteger 1])])"
proof -
  have "canonicalize demo_key_le (VMap [(VText ''aa'', VArray [VInteger 1]), (VText ''z'', VNull)]) =
     Ok (VMap [(VText ''z'', VNull), (VText ''aa'', VArray [VInteger 1])])"
    by code_simp
  with canonicalize_single_form [OF demo_key_le_preorder this] show ?thesis by blast
qed

text \<open>
  Two value graphs that differ only in the order in which the entries of their maps were
  inserted, at any depth, encode to the same bytes, or both fail.
\<close>

theorem insertion_order_irrelevant:
  assumes "total_preorder (key_le P)" "same_value v v'" "ser x = Ok v" "ser x' = Ok v'"
  shows "encode P ser x = Ok bytes \<longleftrightarrow> encode P ser x' = Ok bytes"
  unfolding encode_eq_Inr assms(3,4) Inr_inject ex_simps simp_thms
  using same_value_canonicalize [OF assms(1) assms(2)]
    same_value_canonicalize [OF assms(1) same_value_sym [OF assms(2)]]
  by blast

theorem insertion_order_irrelevant_witness:
  "encode (demo_prims []) Ok (VArray [VMap [(VText ''aa'', VNull), (VText ''z'', VBool True)]]) =
   encode (demo_prims []) Ok (VArray [VMap [(VText ''z'', VBool True), (VText ''aa'', VNull)]])"
proof -
  let ?v = "VArray [VMap [(VText ''aa'', VNull), (VText ''z'', VBool True)]]"
  let ?w = "VArray [VMap [(VText ''z'', VBool True), (VText ''aa'', VNull)]]"
  have "canonicalize demo_key_le ?v = Ok ?w" by code_simp
  then obtain bytes where bytes: "encode (demo_prims []) Ok ?v = Ok bytes"
    by (auto simp: encode_eq_Inr)
  have same: "same_value ?v ?w"
    by (intro same_array) (simp add: same_perm)
  have "encode (demo_prims []) Ok ?w = Ok bytes"
    by (rule insertion_order_irrelevant [THEN iffD1, OF _ same _ _ bytes])
      (simp_all add: demo_key_le_preorder)
  with bytes show ?thesis by simp
qed

text \<open>
  Decoding accepts only what encoding writes: if \<open>decode\<close> accepts some bytes as \<open>x\<close>, then
  encoding \<open>x\<close> gives exactly those bytes back, so no logical value has two accepted encodings.
  The hypothesis is serde's: serializing what was deserialized gives the value graph back, up
  to the order of map entries.
\<close>

theorem decode_only_canonical:
  assumes "total_preorder (key_le P)"
    and "\<And>v. de v = Ok x \<Longrightarrow> \<exists>v'. ser x = Ok v' \<and> same_value v v'"
    and "decode P de bytes = Ok x"
  shows "encode P ser x = Ok bytes"
proof -
  obtain v w where w: "canonicalize (key_le P) v = Ok w" "into_writer P w = Ok bytes" "de w = Ok x"
    using assms(3) by (auto simp: decode_eq_Inr)
  obtain v' where v': "ser x = Ok v'" "same_value w v'" using assms(2) w(3) by blast
  have "canonicalize (key_le P) w = Ok w"
    by (rule canonicalize_fixed [OF assms(1) canonicalize_canonical [OF assms(1) w(1)]])
  then have "canonicalize (key_le P) v' = Ok w"
    by (rule same_value_canonicalize [OF assms(1) v'(2)])
  then show ?thesis using v' w by (auto simp: encode_eq_Inr)
qed

theorem decode_only_canonical_witness:
  "let v = VMap [(VText ''z'', VNull), (VText ''aa'', VNull)] in
   encode (demo_prims [v]) Ok v = Ok (demo_write v)"
proof -
  let ?v = "VMap [(VText ''z'', VNull), (VText ''aa'', VNull)]"
  have "decode (demo_prims [?v]) Ok (demo_write ?v) = Ok ?v"
    using canonicalize_fixed [OF demo_key_le_preorder, of ?v]
    by (simp add: decode_eq_Inr demo_read_def demo_key_le_def by_key_def del: canonicalize.simps)
  then show ?thesis
    using decode_only_canonical [of "demo_prims [?v]" Ok ?v Ok "demo_write ?v"] same_refl [of ?v]
    unfolding Let_def demo_prims_simps by (metis Inr_inject demo_key_le_preorder)
qed

text \<open>
  A content hash binds the value: two values with the same content hash have the same
  canonical form, if the writer is injective on the two forms and the hash does not collide on
  the two encodings.
\<close>

theorem content_hash_binding:
  assumes "content_hash P ser x = content_hash P ser' y"
    and "ser x = Ok v" "canonicalize (key_le P) v = Ok v'" "into_writer P v' = Ok b"
    and "ser' y = Ok w" "canonicalize (key_le P) w = Ok w'" "into_writer P w' = Ok c"
    and "inj_on (into_writer P) {v', w'}" "collision_free (digest P) [b, c]"
  shows "v' = w'"
proof -
  have "encode P ser x = Ok b" "encode P ser' y = Ok c"
    unfolding encode_eq_Inr using assms(2-7) by blast+
  then have "digest P b = digest P c"
    using assms(1) by (simp add: content_hash_def hash_bytes_def hasher_simps)
  then have "b = c" using collision_freeD [OF assms(9), of b c] by simp
  then show ?thesis using assms(4,7) inj_onD [OF assms(8), of v' w'] by simp
qed

theorem content_hash_binding_witness:
  "\<not> content_hash (demo_prims []) Ok (VText ''a'') = content_hash (demo_prims []) Ok (VText ''b'')"
proof
  assume eq: "content_hash (demo_prims []) Ok (VText ''a'') =
    content_hash (demo_prims []) Ok (VText ''b'')"
  have free: "collision_free mini_hash [demo_write (VText ''a''), demo_write (VText ''b'')]"
    by (simp add: collision_free_def mini_hash_simps str_bytes_def byte_of_def of_char_def)
  have "demo_write (VText ''a'') \<noteq> demo_write (VText ''b'')" by simp
  then have inj: "inj_on (into_writer (demo_prims [])) {VText ''a'', VText ''b''}"
    by (auto simp: inj_on_def simp del: demo_write.simps)
  have "VText ''a'' = VText ''b''"
    by (rule content_hash_binding [OF eq HOL.refl _ _ HOL.refl, where b = "demo_write (VText ''a'')"
        and c = "demo_write (VText ''b'')"]) (simp_all only: demo_prims_simps canonicalize.simps free inj)
  then show False by simp
qed

end
