(* ===== verification/Event.thy ===== *)
theory Event
  imports Canon
begin

text \<open>
  \<open>crates/ancre-types/src/{risk,pins,time,event}.rs\<close>: the audit event. The enums with their
  frozen wire names, the pin set, what the gateway emits, the chained event, and the body that
  is hashed, field by field in the order of the struct.

  Field names carry a prefix per record (\<open>p_\<close> pins, \<open>m_\<close> metrics, \<open>e_\<close> emitted event, \<open>ae_\<close>
  chained event, \<open>hb_\<close> hashed body). A UUID is its 128 bits, a timestamp its microseconds.
\<close>

section \<open>Enumerations and their wire names\<close>

text \<open>
  What \<open>as_str\<close> and \<open>from_wire\<close> of one type owe each other: reading a written name gives the
  value, and only written names are read.
\<close>

locale wire_codec =
  fixes as_str :: "'a \<Rightarrow> string"
    and from_wire :: "string \<Rightarrow> 'a option"
  assumes read_written: "from_wire (as_str x) = Some x"
    and written_read: "from_wire s = Some x \<Longrightarrow> as_str x = s"
begin

lemma as_str_eq_iff: "as_str x = as_str y \<longleftrightarrow> x = y"
  by (metis option.inject read_written)

lemma from_wire_eq_Some: "from_wire s = Some x \<longleftrightarrow> s = as_str x"
  using read_written written_read by auto

lemma from_wire_eq_None: "from_wire s = None \<longleftrightarrow> s \<notin> range as_str"
  using from_wire_eq_Some by (metis imageE not_None_eq rangeI)

lemma names_read_back: "map (from_wire \<circ> as_str) xs = map Some xs"
  by (simp add: read_written)

lemma mset_names_eq: "mset (map as_str xs) = mset (map as_str ys) \<longleftrightarrow> mset xs = mset ys"
proof -
  have "inj as_str" by (rule injI) (simp add: as_str_eq_iff)
  then show ?thesis by (simp add: multiset.inj_map inj_eq)
qed

end

datatype risk_class = Unclassified | Minimal | Transparency | High

fun risk_class_as_str :: "risk_class \<Rightarrow> string" where
  "risk_class_as_str Unclassified = ''unclassified''"
| "risk_class_as_str Minimal = ''minimal''"
| "risk_class_as_str Transparency = ''transparency''"
| "risk_class_as_str High = ''high''"

definition risk_class_from_wire :: "string \<Rightarrow> risk_class option" where
  "risk_class_from_wire s =
     (if s = ''unclassified'' then Some Unclassified
      else if s = ''minimal'' then Some Minimal
      else if s = ''transparency'' then Some Transparency
      else if s = ''high'' then Some High
      else None)"

fun as_discriminant :: "risk_class \<Rightarrow> 8 word" where
  "as_discriminant Unclassified = 0"
| "as_discriminant Minimal = 1"
| "as_discriminant Transparency = 2"
| "as_discriminant High = 3"

definition from_discriminant :: "8 word \<Rightarrow> risk_class option" where
  "from_discriminant d =
     (if d = 0 then Some Unclassified
      else if d = 1 then Some Minimal
      else if d = 2 then Some Transparency
      else if d = 3 then Some High
      else None)"

fun fails_closed_by_default :: "risk_class \<Rightarrow> bool" where
  "fails_closed_by_default High \<longleftrightarrow> True"
| "fails_closed_by_default _ \<longleftrightarrow> False"

datatype risk_flag = StaleConfig | UnpinnedModel | PinOverridden | NoPolicyEngine | TelemetryDropped | SubstantialCandidate

fun risk_flag_as_str :: "risk_flag \<Rightarrow> string" where
  "risk_flag_as_str StaleConfig = ''stale_config''"
| "risk_flag_as_str UnpinnedModel = ''unpinned_model''"
| "risk_flag_as_str PinOverridden = ''pin_overridden''"
| "risk_flag_as_str NoPolicyEngine = ''no_policy_engine''"
| "risk_flag_as_str TelemetryDropped = ''telemetry_dropped''"
| "risk_flag_as_str SubstantialCandidate = ''substantial_candidate''"

definition risk_flag_from_wire :: "string \<Rightarrow> risk_flag option" where
  "risk_flag_from_wire s =
     (if s = ''stale_config'' then Some StaleConfig
      else if s = ''unpinned_model'' then Some UnpinnedModel
      else if s = ''pin_overridden'' then Some PinOverridden
      else if s = ''no_policy_engine'' then Some NoPolicyEngine
      else if s = ''telemetry_dropped'' then Some TelemetryDropped
      else if s = ''substantial_candidate'' then Some SubstantialCandidate
      else None)"

datatype change_class = Minor | Material | Substantial

fun change_class_as_str :: "change_class \<Rightarrow> string" where
  "change_class_as_str Minor = ''minor''"
| "change_class_as_str Material = ''material''"
| "change_class_as_str Substantial = ''substantial''"

datatype event_type = LlmRequest | ProviderFailover | ConfigGenerationApplied | EvPinOverridden | EvTelemetryDropped | ChainHeartbeat

fun event_type_as_str :: "event_type \<Rightarrow> string" where
  "event_type_as_str LlmRequest = ''llm.request''"
| "event_type_as_str ProviderFailover = ''provider.failover''"
| "event_type_as_str ConfigGenerationApplied = ''config.generation.applied''"
| "event_type_as_str EvPinOverridden = ''pin.overridden''"
| "event_type_as_str EvTelemetryDropped = ''telemetry.dropped''"
| "event_type_as_str ChainHeartbeat = ''chain.heartbeat''"

definition event_type_from_wire :: "string \<Rightarrow> event_type option" where
  "event_type_from_wire s =
     (if s = ''llm.request'' then Some LlmRequest
      else if s = ''provider.failover'' then Some ProviderFailover
      else if s = ''config.generation.applied'' then Some ConfigGenerationApplied
      else if s = ''pin.overridden'' then Some EvPinOverridden
      else if s = ''telemetry.dropped'' then Some EvTelemetryDropped
      else if s = ''chain.heartbeat'' then Some ChainHeartbeat
      else None)"

datatype outcome = OutcomeOk | OutcomeError | OutcomeDenied | OutcomeInterrupted

fun outcome_as_str :: "outcome \<Rightarrow> string" where
  "outcome_as_str OutcomeOk = ''ok''"
| "outcome_as_str OutcomeError = ''error''"
| "outcome_as_str OutcomeDenied = ''denied''"
| "outcome_as_str OutcomeInterrupted = ''interrupted''"

definition outcome_from_wire :: "string \<Rightarrow> outcome option" where
  "outcome_from_wire s =
     (if s = ''ok'' then Some OutcomeOk
      else if s = ''error'' then Some OutcomeError
      else if s = ''denied'' then Some OutcomeDenied
      else if s = ''interrupted'' then Some OutcomeInterrupted
      else None)"

interpretation risk_class_wire: wire_codec risk_class_as_str risk_class_from_wire
proof
  show "risk_class_from_wire (risk_class_as_str x) = Some x" for x
    by (cases x) (simp_all add: risk_class_from_wire_def)
  show "risk_class_from_wire s = Some x \<Longrightarrow> risk_class_as_str x = s" for s x
    by (auto simp: risk_class_from_wire_def split: if_splits)
qed

interpretation risk_flag_wire: wire_codec risk_flag_as_str risk_flag_from_wire
proof
  show "risk_flag_from_wire (risk_flag_as_str x) = Some x" for x
    by (cases x) (simp_all add: risk_flag_from_wire_def)
  show "risk_flag_from_wire s = Some x \<Longrightarrow> risk_flag_as_str x = s" for s x
    by (auto simp: risk_flag_from_wire_def split: if_splits)
qed

interpretation event_type_wire: wire_codec event_type_as_str event_type_from_wire
proof
  show "event_type_from_wire (event_type_as_str x) = Some x" for x
    by (cases x) (simp_all add: event_type_from_wire_def)
  show "event_type_from_wire s = Some x \<Longrightarrow> event_type_as_str x = s" for s x
    by (auto simp: event_type_from_wire_def split: if_splits)
qed

interpretation outcome_wire: wire_codec outcome_as_str outcome_from_wire
proof
  show "outcome_from_wire (outcome_as_str x) = Some x" for x
    by (cases x) (simp_all add: outcome_from_wire_def)
  show "outcome_from_wire s = Some x \<Longrightarrow> outcome_as_str x = s" for s x
    by (auto simp: outcome_from_wire_def split: if_splits)
qed

lemma from_discriminant_eq_Some: "from_discriminant d = Some c \<longleftrightarrow> d = as_discriminant c"
  by (cases c) (auto simp: from_discriminant_def)

text \<open>The derived order of \<open>RiskClass\<close> is the order of its discriminants.\<close>

instantiation risk_class :: linorder
begin

definition less_eq_risk_class :: "risk_class \<Rightarrow> risk_class \<Rightarrow> bool" where
  "less_eq_risk_class a b \<longleftrightarrow> as_discriminant a \<le> as_discriminant b"

definition less_risk_class :: "risk_class \<Rightarrow> risk_class \<Rightarrow> bool" where
  "less_risk_class a b \<longleftrightarrow> as_discriminant a < as_discriminant b"

instance
proof
  fix a b :: risk_class
  assume "a \<le> b" "b \<le> a"
  then have "as_discriminant a = as_discriminant b" by (simp add: less_eq_risk_class_def)
  then show "a = b" by (cases a; cases b) simp_all
qed (auto simp: less_eq_risk_class_def less_risk_class_def)

end

section \<open>Time\<close>

text \<open>
  \<open>Timestamp\<close> is transparent over its microseconds. \<open>now\<close> reads the system clock, which is
  its argument here: the microseconds since the epoch, or none when the clock is before it.
\<close>

type_synonym timestamp = i64

definition timestamp_now :: "nat option \<Rightarrow> timestamp" where
  "timestamp_now since_epoch =
     (let d = (case since_epoch of None \<Rightarrow> 0 | Some us \<Rightarrow> us) in
      if int d \<le> i64_max then int d else i64_max)"

section \<open>Pins\<close>

definition UNKNOWN :: string where
  "UNKNOWN = ''unknown''"

definition UNRESOLVED_PREFIX :: string where
  "UNRESOLVED_PREFIX = ''unresolved:''"

record pins =
  p_config_generation :: u64
  p_config_hash :: hash32
  p_system_id :: string
  p_system_version :: string
  p_ifu_version :: string
  p_model_id :: string
  p_model_version :: string
  p_prompt_id :: string
  p_prompt_version :: string
  p_policy_id :: string
  p_policy_version :: string
  p_gateway_version :: string
  p_risk_class :: risk_class
  p_resolved_stale :: bool
  p_risk_flags :: "risk_flag list"

definition null_baseline :: pins where
  "null_baseline =
     \<lparr>p_config_generation = 0, p_config_hash = GENESIS, p_system_id = UNKNOWN,
      p_system_version = UNKNOWN, p_ifu_version = UNKNOWN, p_model_id = UNKNOWN,
      p_model_version = UNKNOWN, p_prompt_id = UNKNOWN, p_prompt_version = UNKNOWN,
      p_policy_id = UNKNOWN, p_policy_version = UNKNOWN, p_gateway_version = UNKNOWN,
      p_risk_class = Unclassified, p_resolved_stale = False, p_risk_flags = []\<rparr>"

definition gap :: "string \<Rightarrow> risk_flag \<Rightarrow> pins" where
  "gap system_id flag = null_baseline\<lparr>p_system_id := system_id, p_risk_flags := [flag]\<rparr>"

definition has_gap :: "pins \<Rightarrow> bool" where
  "has_gap p \<longleftrightarrow>
     list_ex (\<lambda>v. v = UNKNOWN \<or> starts_with v UNRESOLVED_PREFIX)
       [p_system_version p, p_ifu_version p, p_model_id p, p_model_version p, p_prompt_id p,
        p_prompt_version p, p_policy_id p, p_policy_version p, p_gateway_version p]"

lemma has_gap_null_baseline [simp]: "has_gap null_baseline"
  by (simp add: has_gap_def null_baseline_def)

lemma has_gap_gap [simp]: "has_gap (gap s f)"
  by (simp add: has_gap_def null_baseline_def gap_def)

section \<open>Events\<close>

type_synonym uuid = "128 word"

text \<open>\<open>Uuid::as_bytes\<close>: the 16 bytes, most significant first.\<close>

definition uuid_bytes :: "uuid \<Rightarrow> u8 list" where
  "uuid_bytes u = map (\<lambda>i. ucast (drop_bit (8 * i) u)) (rev [0..<16])"

record metrics =
  m_provider :: string
  m_http_status :: u16
  m_latency_ms :: u32
  m_ttft_ms :: u32
  m_tokens_in :: u32
  m_tokens_out :: u32
  m_error_code :: string

record emitted_event =
  e_tenant_id :: string
  e_system_id :: string
  e_event_id :: uuid
  e_trace_id :: string
  e_attempt_seq :: u16
  e_occurred_at :: timestamp
  e_node_id :: string
  e_event_type :: event_type
  e_outcome :: outcome
  e_pins :: pins
  e_request_digest :: hash32
  e_response_digest :: hash32
  e_metrics :: metrics

record audit_event =
  ae_seq :: u64
  ae_prev_hash :: hash32
  ae_event_hash :: hash32
  ae_canon_version :: string
  ae_ingested_at :: timestamp
  ae_emitted :: emitted_event
  ae_payload_ref :: string
  ae_subject_key_id :: string

section \<open>The hashed body\<close>

record hashed_body =
  hb_tenant_id :: string
  hb_system_id :: string
  hb_seq :: u64
  hb_event_id :: "u8 list"
  hb_trace_id :: string
  hb_attempt_seq :: u16
  hb_prev_hash :: hash32
  hb_canon_version :: string
  hb_occurred_at :: i64
  hb_node_id :: string
  hb_event_type :: string
  hb_outcome :: string
  hb_config_generation :: u64
  hb_config_hash :: hash32
  hb_system_version :: string
  hb_ifu_version :: string
  hb_model_id :: string
  hb_model_version :: string
  hb_prompt_id :: string
  hb_prompt_version :: string
  hb_policy_id :: string
  hb_policy_version :: string
  hb_gateway_version :: string
  hb_risk_class :: string
  hb_resolved_stale :: bool
  hb_risk_flags :: "string list"
  hb_request_digest :: hash32
  hb_response_digest :: hash32
  hb_payload_ref :: string
  hb_subject_key_id :: string
  hb_provider :: string
  hb_http_status :: u16
  hb_latency_ms :: u32
  hb_ttft_ms :: u32
  hb_tokens_in :: u32
  hb_tokens_out :: u32
  hb_error_code :: string

definition hashed_view :: "audit_event \<Rightarrow> hashed_body" where
  "hashed_view ev =
    (let e = ae_emitted ev; p = e_pins e; m = e_metrics e in
     \<lparr>hb_tenant_id = e_tenant_id e,
      hb_system_id = e_system_id e,
      hb_seq = ae_seq ev,
      hb_event_id = uuid_bytes (e_event_id e),
      hb_trace_id = e_trace_id e,
      hb_attempt_seq = e_attempt_seq e,
      hb_prev_hash = ae_prev_hash ev,
      hb_canon_version = ae_canon_version ev,
      hb_occurred_at = e_occurred_at e,
      hb_node_id = e_node_id e,
      hb_event_type = event_type_as_str (e_event_type e),
      hb_outcome = outcome_as_str (e_outcome e),
      hb_config_generation = p_config_generation p,
      hb_config_hash = p_config_hash p,
      hb_system_version = p_system_version p,
      hb_ifu_version = p_ifu_version p,
      hb_model_id = p_model_id p,
      hb_model_version = p_model_version p,
      hb_prompt_id = p_prompt_id p,
      hb_prompt_version = p_prompt_version p,
      hb_policy_id = p_policy_id p,
      hb_policy_version = p_policy_version p,
      hb_gateway_version = p_gateway_version p,
      hb_risk_class = risk_class_as_str (p_risk_class p),
      hb_resolved_stale = p_resolved_stale p,
      hb_risk_flags = sort (map risk_flag_as_str (p_risk_flags p)),
      hb_request_digest = e_request_digest e,
      hb_response_digest = e_response_digest e,
      hb_payload_ref = ae_payload_ref ev,
      hb_subject_key_id = ae_subject_key_id ev,
      hb_provider = m_provider m,
      hb_http_status = m_http_status m,
      hb_latency_ms = m_latency_ms m,
      hb_ttft_ms = m_ttft_ms m,
      hb_tokens_in = m_tokens_in m,
      hb_tokens_out = m_tokens_out m,
      hb_error_code = m_error_code m\<rparr>)"

text \<open>
  The derived serialization of the struct: a map with a text key per field, in declaration
  order. \<open>Bytes\<close> and \<open>Hash32\<close> become byte strings.
\<close>

definition hashed_body_entries :: "hashed_body \<Rightarrow> (cbor \<times> cbor) list" where
  "hashed_body_entries b =
    [(VText ''tenant_id'', VText (hb_tenant_id b)),
     (VText ''system_id'', VText (hb_system_id b)),
     (VText ''seq'', VInteger (uint (hb_seq b))),
     (VText ''event_id'', Bytes (hb_event_id b)),
     (VText ''trace_id'', VText (hb_trace_id b)),
     (VText ''attempt_seq'', VInteger (uint (hb_attempt_seq b))),
     (VText ''prev_hash'', hash_value (hb_prev_hash b)),
     (VText ''canon_version'', VText (hb_canon_version b)),
     (VText ''occurred_at'', VInteger (hb_occurred_at b)),
     (VText ''node_id'', VText (hb_node_id b)),
     (VText ''event_type'', VText (hb_event_type b)),
     (VText ''outcome'', VText (hb_outcome b)),
     (VText ''config_generation'', VInteger (uint (hb_config_generation b))),
     (VText ''config_hash'', hash_value (hb_config_hash b)),
     (VText ''system_version'', VText (hb_system_version b)),
     (VText ''ifu_version'', VText (hb_ifu_version b)),
     (VText ''model_id'', VText (hb_model_id b)),
     (VText ''model_version'', VText (hb_model_version b)),
     (VText ''prompt_id'', VText (hb_prompt_id b)),
     (VText ''prompt_version'', VText (hb_prompt_version b)),
     (VText ''policy_id'', VText (hb_policy_id b)),
     (VText ''policy_version'', VText (hb_policy_version b)),
     (VText ''gateway_version'', VText (hb_gateway_version b)),
     (VText ''risk_class'', VText (hb_risk_class b)),
     (VText ''resolved_stale'', VBool (hb_resolved_stale b)),
     (VText ''risk_flags'', VArray (map VText (hb_risk_flags b))),
     (VText ''request_digest'', hash_value (hb_request_digest b)),
     (VText ''response_digest'', hash_value (hb_response_digest b)),
     (VText ''payload_ref'', VText (hb_payload_ref b)),
     (VText ''subject_key_id'', VText (hb_subject_key_id b)),
     (VText ''provider'', VText (hb_provider b)),
     (VText ''http_status'', VInteger (uint (hb_http_status b))),
     (VText ''latency_ms'', VInteger (uint (hb_latency_ms b))),
     (VText ''ttft_ms'', VInteger (uint (hb_ttft_ms b))),
     (VText ''tokens_in'', VInteger (uint (hb_tokens_in b))),
     (VText ''tokens_out'', VInteger (uint (hb_tokens_out b))),
     (VText ''error_code'', VText (hb_error_code b))]"

definition hashed_body_value :: "hashed_body \<Rightarrow> (cbor, string) result" where
  "hashed_body_value b = Ok (VMap (hashed_body_entries b))"

text \<open>\<open>AuditEvent::hashed_body\<close>.\<close>

definition event_hashed_body :: "canon_prims \<Rightarrow> audit_event \<Rightarrow> (u8 list, canon_error) result" where
  "event_hashed_body P ev = encode P hashed_body_value (hashed_view ev)"

section \<open>Lemmas on the hashed body\<close>

lemma hashed_view_flags:
  assumes "mset flags = mset flags'"
  shows "hashed_view (ev\<lparr>ae_emitted := em\<lparr>e_pins := p\<lparr>p_risk_flags := flags\<rparr>\<rparr>\<rparr>) =
    hashed_view (ev\<lparr>ae_emitted := em\<lparr>e_pins := p\<lparr>p_risk_flags := flags'\<rparr>\<rparr>\<rparr>)"
proof -
  have "sort (map risk_flag_as_str flags) = sort (map risk_flag_as_str flags')"
    using assms by (intro properties_for_sort) simp_all
  then show ?thesis by (simp add: hashed_view_def Let_def)
qed

lemma keyed_lists_eq:
  assumes "map fst es = map fst es'" "distinct (map fst es)" "set es = set es'"
  shows "es = es'"
proof (rule nth_equalityI)
  show len: "length es = length es'" using assms(1) by (metis length_map)
  fix i assume i: "i < length es"
  then obtain j where j: "j < length es'" "es ! i = es' ! j"
    using assms(3) by (metis in_set_conv_nth)
  have "map fst es ! i = map fst es ! j"
    using i j len assms(1) by (metis nth_map)
  then have "i = j"
    using i j(1) len nth_eq_iff_index_eq [OF assms(2), of i j] by simp
  then show "es ! i = es' ! i" using j(2) by simp
qed

lemma hashed_body_keys:
  "map fst (hashed_body_entries b) = map fst (hashed_body_entries c)"
  "distinct (map fst (hashed_body_entries b))"
  by (simp_all add: hashed_body_entries_def)

lemma hashed_body_entries_atomic:
  "e \<in> set (hashed_body_entries b) \<Longrightarrow> canonical_entry le e = Inr e"
proof -
  have "try_map (canonicalize le) (map VText fs) = Inr (map VText fs)" for fs
    by (induction fs) auto
  then show "e \<in> set (hashed_body_entries b) \<Longrightarrow> canonical_entry le e = Inr e"
    unfolding hashed_body_entries_def
    by (auto simp: canonical_entry_def Bytes_def hash_value_def)
qed

text \<open>
  A serialized struct whose fields are in canonical form already: canonicalizing sorts its
  fields and keeps them, so the canonical form determines the fields.
\<close>

lemma struct_canonicalize:
  assumes "\<And>e. e \<in> set es \<Longrightarrow> canonical_entry le e = Inr e" "canonicalize le (VMap es) = Inr w"
  shows "w = VMap (sort_by (entry_le le) es)"
proof -
  have "try_map (canonical_entry le) es = Inr (map id es)"
    by (rule try_map_Inr_map) (simp add: assms(1))
  then show ?thesis using assms(2) unfolding canonicalize_VMap by simp
qed

lemma struct_binding:
  assumes "map fst es = map fst es'" "distinct (map fst es)"
    and "\<And>e. e \<in> set es \<Longrightarrow> canonical_entry le e = Inr e"
    and "\<And>e. e \<in> set es' \<Longrightarrow> canonical_entry le e = Inr e"
    and "canonicalize le (VMap es) = Inr w" "canonicalize le (VMap es') = Inr w"
  shows "es = es'"
proof (rule keyed_lists_eq [OF assms(1,2)])
  have "sort_by (entry_le le) es = sort_by (entry_le le) es'"
    using struct_canonicalize [OF assms(3,5)] struct_canonicalize [OF assms(4,6)] by simp
  then show "set es = set es'" by (metis set_sort_by)
qed

lemma map_VText_eq [simp]: "map VText xs = map VText ys \<longleftrightarrow> xs = ys"
  by (simp add: inj_map_eq_map inj_def)

lemma hashed_body_entries_inj: "hashed_body_entries b = hashed_body_entries c \<Longrightarrow> b = c"
  unfolding hashed_body_entries_def hash_value_def Bytes_def
  by (rule hashed_body.equality) (simp_all add: word_uint_eq_iff)

text \<open>The canonical form of the body determines the body.\<close>

lemma hashed_body_binding:
  assumes "canonicalize le (VMap (hashed_body_entries b)) = Inr w"
    and "canonicalize le (VMap (hashed_body_entries c)) = Inr w"
  shows "b = c"
  by (rule hashed_body_entries_inj)
    (rule struct_binding [OF hashed_body_keys hashed_body_entries_atomic hashed_body_entries_atomic assms])

lemma length_uuid_bytes [simp]: "length (uuid_bytes u) = 16"
  by (simp add: uuid_bytes_def)

lemma uuid_bytes_inj:
  assumes "uuid_bytes u = uuid_bytes v"
  shows "u = v"
proof (rule bit_word_eqI)
  fix n assume "n < LENGTH(128)"
  then have i: "n div 8 < 16" by simp
  have "\<forall>i \<in> set (rev [0..<16]). (ucast (drop_bit (8 * i) u) :: u8) = ucast (drop_bit (8 * i) v)"
    using assms unfolding uuid_bytes_def map_eq_conv .
  then have "(ucast (drop_bit (8 * (n div 8)) u) :: u8) = ucast (drop_bit (8 * (n div 8)) v)"
    using i by (auto simp del: upt_conv_Cons)
  then have "bit (ucast (drop_bit (8 * (n div 8)) u) :: u8) (n mod 8) =
      bit (ucast (drop_bit (8 * (n div 8)) v) :: u8) (n mod 8)"
    by simp
  then show "bit u n = bit v n"
    by (simp add: bit_ucast_iff bit_drop_bit_eq)
qed

end
