(* ===== verification/Chain.thy ===== *)
theory Chain
  imports Event
begin

text \<open>
  \<open>crates/ancre-chain/src/lib.rs\<close> and \<open>verify.rs\<close>: the chain rule, sealing, and the
  verification of a range of events.

  \<open>verify_range\<close> is a walk over the events with four mutable variables; the walk's state is the
  record \<open>walk\<close>, one step of its loop is \<open>verify_step\<close>, and the blocks of the loop's body are
  \<open>position_findings\<close>, \<open>link_findings\<close> and \<open>content_findings\<close>, which return what the block pushes.
\<close>

section \<open>The chain rule\<close>

record chain_id =
  cid_tenant_id :: string
  cid_system_id :: string

definition EVENT_TAG :: "u8 list" where
  "EVENT_TAG = str_bytes ''ancre-event/1''"

definition absorb :: "hasher \<Rightarrow> u8 list \<Rightarrow> hasher" where
  "absorb h field = update (update h (le_bytes32 (u32_or_max (length field)))) field"

datatype chain_error =
    ChainCanon string
  | ChainUnknownCanonVersion string
  | BadSignature
  | BadKey string
  | BadInclusionProof
  | SeqOutOfRange u64 u64 u64
  | LeavesDoNotMatchCheckpoint
  | EmptyRange

definition canon_failed :: "canon_error \<Rightarrow> chain_error" where
  "canon_failed e = ChainCanon (canon_error_to_string e)"

definition event_hash :: "canon_prims \<Rightarrow> audit_event \<Rightarrow> (hash32, chain_error) result" where
  "event_hash P event =
     and_then (map_err canon_failed (event_hashed_body P event)) (\<lambda>body.
       let h = hasher_new;
           h = absorb h EVENT_TAG;
           h = absorb h (str_bytes (ae_canon_version event));
           h = absorb h (as_bytes (ae_prev_hash event));
           h = absorb h body
       in Ok (finalize (digest P) h))"

text \<open>\<open>seal\<close> stamps the event in place and returns the hash: the pair of the two.\<close>

definition seal :: "canon_prims \<Rightarrow> audit_event \<Rightarrow> (hash32 \<times> audit_event, chain_error) result" where
  "seal P event = and_then (event_hash P event) (\<lambda>h. Ok (h, event\<lparr>ae_event_hash := h\<rparr>))"

section \<open>Verification\<close>

datatype violation =
    HashMismatch u64 hash32 hash32
  | BrokenLink u64 hash32 hash32
  | Gap u64 u64
  | Fork u64
  | UnknownRuleSet u64 string
  | Unencodable u64 chain_error

fun violation_seq :: "violation \<Rightarrow> u64" where
  "violation_seq (HashMismatch s _ _) = s"
| "violation_seq (BrokenLink s _ _) = s"
| "violation_seq (Gap after _) = after"
| "violation_seq (Fork s) = s"
| "violation_seq (UnknownRuleSet s _) = s"
| "violation_seq (Unencodable s _) = s"

fun is_verifier_limit :: "violation \<Rightarrow> bool" where
  "is_verifier_limit (UnknownRuleSet _ _) \<longleftrightarrow> True"
| "is_verifier_limit _ \<longleftrightarrow> False"

record chain_report =
  cr_events_checked :: u64
  cr_seq_from :: u64
  cr_seq_to :: u64
  cr_violations :: "violation list"
  cr_head_hash :: hash32
  cr_root_hash :: hash32
  cr_checkpoints_verified :: u32

definition is_clean :: "chain_report \<Rightarrow> bool" where
  "is_clean r \<longleftrightarrow> cr_violations r = []"

definition is_inconclusive :: "chain_report \<Rightarrow> bool" where
  "is_inconclusive r \<longleftrightarrow> cr_violations r \<noteq> [] \<and> list_all is_verifier_limit (cr_violations r)"

record walk =
  w_report :: chain_report
  w_expected :: hash32
  w_last_seq :: "u64 option"
  w_leaves :: "hash32 list"

definition position_findings :: "u64 option \<Rightarrow> u64 \<Rightarrow> violation list" where
  "position_findings last_seq s =
     (case last_seq of None \<Rightarrow> []
      | Some l \<Rightarrow> if s = l then [Fork s] else if s > l + 1 then [Gap l s] else [])"

definition link_findings :: "hash32 \<Rightarrow> audit_event \<Rightarrow> violation list" where
  "link_findings expected event =
     (if ae_prev_hash event \<noteq> expected
      then [BrokenLink (ae_seq event) expected (ae_prev_hash event)] else [])"

definition content_findings :: "canon_prims \<Rightarrow> audit_event \<Rightarrow> violation list" where
  "content_findings P event =
     (if ae_canon_version event = CANON_VERSION then
        (case event_hash P event of
           Inr computed \<Rightarrow>
             if computed \<noteq> ae_event_hash event
             then [HashMismatch (ae_seq event) (ae_event_hash event) computed] else []
         | Inl e \<Rightarrow> [Unencodable (ae_seq event) e])
      else [UnknownRuleSet (ae_seq event) (ae_canon_version event)])"

definition verify_step :: "canon_prims \<Rightarrow> walk \<Rightarrow> audit_event \<Rightarrow> walk" where
  "verify_step P w event =
     (let r = w_report w;
          r = (if cr_events_checked r = 0 then r\<lparr>cr_seq_from := ae_seq event\<rparr> else r);
          r = r\<lparr>cr_seq_to := ae_seq event\<rparr>;
          r = r\<lparr>cr_events_checked := cr_events_checked r + 1\<rparr>;
          r = r\<lparr>cr_violations := cr_violations r @ position_findings (w_last_seq w) (ae_seq event)\<rparr>;
          r = r\<lparr>cr_violations := cr_violations r @ link_findings (w_expected w) event\<rparr>;
          r = r\<lparr>cr_violations := cr_violations r @ content_findings P event\<rparr>;
          r = r\<lparr>cr_head_hash := ae_event_hash event\<rparr>
      in \<lparr>w_report = r, w_expected = ae_event_hash event, w_last_seq = Some (ae_seq event),
          w_leaves = w_leaves w @ [ae_event_hash event]\<rparr>)"

definition verify_range :: "canon_prims \<Rightarrow> audit_event list \<Rightarrow> hash32 \<Rightarrow> chain_report" where
  "verify_range P events expected_prev =
     (let report =
            \<lparr>cr_events_checked = 0, cr_seq_from = 0, cr_seq_to = 0, cr_violations = [],
             cr_head_hash = expected_prev, cr_root_hash = GENESIS, cr_checkpoints_verified = 0\<rparr>;
          w = foldl (verify_step P)
                \<lparr>w_report = report, w_expected = expected_prev, w_last_seq = None, w_leaves = []\<rparr>
                events
      in (w_report w)\<lparr>cr_root_hash := tree_root (digest P) (w_leaves w)\<rparr>)"

section \<open>What a walk reports\<close>

text \<open>
  The specification of the walk: the findings of an event depend on it, on the position of the
  event before it and on the hash that event claims, and on nothing else.
\<close>

definition event_findings ::
    "canon_prims \<Rightarrow> u64 option \<Rightarrow> hash32 \<Rightarrow> audit_event \<Rightarrow> violation list" where
  "event_findings P last_seq expected event =
     position_findings last_seq (ae_seq event) @ link_findings expected event @
     content_findings P event"

primrec findings ::
    "canon_prims \<Rightarrow> u64 option \<Rightarrow> hash32 \<Rightarrow> audit_event list \<Rightarrow> violation list" where
  "findings P last_seq expected [] = []"
| "findings P last_seq expected (e # es) =
     event_findings P last_seq expected e @ findings P (Some (ae_seq e)) (ae_event_hash e) es"

text \<open>The link a range ends on: where the next event has to continue.\<close>

definition last_seq_of :: "u64 option \<Rightarrow> audit_event list \<Rightarrow> u64 option" where
  "last_seq_of l es = (if es = [] then l else Some (ae_seq (last es)))"

definition head_of :: "hash32 \<Rightarrow> audit_event list \<Rightarrow> hash32" where
  "head_of h es = (if es = [] then h else ae_event_hash (last es))"

lemma last_seq_of_simps [simp]:
  "last_seq_of l [] = l" "last_seq_of l (e # es) = last_seq_of (Some (ae_seq e)) es"
  by (simp_all add: last_seq_of_def)

lemma head_of_simps [simp]:
  "head_of h [] = h" "head_of h (e # es) = head_of (ae_event_hash e) es"
  by (simp_all add: head_of_def)

lemma findings_append:
  "findings P l h (xs @ ys) = findings P l h xs @ findings P (last_seq_of l xs) (head_of h xs) ys"
  by (induction xs arbitrary: l h) simp_all

lemma verify_step_simps:
  "cr_violations (w_report (verify_step P w e)) =
    cr_violations (w_report w) @ event_findings P (w_last_seq w) (w_expected w) e"
  "cr_head_hash (w_report (verify_step P w e)) = ae_event_hash e"
  "cr_seq_to (w_report (verify_step P w e)) = ae_seq e"
  "cr_seq_from (w_report (verify_step P w e)) =
    (if cr_events_checked (w_report w) = 0 then ae_seq e else cr_seq_from (w_report w))"
  "cr_events_checked (w_report (verify_step P w e)) = cr_events_checked (w_report w) + 1"
  "w_expected (verify_step P w e) = ae_event_hash e"
  "w_last_seq (verify_step P w e) = Some (ae_seq e)"
  "w_leaves (verify_step P w e) = w_leaves w @ [ae_event_hash e]"
  by (simp_all add: verify_step_def Let_def event_findings_def)

lemma walk_simps:
  "cr_violations (w_report (foldl (verify_step P) w es)) =
    cr_violations (w_report w) @ findings P (w_last_seq w) (w_expected w) es"
  "cr_head_hash (w_report (foldl (verify_step P) w es)) = head_of (cr_head_hash (w_report w)) es"
  "cr_events_checked (w_report (foldl (verify_step P) w es)) =
    cr_events_checked (w_report w) + of_nat (length es)"
  "w_leaves (foldl (verify_step P) w es) = w_leaves w @ map ae_event_hash es"
  "cr_seq_to (w_report (foldl (verify_step P) w es)) =
    (if es = [] then cr_seq_to (w_report w) else ae_seq (last es))"
  by (induction es arbitrary: w) (simp_all add: verify_step_simps)

lemma walk_seq_from:
  "unat (cr_events_checked (w_report w)) + length es < 2 ^ 64 \<Longrightarrow> cr_events_checked (w_report w) \<noteq> 0 \<Longrightarrow>
    cr_seq_from (w_report (foldl (verify_step P) w es)) = cr_seq_from (w_report w)"
proof (induction es arbitrary: w)
  case (Cons e es)
  let ?c = "cr_events_checked (w_report w)"
  have "unat (?c + 1) = unat ?c + 1"
    using Cons.prems(1) by (subst unat_add_lem [THEN iffD1]) simp_all
  then show ?case
    using Cons.IH [of "verify_step P w e"] Cons.prems
    by (simp add: verify_step_simps) (metis Suc_eq_plus1 nat.distinct(1) unat_0)
qed simp

lemma verify_range_simps [simp]:
  "cr_violations (verify_range P es prev) = findings P None prev es"
  "cr_head_hash (verify_range P es prev) = head_of prev es"
  "cr_root_hash (verify_range P es prev) = tree_root (digest P) (map ae_event_hash es)"
  "cr_events_checked (verify_range P es prev) = of_nat (length es)"
  "cr_seq_to (verify_range P es prev) = (if es = [] then 0 else ae_seq (last es))"
  by (simp_all add: verify_range_def Let_def walk_simps)

lemma verify_range_seq_from:
  assumes "length es < 2 ^ 64"
  shows "cr_seq_from (verify_range P es prev) = (if es = [] then 0 else ae_seq (hd es))"
proof (cases es)
  case (Cons e r)
  then show ?thesis
    using assms by (simp add: verify_range_def Let_def walk_seq_from verify_step_simps)
qed (simp add: verify_range_def)

section \<open>Clean ranges\<close>

text \<open>
  What the walk asks of a range, as a recursion on it: each event is in the rule set, is sealed
  with the hash of its contents and continues the hash before it; its position differs from the
  one before it and lies at most one above it. A smaller position passes, so this is weaker
  than "consecutive positions": see \<open>verify_clean_iff\<close> and \<open>fallen_back_accepted\<close> below.
\<close>

primrec chained :: "canon_prims \<Rightarrow> u64 option \<Rightarrow> hash32 \<Rightarrow> audit_event list \<Rightarrow> bool" where
  "chained P l h [] \<longleftrightarrow> True"
| "chained P l h (e # es) \<longleftrightarrow>
     (case l of None \<Rightarrow> True | Some s \<Rightarrow> ae_seq e \<noteq> s \<and> ae_seq e \<le> s + 1) \<and>
     ae_prev_hash e = h \<and> ae_canon_version e = CANON_VERSION \<and>
     event_hash P e = Ok (ae_event_hash e) \<and>
     chained P (Some (ae_seq e)) (ae_event_hash e) es"

lemma position_findings_Nil [simp]:
  "position_findings l s = [] \<longleftrightarrow> (case l of None \<Rightarrow> True | Some t \<Rightarrow> s \<noteq> t \<and> s \<le> t + 1)"
  by (auto simp: position_findings_def split: option.splits)

lemma link_findings_Nil [simp]: "link_findings h e = [] \<longleftrightarrow> ae_prev_hash e = h"
  by (simp add: link_findings_def)

lemma content_findings_Nil [simp]:
  "content_findings P e = [] \<longleftrightarrow>
    ae_canon_version e = CANON_VERSION \<and> event_hash P e = Ok (ae_event_hash e)"
  by (auto simp: content_findings_def split: sum.splits)

lemma findings_Nil: "findings P l h es = [] \<longleftrightarrow> chained P l h es"
  by (induction es arbitrary: l h) (auto simp: event_findings_def)

lemma is_clean_iff: "is_clean (verify_range P es prev) \<longleftrightarrow> chained P None prev es"
  by (simp add: is_clean_def findings_Nil)

lemma chained_append:
  "chained P l h (xs @ ys) \<longleftrightarrow> chained P l h xs \<and> chained P (last_seq_of l xs) (head_of h xs) ys"
  by (induction xs arbitrary: l h) (auto split: option.splits)

lemma chained_in:
  "chained P l h es \<Longrightarrow> e \<in> set es \<Longrightarrow>
    ae_canon_version e = CANON_VERSION \<and> event_hash P e = Ok (ae_event_hash e)"
  by (induction es arbitrary: l h) auto

lemma chained_None: "chained P (Some s) h es \<Longrightarrow> chained P None h es"
  by (cases es) auto

section \<open>Tampering with a clean range\<close>

lemma findings_tampered:
  assumes "chained P l h (xs @ e # ys)"
    and "ae_seq e' = ae_seq e" "ae_prev_hash e' = ae_prev_hash e"
    and "ae_event_hash e' = ae_event_hash e" "ae_canon_version e' = ae_canon_version e"
    and "event_hash P e' = Ok h'" "h' \<noteq> ae_event_hash e"
  shows "findings P l h (xs @ e' # ys) = [HashMismatch (ae_seq e) (ae_event_hash e) h']"
proof -
  have xs: "chained P l h xs"
    and e: "chained P (last_seq_of l xs) (head_of h xs) (e # ys)"
    using assms(1) unfolding chained_append by blast+
  have "event_findings P (last_seq_of l xs) (head_of h xs) e' =
      [HashMismatch (ae_seq e) (ae_event_hash e) h']"
    using e assms(2-7)
    by (auto simp: event_findings_def content_findings_def position_findings_def
        link_findings_def split: option.splits)
  moreover have "findings P (Some (ae_seq e')) (ae_event_hash e') ys = []"
    using e assms(2,4) by (simp add: findings_Nil)
  ultimately show ?thesis using xs [folded findings_Nil] by (simp add: findings_append)
qed

lemma findings_removed:
  assumes "chained P l h (xs @ e # f # ys)" "xs \<noteq> []"
    and "ae_seq e = ae_seq (last xs) + 1" "ae_seq f = ae_seq e + 1" "ae_seq (last xs) < ae_seq e"
      "ae_seq e < ae_seq f" "ae_event_hash e \<noteq> ae_event_hash (last xs)"
  shows "findings P l h (xs @ f # ys) =
    [Gap (ae_seq (last xs)) (ae_seq f),
     BrokenLink (ae_seq f) (ae_event_hash (last xs)) (ae_event_hash e)]"
proof -
  have xs: "findings P l h xs = []"
    and f: "ae_prev_hash f = ae_event_hash e" "content_findings P f = []"
      "findings P (Some (ae_seq f)) (ae_event_hash f) ys = []"
    using assms(1) unfolding chained_append by (auto simp: findings_Nil)
  have "position_findings (Some (ae_seq (last xs))) (ae_seq f) = [Gap (ae_seq (last xs)) (ae_seq f)]"
    using assms(3-6) by (auto simp: position_findings_def)
  then have "event_findings P (last_seq_of l xs) (head_of h xs) f =
    [Gap (ae_seq (last xs)) (ae_seq f),
     BrokenLink (ae_seq f) (ae_event_hash (last xs)) (ae_event_hash e)]"
    using assms(2,7) f by (simp add: event_findings_def last_seq_of_def head_of_def link_findings_def
        del: position_findings_Nil)
  then show ?thesis using xs f(3) by (simp add: findings_append)
qed

section \<open>What an event hash binds\<close>

text \<open>The bytes an event hash is the hash of, and the canonical form that is written into them.\<close>

definition event_input :: "canon_prims \<Rightarrow> audit_event \<Rightarrow> u8 list" where
  "event_input P ev =
     (case event_hashed_body P ev of Inl _ \<Rightarrow> []
      | Inr body \<Rightarrow>
          absorb (absorb (absorb (absorb hasher_new EVENT_TAG) (str_bytes (ae_canon_version ev)))
            (as_bytes (ae_prev_hash ev))) body)"

definition event_form :: "canon_prims \<Rightarrow> audit_event \<Rightarrow> (cbor, canon_error) result" where
  "event_form P ev = canonicalize (key_le P) (VMap (hashed_body_entries (hashed_view ev)))"

text \<open>
  The writer is injective on what the given events are written as, and the hash does not
  collide on their inputs.
\<close>

definition writer_injective :: "canon_prims \<Rightarrow> audit_event list \<Rightarrow> bool" where
  "writer_injective P evs \<longleftrightarrow>
     list_all (\<lambda>e. list_all (\<lambda>f.
       and_then (event_form P e) (\<lambda>v. map_err Encode (into_writer P v)) =
         and_then (event_form P f) (\<lambda>v. map_err Encode (into_writer P v)) \<longrightarrow>
       event_form P e = event_form P f) evs) evs"

lemma event_hashed_body_eq_Inr:
  "event_hashed_body P ev = Inr body \<longleftrightarrow>
    (\<exists>w. event_form P ev = Inr w \<and> into_writer P w = Inr body)"
  by (simp add: event_hashed_body_def encode_eq_Inr hashed_body_value_def event_form_def
      del: canonicalize.simps)

lemma event_hash_conv:
  "event_hash P ev = (case event_hashed_body P ev of Inl e \<Rightarrow> Inl (canon_failed e)
    | Inr body \<Rightarrow> Inr (digest P (event_input P ev)))"
  by (cases "event_hashed_body P ev")
    (simp_all add: event_hash_def event_input_def Let_def finalize_def)

lemma event_hash_eq_Inr:
  "event_hash P ev = Inr h \<longleftrightarrow>
    (\<exists>w body. event_form P ev = Inr w \<and> into_writer P w = Inr body \<and>
      event_hashed_body P ev = Inr body \<and> h = digest P (event_input P ev))"
proof
  assume h: "event_hash P ev = Inr h"
  then obtain body where body: "event_hashed_body P ev = Inr body"
    by (cases "event_hashed_body P ev") (simp_all add: event_hash_conv)
  then show "\<exists>w body. event_form P ev = Inr w \<and> into_writer P w = Inr body \<and>
      event_hashed_body P ev = Inr body \<and> h = digest P (event_input P ev)"
    using h unfolding event_hashed_body_eq_Inr [of P ev body] by (auto simp: event_hash_conv body)
qed (auto simp: event_hash_conv)

lemma absorb_conv: "absorb h f = h @ le_bytes32 (u32_or_max (length f)) @ f"
  by (simp add: absorb_def update_def)

text \<open>The length prefix in front of each field keeps the fields apart.\<close>

lemma absorbed_inj:
  assumes "le_bytes32 (u32_or_max (length f)) @ f @ r = le_bytes32 (u32_or_max (length g)) @ g @ s"
    and "length f < 4294967295" "length g < 4294967295"
  shows "f = g \<and> r = s"
proof -
  have "u32_or_max (length f) = u32_or_max (length g)" "f @ r = g @ s"
    using assms(1) by simp_all
  moreover from this(1) have "length f = length g" by (rule u32_or_max_inj [OF assms(2,3)])
  ultimately show ?thesis by simp
qed

lemma event_input_inj:
  assumes "event_input P e = event_input P f"
    and "event_hashed_body P e = Inr b" "event_hashed_body P f = Inr c"
    and "length (ae_canon_version e) < 4294967295" "length (ae_canon_version f) < 4294967295"
  shows "ae_canon_version e = ae_canon_version f \<and> ae_prev_hash e = ae_prev_hash f \<and> b = c"
proof -
  let ?l = "\<lambda>f. le_bytes32 (u32_or_max (length f))"
  let ?field = "\<lambda>f r. ?l f @ f @ r"
  have eq: "?field (str_bytes (ae_canon_version e)) (?field (as_bytes (ae_prev_hash e)) (?field b [])) =
      ?field (str_bytes (ae_canon_version f)) (?field (as_bytes (ae_prev_hash f)) (?field c []))"
    using assms(1-3) by (simp add: event_input_def absorb_conv hasher_new_def)
  then have v: "ae_canon_version e = ae_canon_version f"
    and r: "?field (as_bytes (ae_prev_hash e)) (?field b []) =
      ?field (as_bytes (ae_prev_hash f)) (?field c [])"
    using absorbed_inj [OF eq] assms(4,5) by simp_all
  have "as_bytes (ae_prev_hash e) = as_bytes (ae_prev_hash f) \<and> ?field b [] = ?field c []"
    by (rule absorbed_inj [OF r]) simp_all
  moreover from this have "b = c" by simp
  ultimately show ?thesis using v by simp
qed

lemma event_hash_binds:
  assumes "event_hash P e = Inr h" "event_hash P f = Inr h"
    and "collision_free (digest P) [event_input P e, event_input P f]"
    and "writer_injective P [e, f]"
    and "length (ae_canon_version e) < 4294967295" "length (ae_canon_version f) < 4294967295"
  shows "hashed_view e = hashed_view f"
proof -
  obtain v b where e: "event_form P e = Inr v" "into_writer P v = Inr b" "event_hashed_body P e = Inr b"
      "h = digest P (event_input P e)"
    using assms(1) unfolding event_hash_eq_Inr by blast
  obtain w c where f: "event_form P f = Inr w" "into_writer P w = Inr c" "event_hashed_body P f = Inr c"
      "h = digest P (event_input P f)"
    using assms(2) unfolding event_hash_eq_Inr by blast
  have "event_input P e = event_input P f"
    using collision_freeD [OF assms(3), of "event_input P e" "event_input P f"] e(4) f(4) by simp
  then have bc: "b = c" using event_input_inj [OF _ e(3) f(3) assms(5,6)] by simp
  have "and_then (event_form P e) (\<lambda>v. map_err Encode (into_writer P v)) =
        and_then (event_form P f) (\<lambda>v. map_err Encode (into_writer P v)) \<longrightarrow>
      event_form P e = event_form P f"
    using assms(4) unfolding writer_injective_def list.pred_inject by blast
  then have "v = w" using e(1,2) f(1,2) bc by simp
  then show ?thesis
    using e(1) f(1) unfolding event_form_def by (intro hashed_body_binding) simp_all
qed

lemma collision_free_sub: "collision_free H ys \<Longrightarrow> set xs \<subseteq> set ys \<Longrightarrow> collision_free H xs"
  by (rule collision_free_mono)

lemma writer_injective_sub: "writer_injective P ys \<Longrightarrow> set xs \<subseteq> set ys \<Longrightarrow> writer_injective P xs"
  unfolding writer_injective_def list_all_iff by blast

lemma length_CANON_VERSION: "length CANON_VERSION < 4294967295"
  by (simp add: CANON_VERSION_def)

text \<open>Two clean ranges with the same head tell the same history, from the end of both backwards.\<close>

lemma history_binding:
  assumes "chained P l h xs" "chained P l' h' ys" "length xs \<le> length ys"
    and "head_of h xs = head_of h' ys"
    and "collision_free (digest P) (map (event_input P) (xs @ ys))" "writer_injective P (xs @ ys)"
  shows "map hashed_view xs = drop (length ys - length xs) (map hashed_view ys)"
  using assms
proof (induction xs arbitrary: ys rule: rev_induct)
  case (snoc x xs)
  then obtain ys' y where ys: "ys = ys' @ [y]" by (cases ys rule: rev_cases) auto
  have x: "event_hash P x = Inr (ae_event_hash x)" "ae_canon_version x = CANON_VERSION"
      "ae_prev_hash x = head_of h xs"
    and y: "event_hash P y = Inr (ae_event_hash y)" "ae_canon_version y = CANON_VERSION"
      "ae_prev_hash y = head_of h' ys'"
    using snoc.prems(1,2) by (simp_all add: ys chained_append)
  have "ae_event_hash x = ae_event_hash y" using snoc.prems(4) by (simp add: ys head_of_def)
  then have view: "hashed_view x = hashed_view y"
    using x y length_CANON_VERSION
    by (intro event_hash_binds [of P x "ae_event_hash x" y] collision_free_sub [OF snoc.prems(5)]
        writer_injective_sub [OF snoc.prems(6)]) (auto simp: ys)
  then have "ae_prev_hash x = ae_prev_hash y"
    by (metis hashed_body.select_convs(7) hashed_view_def)
  then have "head_of h xs = head_of h' ys'" using x y by simp
  then have "map hashed_view xs = drop (length ys' - length xs) (map hashed_view ys')"
    using snoc.prems
    by (intro snoc.IH collision_free_sub [OF snoc.prems(5)] writer_injective_sub [OF snoc.prems(6)])
      (auto simp: ys chained_append)
  then show ?case using view snoc.prems(3) by (simp add: ys)
qed simp

section \<open>A concrete instance for examples\<close>

text \<open>
  The writer keeps two fields of an event body (its position and a pin) and the digest of an
  event is what was written, so that small chains can be evaluated. Everything that is not an
  event is written and hashed as in the instance of the canonical encoder.
\<close>

definition demo_event_write :: "cbor \<Rightarrow> u8 list" where
  "demo_event_write v =
     (case v of
        VMap es \<Rightarrow>
          (case (map_of es (VText ''seq''), map_of es (VText ''config_generation'')) of
             (Some (VInteger s), Some (VInteger g)) \<Rightarrow> [of_int s, of_int g]
           | _ \<Rightarrow> demo_write v)
      | _ \<Rightarrow> demo_write v)"

definition demo_digest :: hash_fn where
  "demo_digest bs = (if take 1 bs = [13] then from_bytes (drop 74 bs) else mini_hash bs)"

definition chain_prims :: canon_prims where
  "chain_prims =
     \<lparr>key_le = demo_key_le, into_writer = (\<lambda>v. Ok (demo_event_write v)),
       from_reader = (\<lambda>_. Err ''syntax''), digest = demo_digest\<rparr>"

definition demo_emitted :: "u64 \<Rightarrow> emitted_event" where
  "demo_emitted g =
     \<lparr>e_tenant_id = ''t'', e_system_id = ''s'', e_event_id = ucast g, e_trace_id = ''r'',
      e_attempt_seq = 0, e_occurred_at = 0, e_node_id = ''n'', e_event_type = LlmRequest,
      e_outcome = OutcomeOk, e_pins = null_baseline\<lparr>p_config_generation := g\<rparr>,
      e_request_digest = GENESIS, e_response_digest = GENESIS,
      e_metrics = \<lparr>m_provider = ''p'', m_http_status = 200, m_latency_ms = 1, m_ttft_ms = 1,
        m_tokens_in = 1, m_tokens_out = 1, m_error_code = []\<rparr>\<rparr>"

definition demo_hash :: "u64 \<Rightarrow> u64 \<Rightarrow> hash32" where
  "demo_hash s g = from_bytes [ucast s, ucast g]"

text \<open>A sealed event at position \<open>s\<close>, telling \<open>g\<close>, after the given hash.\<close>

definition demo_event :: "u64 \<Rightarrow> u64 \<Rightarrow> hash32 \<Rightarrow> audit_event" where
  "demo_event s g prev =
     \<lparr>ae_seq = s, ae_prev_hash = prev, ae_event_hash = demo_hash s g,
      ae_canon_version = CANON_VERSION, ae_ingested_at = 0, ae_emitted = demo_emitted g,
      ae_payload_ref = [], ae_subject_key_id = []\<rparr>"

lemma chain_prims_simps [simp]:
  "key_le chain_prims = demo_key_le" "into_writer chain_prims v = Inr (demo_event_write v)"
  "digest chain_prims = demo_digest"
  by (simp_all add: chain_prims_def)

lemma demo_event_simps [simp]:
  "ae_seq (demo_event s g prev) = s" "ae_prev_hash (demo_event s g prev) = prev"
  "ae_event_hash (demo_event s g prev) = demo_hash s g"
  "ae_canon_version (demo_event s g prev) = CANON_VERSION"
  "ae_emitted (demo_event s g prev) = demo_emitted g"
  by (simp_all add: demo_event_def)

lemma text_keys_sorted:
  assumes "distinct (map fst es)" "list_all (\<lambda>k. case k of VText _ \<Rightarrow> True | _ \<Rightarrow> False) (map fst es)"
  shows "\<not> windows_any (\<lambda>a b. key_eq demo_key_le (fst a) (fst b)) (sort_by (entry_le demo_key_le) es)"
proof
  let ?s = "sort_by (entry_le demo_key_le) es"
  assume "windows_any (\<lambda>a b. key_eq demo_key_le (fst a) (fst b)) ?s"
  then obtain i where i: "Suc i < length ?s" "key_eq demo_key_le (fst (?s ! i)) (fst (?s ! Suc i))"
    unfolding windows_any_conv by blast
  have "mset (map fst ?s) = mset (map fst es)" by simp
  then have d: "distinct (map fst ?s)" using assms(1) by (metis mset_eq_imp_distinct_iff)
  have is_text: "\<exists>t. fst e = VText t" if e: "e \<in> set ?s" for e
  proof -
    have "fst e \<in> set (map fst es)" using e by simp
    then have "case fst e of VText _ \<Rightarrow> True | _ \<Rightarrow> False" using assms(2) by (simp only: list_all_iff)
    then show ?thesis by (cases "fst e") simp_all
  qed
  have "?s ! i \<in> set ?s" "?s ! Suc i \<in> set ?s" using i(1) by (intro nth_mem; simp)+
  then obtain t u where tu: "fst (?s ! i) = VText t" "fst (?s ! Suc i) = VText u"
    using is_text by blast
  have tu_eq: "t = u"
  proof -
    have "demo_key (VText t) = demo_key (VText u)"
      using i(2) tu unfolding key_eq_def demo_key_le_def by_key_def by (intro antisym) simp_all
    then show ?thesis by (simp add: inj_map_eq_map inj_def)
  qed
  then have "map fst ?s ! i = map fst ?s ! Suc i" using tu tu_eq i(1) by simp
  then show False using d i(1) nth_eq_iff_index_eq [OF d, of i "Suc i"] by simp
qed

lemma hashed_body_keys_text:
  "list_all (\<lambda>k. case k of VText _ \<Rightarrow> True | _ \<Rightarrow> False) (map fst (hashed_body_entries b))"
  by (simp add: hashed_body_entries_def)

lemma demo_body_canonicalize:
  "canonicalize demo_key_le (VMap (hashed_body_entries b)) =
    Inr (VMap (sort_by (entry_le demo_key_le) (hashed_body_entries b)))"
proof -
  have "try_map (canonical_entry demo_key_le) (hashed_body_entries b) =
      Inr (map id (hashed_body_entries b))"
    by (rule try_map_Inr_map) (simp add: hashed_body_entries_atomic)
  then show ?thesis
    using text_keys_sorted [OF hashed_body_keys(2) hashed_body_keys_text]
    unfolding canonicalize_VMap by simp
qed

lemma map_of_sort_by:
  assumes "distinct (map fst es)"
  shows "map_of (sort_by le es) = map_of es"
proof (rule map_of_inject_set [THEN iffD2])
  have "mset (map fst (sort_by le es)) = mset (map fst es)" by simp
  then show "distinct (map fst (sort_by le es))" using assms by (metis mset_eq_imp_distinct_iff)
qed (use assms in simp_all)

lemma demo_event_write_body:
  "demo_event_write (VMap (sort_by le (hashed_body_entries b))) =
    [ucast (hb_seq b), ucast (hb_config_generation b)]"
proof -
  have "map_of (hashed_body_entries b) (VText ''seq'') = Some (VInteger (uint (hb_seq b)))"
    "map_of (hashed_body_entries b) (VText ''config_generation'') =
      Some (VInteger (uint (hb_config_generation b)))"
    by (simp_all add: hashed_body_entries_def)
  then show ?thesis
    by (simp add: demo_event_write_def map_of_sort_by [OF hashed_body_keys(2)] word_of_int_uint
        flip: unsigned_ucast_eq)
qed

lemma demo_form:
  "event_form chain_prims ev =
    Inr (VMap (sort_by (entry_le demo_key_le) (hashed_body_entries (hashed_view ev))))"
  by (simp add: event_form_def demo_body_canonicalize del: canonicalize.simps)

lemma demo_event_hash:
  assumes "ae_canon_version ev = CANON_VERSION"
  shows "event_hash chain_prims ev =
    Inr (demo_hash (ae_seq ev) (p_config_generation (e_pins (ae_emitted ev))))"
proof -
  let ?body = "[ucast (ae_seq ev), ucast (p_config_generation (e_pins (ae_emitted ev)))] :: u8 list"
  have body: "event_hashed_body chain_prims ev = Inr ?body"
    unfolding event_hashed_body_eq_Inr demo_form
    by (simp add: demo_event_write_body) (simp add: hashed_view_def Let_def)
  have "le_bytes32 (u32_or_max 13) ! 0 = 13" "length (le_bytes32 (u32_or_max 13)) = 4"
    by (simp_all add: le_bytes32_def u32_or_max_def)
  then have head: "take 1 (event_input chain_prims ev) = [13]"
    by (simp add: event_input_def body absorb_conv hasher_new_def EVENT_TAG_def le_bytes32_def
        u32_or_max_def)
  have "drop 74 (event_input chain_prims ev) = ?body"
    using assms by (simp add: event_input_def body absorb_conv hasher_new_def EVENT_TAG_def
        CANON_VERSION_def)
  then show ?thesis using head by (simp add: event_hash_conv body demo_digest_def demo_hash_def)
qed

lemma demo_event_sealed [simp]:
  "event_hash chain_prims (demo_event s g prev) = Inr (demo_hash s g)"
  by (simp add: demo_event_hash demo_emitted_def)

lemma demo_hash_eq_iff: "demo_hash s g = demo_hash s' g' \<longleftrightarrow>
    ucast s = (ucast s' :: u8) \<and> ucast g = (ucast g' :: u8)"
  by (simp add: demo_hash_def from_bytes_eq_iff)

lemma demo_event_digest [simp]:
  "demo_digest (event_input chain_prims (demo_event s g prev)) = demo_hash s g"
  using demo_event_sealed [of s g prev]
  by (cases "event_hashed_body chain_prims (demo_event s g prev)") (simp_all add: event_hash_conv)

lemma word_le_inc: "a < b \<Longrightarrow> b < - 1 \<Longrightarrow> a \<le> b + 1" for a b :: "'a::len word"
proof -
  assume a: "a < b" "b < - 1"
  then have "1 + b \<noteq> 0" by (metis add.commute eq_neg_iff_add_eq_0 less_irrefl)
  then have "unat (b + 1) = Suc (unat b)" by (metis add.commute unatSuc)
  then show "a \<le> b + 1" using a(1) by (simp add: word_le_nat_alt word_less_nat_alt)
qed

section \<open>Properties\<close>

lemma chained_nth:
  "chained P l h es \<longleftrightarrow>
    (\<forall>i < length es. ae_canon_version (es ! i) = CANON_VERSION \<and>
       event_hash P (es ! i) = Ok (ae_event_hash (es ! i)) \<and>
       ae_prev_hash (es ! i) = (if i = 0 then h else ae_event_hash (es ! (i - 1)))) \<and>
    (\<forall>i < length es. case (if i = 0 then l else Some (ae_seq (es ! (i - 1)))) of
       None \<Rightarrow> True | Some s \<Rightarrow> ae_seq (es ! i) \<noteq> s \<and> ae_seq (es ! i) \<le> s + 1)"
proof (induction es arbitrary: l h)
  case (Cons e es)
  have "(if i = 0 then Some (ae_seq e) else Some (ae_seq (es ! (i - 1)))) =
      Some (ae_seq ((e # es) ! i))"
    "(if i = 0 then ae_event_hash e else ae_event_hash (es ! (i - 1))) =
      ae_event_hash ((e # es) ! i)" for i
    by (simp_all add: nth_Cons')
  then show ?case by (auto simp: Cons.IH All_less_Suc2 split: option.split)
qed simp

lemma unat_succ: "a \<noteq> - 1 \<Longrightarrow> unat (a + 1) = Suc (unat a)" for a :: "'a::len word"
  by (metis add.commute eq_neg_iff_add_eq_0 unatSuc)

text \<open>A position that is not the last one and at most one above it: the next one, or an earlier one.\<close>

lemma next_position_iff:
  "s \<noteq> l \<and> s \<le> l + 1 \<longleftrightarrow> s = l + 1 \<or> s < l \<and> l \<noteq> - 1" for s l :: "'a::len word"
proof (cases "l = - 1")
  case False
  then have "unat (l + 1) = Suc (unat l)" by (rule unat_succ)
  then show ?thesis using False
    by (auto simp: word_le_nat_alt word_less_nat_alt word_unat_eq_iff)
qed auto

lemma clean_positions_iff:
  "(\<forall>i < length es. case (if i = 0 then None else Some (ae_seq (es ! (i - 1)))) of
      None \<Rightarrow> True | Some s \<Rightarrow> ae_seq (es ! i) \<noteq> s \<and> ae_seq (es ! i) \<le> s + 1) \<longleftrightarrow>
   (\<forall>i. Suc i < length es \<longrightarrow>
      ae_seq (es ! Suc i) = ae_seq (es ! i) + 1 \<or>
      ae_seq (es ! Suc i) < ae_seq (es ! i) \<and> ae_seq (es ! i) \<noteq> - 1)"
  unfolding next_position_iff by (cases es) (simp_all add: All_less_Suc2)

lemma rising_positions:
  fixes f :: "nat \<Rightarrow> 'a::len word"
  assumes "\<And>i. Suc i < n \<Longrightarrow> f i \<le> f (Suc i)"
    and "\<And>i. Suc i < n \<Longrightarrow> f (Suc i) = f i + 1 \<or> f (Suc i) < f i"
  shows "i < n \<Longrightarrow> unat (f i) = unat (f 0) + i"
proof (induction i)
  case (Suc i)
  then have "f (Suc i) = f i + 1" "f i \<le> f (Suc i)" using assms [of i] by (auto simp: not_less)
  moreover from this have "f i \<noteq> - 1" by auto
  ultimately have "unat (f (Suc i)) = Suc (unat (f i))" by (simp add: unat_succ)
  then show ?case using Suc by simp
qed simp

text \<open>
  C1. \<open>verify_range\<close> reports no violation exactly when every event of the range is of the
  current rule set, is sealed with the hash of its contents and carries the hash of the event
  before it (the first one \<open>expected_prev\<close>), and every position is the one after the position
  before it, or an earlier one. So a clean range skips no position going up; where its positions
  never fall they are consecutive. A position that falls back is not reported, although the
  documentation of \<open>Fork\<close> says "\<open>seq\<close> did not advance". The head and the root returned are
  those of the claimed hashes.
\<close>

theorem verify_clean_iff:
  "(is_clean (verify_range P events expected_prev) \<longleftrightarrow>
     (\<forall>i < length events. ae_canon_version (events ! i) = CANON_VERSION \<and>
        event_hash P (events ! i) = Ok (ae_event_hash (events ! i)) \<and>
        ae_prev_hash (events ! i) =
          (if i = 0 then expected_prev else ae_event_hash (events ! (i - 1)))) \<and>
     (\<forall>i. Suc i < length events \<longrightarrow>
        ae_seq (events ! Suc i) = ae_seq (events ! i) + 1 \<or>
        ae_seq (events ! Suc i) < ae_seq (events ! i) \<and> ae_seq (events ! i) \<noteq> - 1)) \<and>
   (is_clean (verify_range P events expected_prev) \<and> sorted (map ae_seq events) \<longrightarrow>
     (\<forall>i < length events. unat (ae_seq (events ! i)) = unat (ae_seq (events ! 0)) + i)) \<and>
   cr_head_hash (verify_range P events expected_prev) =
     (if events = [] then expected_prev else ae_event_hash (last events)) \<and>
   cr_root_hash (verify_range P events expected_prev) =
     tree_root (digest P) (map ae_event_hash events)"
proof -
  note iff = is_clean_iff [of P events expected_prev] chained_nth [of P None expected_prev events]
    clean_positions_iff [of events]
  have "unat (ae_seq (events ! i)) = unat (ae_seq (events ! 0)) + i"
    if clean: "is_clean (verify_range P events expected_prev)"
      and up: "sorted (map ae_seq events)" and i: "i < length events" for i
  proof (rule rising_positions [OF _ _ i, of "\<lambda>i. ae_seq (events ! i)"])
    show "ae_seq (events ! i) \<le> ae_seq (events ! Suc i)" if "Suc i < length events" for i
      using up that by (simp add: sorted_iff_nth_Suc)
    show "ae_seq (events ! Suc i) = ae_seq (events ! i) + 1 \<or> ae_seq (events ! Suc i) < ae_seq (events ! i)"
      if "Suc i < length events" for i
      using clean that unfolding iff by blast
  qed
  then show ?thesis unfolding iff by (simp add: head_of_def)
qed

theorem verify_clean_iff_witness:
  "let a = demo_event 3 1 GENESIS; e = demo_event 4 6 (demo_hash 3 1) in
   is_clean (verify_range chain_prims [a, e] GENESIS) \<and> unat (ae_seq e) = unat (ae_seq a) + 1"
  using verify_clean_iff
    [of chain_prims "[demo_event 3 1 GENESIS, demo_event 4 6 (demo_hash 3 1)]" GENESIS]
  by (simp add: is_clean_iff All_less_Suc2)

text \<open>
  The positions 1, 2, 1 verify: nothing is reported of a third event that continues the hash
  chain and claims a position already taken.
\<close>

lemma fallen_back_accepted:
  "is_clean (verify_range chain_prims
     [demo_event 1 1 GENESIS, demo_event 2 6 (demo_hash 1 1), demo_event 1 5 (demo_hash 2 6)] GENESIS)"
  by (simp add: is_clean_iff)

text \<open>
  Verification in chunks: verifying a range is verifying its front, then verifying the rest
  from the head the front ended on. The one thing the two runs do not see between them is the
  position of the first event of the rest against the last one of the front.
\<close>

theorem verify_chunks:
  "cr_violations (verify_range P (xs @ y # ys) prev) =
     cr_violations (verify_range P xs prev) @
     position_findings (last_seq_of None xs) (ae_seq y) @
     cr_violations (verify_range P (y # ys) (cr_head_hash (verify_range P xs prev)))"
  by (simp add: findings_append event_findings_def position_findings_def [of None])

text \<open>
  One altered event is one finding: if the contents of one event of a clean range are
  changed and its claimed position, link, hash and rule set are not, verification reports that
  event's hash mismatch, naming both hashes, and nothing else.
\<close>

theorem one_alteration_one_finding:
  assumes "is_clean (verify_range P (xs @ e # ys) prev)"
    and "ae_seq e' = ae_seq e" "ae_prev_hash e' = ae_prev_hash e"
    and "ae_event_hash e' = ae_event_hash e" "ae_canon_version e' = ae_canon_version e"
    and "event_hash P e' = Ok h'" "h' \<noteq> ae_event_hash e"
  shows "cr_violations (verify_range P (xs @ e' # ys) prev) =
    [HashMismatch (ae_seq e) (ae_event_hash e) h']"
  using findings_tampered [of P None prev xs e ys e' h'] assms by (simp add: is_clean_iff)

theorem one_alteration_one_finding_witness:
  "let a = demo_event 0 7 GENESIS; b = demo_event 1 8 (demo_hash 0 7);
       b' = b\<lparr>ae_emitted := demo_emitted 9\<rparr> in
   cr_violations (verify_range chain_prims [a, b'] GENESIS) =
     [HashMismatch 1 (demo_hash 1 8) (demo_hash 1 9)]"
proof -
  let ?a = "demo_event 0 7 GENESIS" and ?b = "demo_event 1 8 (demo_hash 0 7)"
  let ?b' = "?b\<lparr>ae_emitted := demo_emitted 9\<rparr>"
  have "is_clean (verify_range chain_prims ([?a] @ ?b # []) GENESIS)" by (simp add: is_clean_iff)
  moreover have "event_hash chain_prims ?b' = Ok (demo_hash 1 9)"
    by (simp add: demo_event_hash demo_emitted_def)
  moreover have "demo_hash 1 9 \<noteq> ae_event_hash ?b" by (simp add: demo_hash_eq_iff)
  ultimately show ?thesis
    using one_alteration_one_finding [of chain_prims "[?a]" ?b "[]" GENESIS ?b' "demo_hash 1 9"]
    by simp
qed

text \<open>
  A removed event is reported where it is missing: dropping an inner event of a clean range
  whose positions are consecutive leaves exactly a gap naming the two positions around it and a
  broken link at its successor.
\<close>

theorem removal_detected:
  assumes "is_clean (verify_range P (xs @ e # f # ys) prev)" "xs \<noteq> []"
    and "ae_seq e = ae_seq (last xs) + 1" "ae_seq f = ae_seq e + 1"
    and "ae_seq (last xs) < ae_seq e" "ae_seq e < ae_seq f"
    and "ae_event_hash e \<noteq> ae_event_hash (last xs)"
  shows "cr_violations (verify_range P (xs @ f # ys) prev) =
    [Gap (ae_seq (last xs)) (ae_seq f),
     BrokenLink (ae_seq f) (ae_event_hash (last xs)) (ae_event_hash e)]"
  using findings_removed [of P None prev xs e f ys] assms by (simp add: is_clean_iff)

theorem removal_detected_witness:
  "cr_violations (verify_range chain_prims
     [demo_event 3 1 GENESIS, demo_event 5 2 (demo_hash 4 6)] GENESIS) =
   [Gap 3 5, BrokenLink 5 (demo_hash 3 1) (demo_hash 4 6)]"
proof -
  let ?a = "demo_event 3 1 GENESIS" and ?e = "demo_event 4 6 (demo_hash 3 1)"
    and ?f = "demo_event 5 2 (demo_hash 4 6)"
  have "is_clean (verify_range chain_prims ([?a] @ ?e # ?f # []) GENESIS)"
    by (simp add: is_clean_iff)
  moreover have "demo_hash 4 6 \<noteq> demo_hash 3 1" by (simp add: demo_hash_eq_iff)
  ultimately show ?thesis
    using removal_detected [of chain_prims "[?a]" ?e ?f "[]" GENESIS] by simp
qed

text \<open>
  C3. An event hash binds everything that is hashed, and nothing more: two events have the
  same hash exactly when their hashed views agree, if the writer is injective on the two
  canonical forms and the hash does not collide on the two inputs. The order in which risk
  flags were collected is not part of the view.
\<close>

theorem event_hash_binding:
  assumes "event_hash P e = Ok h" "event_hash P f = Ok h'"
    and "collision_free (digest P) [event_input P e, event_input P f]" "writer_injective P [e, f]"
    and "length (ae_canon_version e) < 4294967295" "length (ae_canon_version f) < 4294967295"
  shows "h = h' \<longleftrightarrow> hashed_view e = hashed_view f"
proof
  assume "hashed_view e = hashed_view f"
  moreover from this have "ae_canon_version e = ae_canon_version f" "ae_prev_hash e = ae_prev_hash f"
    by (metis hashed_body.select_convs(7,8) hashed_view_def)+
  ultimately have "event_hash P e = event_hash P f"
    by (simp add: event_hash_def event_hashed_body_def)
  then show "h = h'" using assms(1,2) by simp
qed (use assms event_hash_binds in blast)

theorem event_hash_binding_witness:
  "\<not> hashed_view (demo_event 1 8 GENESIS) = hashed_view (demo_event 1 9 GENESIS)"
proof -
  let ?e = "demo_event 1 8 GENESIS" and ?f = "demo_event 1 9 GENESIS"
  have "collision_free (digest chain_prims) [event_input chain_prims ?e, event_input chain_prims ?f]"
    by (simp add: collision_free_def demo_hash_eq_iff)
  moreover have "writer_injective chain_prims [?e, ?f]"
    by (simp add: writer_injective_def demo_form demo_event_write_body)
      (simp add: hashed_view_def Let_def demo_emitted_def)
  ultimately have "demo_hash 1 8 = demo_hash 1 9 \<longleftrightarrow> hashed_view ?e = hashed_view ?f"
    by (intro event_hash_binding [OF demo_event_sealed demo_event_sealed])
      (simp_all add: length_CANON_VERSION)
  then show ?thesis by (simp add: demo_hash_eq_iff)
qed

text \<open>
  C2. A head hash commits to the history: two clean ranges that end on the same hash, wherever
  they start, hold the same hashed contents position by position from the end backwards, for as
  long as the shorter one lasts (same writer and collision hypotheses).
\<close>

theorem head_commits_to_history:
  assumes "is_clean (verify_range P xs prev)" "is_clean (verify_range P ys prev')"
    and "length xs \<le> length ys"
    and "cr_head_hash (verify_range P xs prev) = cr_head_hash (verify_range P ys prev')"
    and "collision_free (digest P) (map (event_input P) (xs @ ys))" "writer_injective P (xs @ ys)"
  shows "map hashed_view xs = drop (length ys - length xs) (map hashed_view ys)"
  using history_binding [of P None prev xs None prev' ys] assms by (simp add: is_clean_iff)

theorem head_commits_to_history_witness:
  "map hashed_view [demo_event 4 6 (demo_hash 3 1)] =
   drop 1 (map hashed_view [demo_event 3 1 GENESIS, demo_event 4 6 (demo_hash 3 1)])"
proof -
  let ?a = "demo_event 3 1 GENESIS" and ?e = "demo_event 4 6 (demo_hash 3 1)"
  have free: "collision_free (digest chain_prims) (map (event_input chain_prims) ([?e] @ [?a, ?e]))"
    by (simp add: collision_free_def demo_hash_eq_iff)
  have inj: "writer_injective chain_prims ([?e] @ [?a, ?e])"
    by (simp add: writer_injective_def demo_form demo_event_write_body)
      (simp add: hashed_view_def Let_def demo_emitted_def)
  show ?thesis
    using head_commits_to_history [of chain_prims "[?e]" "demo_hash 3 1" "[?a, ?e]" GENESIS] free inj
    by (simp add: is_clean_iff head_of_def)
qed

text \<open>
  What \<open>verify_range\<close> does not report: an event that continues a clean range by its hash but
  claims an earlier position than the event before it. (The documentation of \<open>Fork\<close> says
  "\<open>seq\<close> did not advance"; the check is equality with the last position only.)
\<close>

theorem backward_position_accepted:
  assumes "is_clean (verify_range P es prev)" "es \<noteq> []"
    and "ae_seq e < ae_seq (last es)" "ae_prev_hash e = ae_event_hash (last es)"
    and "ae_canon_version e = CANON_VERSION" "event_hash P e = Ok (ae_event_hash e)"
    and "ae_seq (last es) < - 1"
  shows "is_clean (verify_range P (es @ [e]) prev)"
proof -
  have "ae_seq e \<le> ae_seq (last es) + 1" by (rule word_le_inc [OF assms(3,7)])
  then show ?thesis
    using assms by (auto simp: is_clean_iff chained_append last_seq_of_def head_of_def)
qed

theorem backward_position_accepted_witness:
  "is_clean (verify_range chain_prims
     ([demo_event 8 1 GENESIS] @ [demo_event 2 5 (demo_hash 8 1)]) GENESIS)"
  by (rule backward_position_accepted) (simp_all add: is_clean_iff)

end
