(* ===== verification/Checkpoint.thy ===== *)
theory Checkpoint
  imports Chain
begin

text \<open>
  \<open>crates/ancre-chain/src/checkpoint.rs\<close>: signed checkpoints over ranges of events, and
  inclusion proofs against them.

  ed25519 is not code of the repository: the record \<open>ed25519\<close> holds what is called of it. A
  64-byte signature and a 32-byte public key are the lists of their bytes.
\<close>

section \<open>Data\<close>

record ed25519 =
  ed_public_key :: "u8 list \<Rightarrow> u8 list"
  ed_sign :: "u8 list \<Rightarrow> u8 list \<Rightarrow> u8 list"
  ed_read_key :: "u8 list \<Rightarrow> (unit, string) result"
  ed_verify :: "u8 list \<Rightarrow> u8 list \<Rightarrow> u8 list \<Rightarrow> bool"

type_synonym verifying_key_bytes = "u8 list"
type_synonym signature_bytes = "u8 list"

text \<open>The two visitors of a signature: 64 bytes, or hex through the \<open>hex\<close> crate.\<close>

definition signature_visit_bytes :: "u8 list \<Rightarrow> (signature_bytes, visit_error) result" where
  "signature_visit_bytes v = (if length v = 64 then Ok v else Err (InvalidLength (length v)))"

record checkpoint_body =
  cb_tenant_id :: string
  cb_system_id :: string
  cb_seq_from :: u64
  cb_seq_to :: u64
  cb_root_hash :: hash32
  cb_built_at :: timestamp
  cb_canon_version :: string

definition tree_size :: "checkpoint_body \<Rightarrow> usize" where
  "tree_size b = unat (saturating_sub (cb_seq_to b) (cb_seq_from b) + 1)"

definition index_of :: "checkpoint_body \<Rightarrow> u64 \<Rightarrow> usize option" where
  "index_of b seq =
     (if seq \<ge> cb_seq_from b \<and> seq \<le> cb_seq_to b then Some (unat (seq - cb_seq_from b)) else None)"

record checkpoint =
  cp_body :: checkpoint_body
  cp_signature :: signature_bytes
  cp_key_id :: string

record inclusion_proof =
  ip_seq :: u64
  ip_event_hash :: hash32
  ip_path :: "hash32 list"

record checkpoint_signer =
  cs_key :: "u8 list"
  cs_key_id :: string

section \<open>Signing\<close>

definition CHECKPOINT_TAG :: "u8 list" where
  "CHECKPOINT_TAG = str_bytes ''ancre-checkpoint/1''"

definition checkpoint_body_value :: "checkpoint_body \<Rightarrow> (cbor, string) result" where
  "checkpoint_body_value b =
     Ok (VMap
       [(VText ''tenant_id'', VText (cb_tenant_id b)),
        (VText ''system_id'', VText (cb_system_id b)),
        (VText ''seq_from'', VInteger (uint (cb_seq_from b))),
        (VText ''seq_to'', VInteger (uint (cb_seq_to b))),
        (VText ''root_hash'', hash_value (cb_root_hash b)),
        (VText ''built_at'', VInteger (cb_built_at b)),
        (VText ''canon_version'', VText (cb_canon_version b))])"

definition signing_payload :: "canon_prims \<Rightarrow> checkpoint_body \<Rightarrow> (u8 list, chain_error) result" where
  "signing_payload P body =
     and_then (map_err canon_failed (encode P checkpoint_body_value body)) (\<lambda>encoded.
       let h = absorb (absorb hasher_new CHECKPOINT_TAG) encoded
       in Ok (as_bytes (finalize (digest P) h)))"

definition signer_from_bytes :: "u8 list \<Rightarrow> string \<Rightarrow> checkpoint_signer" where
  "signer_from_bytes secret key_id = \<lparr>cs_key = secret, cs_key_id = key_id\<rparr>"

definition sign ::
    "canon_prims \<Rightarrow> ed25519 \<Rightarrow> checkpoint_signer \<Rightarrow> checkpoint_body \<Rightarrow> (checkpoint, chain_error) result"
where
  "sign P E s body =
     and_then (signing_payload P body) (\<lambda>payload.
       Ok \<lparr>cp_body = body, cp_signature = ed_sign E (cs_key s) payload, cp_key_id = cs_key_id s\<rparr>)"

text \<open>\<open>seal_range\<close>, the clock's value at \<open>Timestamp::now()\<close> being the last argument.\<close>

definition seal_range ::
    "canon_prims \<Rightarrow> ed25519 \<Rightarrow> checkpoint_signer \<Rightarrow> string \<Rightarrow> string \<Rightarrow> u64 \<Rightarrow> hash32 list \<Rightarrow> timestamp \<Rightarrow>
      (checkpoint, chain_error) result" where
  "seal_range P E s tenant_id system_id seq_from leaves now =
     (if leaves = [] then Err EmptyRange
      else sign P E s
        \<lparr>cb_tenant_id = tenant_id, cb_system_id = system_id, cb_seq_from = seq_from,
         cb_seq_to = seq_from + of_nat (length leaves) - 1,
         cb_root_hash = tree_root (digest P) leaves, cb_built_at = now,
         cb_canon_version = CANON_VERSION\<rparr>)"

definition verifying_key :: "ed25519 \<Rightarrow> checkpoint_signer \<Rightarrow> verifying_key_bytes" where
  "verifying_key E s = ed_public_key E (cs_key s)"

definition verify_checkpoint ::
    "canon_prims \<Rightarrow> ed25519 \<Rightarrow> checkpoint \<Rightarrow> verifying_key_bytes \<Rightarrow> (unit, chain_error) result" where
  "verify_checkpoint P E cp key =
     and_then (map_err BadKey (ed_read_key E key)) (\<lambda>_.
     and_then (signing_payload P (cp_body cp)) (\<lambda>payload.
       if ed_verify E key payload (cp_signature cp) then Ok () else Err BadSignature))"

section \<open>Inclusion\<close>

definition out_of_range :: "checkpoint \<Rightarrow> u64 \<Rightarrow> chain_error" where
  "out_of_range cp seq = SeqOutOfRange seq (cb_seq_from (cp_body cp)) (cb_seq_to (cp_body cp))"

definition prove_inclusion ::
    "canon_prims \<Rightarrow> checkpoint \<Rightarrow> hash32 list \<Rightarrow> u64 \<Rightarrow> (inclusion_proof, chain_error) result" where
  "prove_inclusion P cp leaves seq =
     and_then (ok_or (out_of_range cp seq) (index_of (cp_body cp) seq)) (\<lambda>index.
       if length leaves \<noteq> tree_size (cp_body cp) \<or>
          tree_root (digest P) leaves \<noteq> cb_root_hash (cp_body cp)
       then Err LeavesDoNotMatchCheckpoint
       else and_then (ok_or LeavesDoNotMatchCheckpoint (tree_proof (digest P) leaves index)) (\<lambda>path.
         Ok \<lparr>ip_seq = seq, ip_event_hash = leaves ! index, ip_path = path\<rparr>))"

definition verify_inclusion ::
    "canon_prims \<Rightarrow> ed25519 \<Rightarrow> checkpoint \<Rightarrow> inclusion_proof \<Rightarrow> verifying_key_bytes \<Rightarrow>
      (unit, chain_error) result" where
  "verify_inclusion P E cp p key =
     and_then (verify_checkpoint P E cp key) (\<lambda>_.
     and_then (ok_or (out_of_range cp (ip_seq p)) (index_of (cp_body cp) (ip_seq p))) (\<lambda>index.
     and_then (ok_or BadInclusionProof
        (root_from_proof (digest P) (ip_event_hash p) index (tree_size (cp_body cp)) (ip_path p)))
       (\<lambda>computed.
         if computed = cb_root_hash (cp_body cp) then Ok () else Err BadInclusionProof)))"

section \<open>Lemmas\<close>

text \<open>The law the code relies on: a signature verifies under the key of the secret that made it.\<close>

definition signs_for :: "ed25519 \<Rightarrow> u8 list \<Rightarrow> bool" where
  "signs_for E secret \<longleftrightarrow>
     ed_read_key E (ed_public_key E secret) = Ok () \<and>
     (\<forall>payload. ed_verify E (ed_public_key E secret) payload (ed_sign E secret payload))"

lemma verify_checkpoint_eq_Inr:
  "verify_checkpoint P E cp key = Inr u \<longleftrightarrow>
    ed_read_key E key = Inr () \<and>
    (\<exists>payload. signing_payload P (cp_body cp) = Inr payload \<and>
      ed_verify E key payload (cp_signature cp))"
  by (auto simp: verify_checkpoint_def and_then_eq_Inr split: if_splits)

lemma sign_verifies:
  "sign P E s body = Inr cp \<Longrightarrow> signs_for E (cs_key s) \<Longrightarrow>
    verify_checkpoint P E cp (verifying_key E s) = Inr ()"
  by (auto simp: sign_def and_then_eq_Inr verify_checkpoint_eq_Inr verifying_key_def signs_for_def)

lemma seal_range_eq_Inr:
  "seal_range P E s t y f leaves now = Inr cp \<longleftrightarrow>
    leaves \<noteq> [] \<and>
    sign P E s
        \<lparr>cb_tenant_id = t, cb_system_id = y, cb_seq_from = f,
         cb_seq_to = f + of_nat (length leaves) - 1,
         cb_root_hash = tree_root (digest P) leaves, cb_built_at = now,
         cb_canon_version = CANON_VERSION\<rparr> = Inr cp"
  by (auto simp: seal_range_def)

lemma sign_body: "sign P E s body = Inr cp \<Longrightarrow> cp_body cp = body"
  by (auto simp: sign_def and_then_eq_Inr)

text \<open>Positions and indices of a range that does not wrap.\<close>

lemma range_positions:
  fixes f :: u64
  assumes "0 < n" "unat f + n \<le> 2 ^ 64"
  shows "unat (f + of_nat n - 1) = unat f + n - 1"
    and "saturating_sub (f + of_nat n - 1) f + 1 = of_nat n"
    and "i < n \<Longrightarrow> unat (f + of_nat i) = unat f + i"
    and "i < n \<Longrightarrow> f \<le> f + of_nat i \<and> f + of_nat i \<le> f + of_nat n - 1"
    and "i < n \<Longrightarrow> unat (f + of_nat i - f) = i"
proof -
  have of: "unat (of_nat k :: u64) = k" if "k < 2 ^ 64" for k
    using that by (simp add: unat_of_nat take_bit_nat_eq_self)
  have add: "unat (f + of_nat i) = unat f + i" if "i < n" for i
    using that assms(2) of [of i] unat_add_lem [of f "of_nat i"] by simp
  show last: "unat (f + of_nat n - 1) = unat f + n - 1"
    using add [of "n - 1"] assms(1) by (simp add: of_nat_diff algebra_simps)
  show "i < n \<Longrightarrow> unat (f + of_nat i) = unat f + i" by (rule add)
  show "i < n \<Longrightarrow> f \<le> f + of_nat i \<and> f + of_nat i \<le> f + of_nat n - 1"
    using add last by (simp add: word_le_nat_alt)
  show "i < n \<Longrightarrow> unat (f + of_nat i - f) = i" using of [of i] assms(2) by simp
  show "saturating_sub (f + of_nat n - 1) f + 1 = of_nat n"
  proof (cases "n = 1")
    case False
    then have "\<not> f + of_nat n - 1 \<le> f" using last assms(1) by (simp add: word_le_nat_alt)
    then show ?thesis by (simp add: saturating_sub_def)
  qed (simp add: saturating_sub_def)
qed

text \<open>A proof made for a sealed range, and what the verifier makes of it.\<close>

lemma sealed_range_index:
  assumes "cb_seq_from b = f" "cb_seq_to b = f + of_nat n - 1" "0 < n" "unat f + n \<le> 2 ^ 64"
    "n < 2 ^ 64"
  shows "tree_size b = n" "i < n \<Longrightarrow> index_of b (f + of_nat i) = Some i"
proof -
  show "tree_size b = n"
    using assms range_positions(2) [OF assms(3,4)]
    by (simp add: tree_size_def unat_of_nat take_bit_nat_eq_self)
  show "i < n \<Longrightarrow> index_of b (f + of_nat i) = Some i"
    using assms range_positions(4,5) [OF assms(3,4)] by (simp add: index_of_def)
qed

lemma verify_inclusion_eq_Inr:
  "verify_inclusion P E cp p key = Inr u \<longleftrightarrow>
    verify_checkpoint P E cp key = Inr () \<and>
    (\<exists>index. index_of (cp_body cp) (ip_seq p) = Some index \<and>
      root_from_proof (digest P) (ip_event_hash p) index (tree_size (cp_body cp)) (ip_path p) =
        Some (cb_root_hash (cp_body cp)))"
  by (auto simp: verify_inclusion_def and_then_eq_Inr split: if_splits)

lemma prove_inclusion_eq_Inr:
  "prove_inclusion P cp leaves seq = Inr p \<longleftrightarrow>
    (\<exists>index path. index_of (cp_body cp) seq = Some index \<and>
      length leaves = tree_size (cp_body cp) \<and>
      tree_root (digest P) leaves = cb_root_hash (cp_body cp) \<and>
      tree_proof (digest P) leaves index = Some path \<and>
      p = \<lparr>ip_seq = seq, ip_event_hash = leaves ! index, ip_path = path\<rparr>)"
  by (auto simp: prove_inclusion_def and_then_eq_Inr split: if_splits)

lemma prove_then_verify:
  assumes "verify_checkpoint P E cp key = Inr ()" "prove_inclusion P cp leaves seq = Inr p"
  shows "verify_inclusion P E cp p key = Inr ()"
proof -
  obtain index path where p: "index_of (cp_body cp) seq = Some index"
      "length leaves = tree_size (cp_body cp)"
      "tree_root (digest P) leaves = cb_root_hash (cp_body cp)"
      "tree_proof (digest P) leaves index = Some path"
      "p = \<lparr>ip_seq = seq, ip_event_hash = leaves ! index, ip_path = path\<rparr>"
    using assms(2) unfolding prove_inclusion_eq_Inr by blast
  have i: "index < length leaves" "path = build_proof (digest P) leaves index []"
    using p(4) by (auto simp: tree_proof_def split: if_splits)
  then show ?thesis
    using assms(1) p inclusion_complete [OF i(1), of "digest P"]
    by (simp add: verify_inclusion_eq_Inr root_from_proof_conv)
qed

lemma seal_then_prove:
  assumes "seal_range P E s t y f leaves now = Inr cp" "signs_for E (cs_key s)"
    and "unat f + length leaves \<le> 2 ^ 64" "length leaves < 2 ^ 64" "i < length leaves"
  shows "\<exists>p. prove_inclusion P cp leaves (f + of_nat i) = Inr p \<and> ip_event_hash p = leaves ! i \<and>
    verify_inclusion P E cp p (verifying_key E s) = Inr ()"
proof -
  let ?body = "\<lparr>cb_tenant_id = t, cb_system_id = y, cb_seq_from = f,
         cb_seq_to = f + of_nat (length leaves) - 1, cb_root_hash = tree_root (digest P) leaves,
         cb_built_at = now, cb_canon_version = CANON_VERSION\<rparr>"
  have ne: "leaves \<noteq> []" and sg: "sign P E s ?body = Inr cp"
    using assms(1) unfolding seal_range_eq_Inr by blast+
  have b: "cp_body cp = ?body" using sign_body [OF sg] .
  have n: "0 < length leaves" using ne by simp
  have size: "tree_size (cp_body cp) = length leaves"
    using sealed_range_index(1) [of ?body f, OF _ _ n assms(3,4)] by (simp add: b)
  have idx: "index_of (cp_body cp) (f + of_nat i) = Some i"
    using sealed_range_index(2) [of ?body f, OF _ _ n assms(3,4,5)] by (simp add: b)
  obtain path where path: "tree_proof (digest P) leaves i = Some path"
    using assms(5) by (simp add: tree_proof_def)
  let ?p = "\<lparr>ip_seq = f + of_nat i, ip_event_hash = leaves ! i, ip_path = path\<rparr>"
  have p: "prove_inclusion P cp leaves (f + of_nat i) = Inr ?p"
    unfolding prove_inclusion_eq_Inr using idx size path b by auto
  moreover have "verify_inclusion P E cp ?p (verifying_key E s) = Inr ()"
    by (rule prove_then_verify [OF sign_verifies [OF sg assms(2)] p])
  ultimately show ?thesis by auto
qed


section \<open>What a signature binds\<close>

lemma checkpoint_body_binding:
  assumes "checkpoint_body_value b = Ok v" "checkpoint_body_value c = Ok v'"
    and "canonicalize le v = Ok w" "canonicalize le v' = Ok w"
  shows "b = c"
proof -
  obtain es es' where es: "v = VMap es" "v' = VMap es'"
    using assms(1,2) by (auto simp: checkpoint_body_value_def)
  have "es = es'"
    using assms(1,2) unfolding es checkpoint_body_value_def
    by (intro struct_binding [OF _ _ _ _ assms(3,4) [unfolded es]])
      (auto simp: canonical_entry_def hash_value_def)
  then show ?thesis
    using assms(1,2) unfolding es checkpoint_body_value_def
    by (intro checkpoint_body.equality) (auto simp: hash_value_def word_uint_eq_iff)
qed

text \<open>The bytes a payload is the hash of.\<close>

definition payload_input :: "canon_prims \<Rightarrow> checkpoint_body \<Rightarrow> u8 list" where
  "payload_input P b =
     (case encode P checkpoint_body_value b of Inl _ \<Rightarrow> []
      | Inr encoded \<Rightarrow> absorb (absorb hasher_new CHECKPOINT_TAG) encoded)"

lemma signing_payload_eq_Inr:
  "signing_payload P b = Inr p \<longleftrightarrow>
    (\<exists>encoded. encode P checkpoint_body_value b = Inr encoded) \<and>
    p = as_bytes (digest P (payload_input P b))"
  by (cases "encode P checkpoint_body_value b")
    (auto simp: signing_payload_def payload_input_def Let_def finalize_def)

lemma payload_binding:
  assumes "signing_payload P b = Inr p" "signing_payload P c = Inr p"
    and "collision_free (digest P) [payload_input P b, payload_input P c]"
    and "written_apart P checkpoint_body_value [b, c]"
  shows "b = c"
proof -
  obtain x y where xy: "encode P checkpoint_body_value b = Inr x"
      "encode P checkpoint_body_value c = Inr y"
    using assms(1,2) unfolding signing_payload_eq_Inr by blast
  have "digest P (payload_input P b) = digest P (payload_input P c)"
    using assms(1,2) unfolding signing_payload_eq_Inr by simp
  then have "payload_input P b = payload_input P c"
    using collision_freeD [OF assms(3), of "payload_input P b" "payload_input P c"] by simp
  then have eq: "le_bytes32 (u32_or_max (length x)) @ x = le_bytes32 (u32_or_max (length y)) @ y"
    by (simp add: payload_input_def xy absorb_conv)
  then have "take 4 (le_bytes32 (u32_or_max (length x)) @ x) @ x =
      take 4 (le_bytes32 (u32_or_max (length y)) @ y) @ y"
    by (metis append_eq_append_conv length_le_bytes32 append_take_drop_id)
  then have "x = y" using eq by (metis append_eq_append_conv length_le_bytes32)
  obtain v v' w where "checkpoint_body_value b = Inr v" "checkpoint_body_value c = Inr v'"
      "canonicalize (key_le P) v = Inr w" "canonicalize (key_le P) v' = Inr w"
    using written_apartD [OF assms(4) _ _ xy(1) xy(2) [folded \<open>x = y\<close>]] by auto
  then show ?thesis by (rule checkpoint_body_binding)
qed

section \<open>A concrete instance for examples\<close>

definition demo_ed :: ed25519 where
  "demo_ed = \<lparr>ed_public_key = (\<lambda>k. k), ed_sign = (\<lambda>k m. k @ m), ed_read_key = (\<lambda>_. Ok ()),
     ed_verify = (\<lambda>k m s. s = k @ m)\<rparr>"

definition demo_signer :: checkpoint_signer where
  "demo_signer = signer_from_bytes [1, 2, 3] ''k1''"

lemma demo_ed_signs: "signs_for demo_ed k"
  by (simp add: signs_for_def demo_ed_def)

lemma demo_body_encodes: "\<exists>x. encode chain_prims checkpoint_body_value b = Inr x"
proof -
  obtain es where es0: "checkpoint_body_value b = Inr (VMap es)"
    by (simp add: checkpoint_body_value_def)
  have es: "distinct (map fst es)"
      "list_all (\<lambda>k. case k of VText _ \<Rightarrow> True | _ \<Rightarrow> False) (map fst es)"
      "\<And>e. e \<in> set es \<Longrightarrow> canonical_entry demo_key_le e = Inr e"
    using es0 by (auto simp: checkpoint_body_value_def canonical_entry_def hash_value_def)
  have "try_map (canonical_entry demo_key_le) es = Inr (map id es)"
    by (rule try_map_Inr_map) (simp add: es(3))
  then have "canonicalize demo_key_le (VMap es) = Inr (VMap (sort_by (entry_le demo_key_le) es))"
    using text_keys_sorted [OF es(1,2)] unfolding canonicalize_VMap by simp
  then show ?thesis using es0 unfolding encode_eq_Inr by auto
qed

lemma demo_seals:
  "leaves \<noteq> [] \<Longrightarrow> \<exists>cp. seal_range chain_prims demo_ed s t y f leaves now = Inr cp"
  using demo_body_encodes unfolding seal_range_eq_Inr sign_def and_then_eq_Inr signing_payload_eq_Inr
  by blast

section \<open>Properties\<close>

text \<open>
  C30. A sealed range can be proved into: for every event hash of a range that
  \<open>seal_range\<close> signed (and whose positions do not run past the end of \<open>u64\<close>),
  \<open>prove_inclusion\<close> gives a proof of that hash at its position, and \<open>verify_inclusion\<close> accepts it
  under the signer's public key, if signatures verify under the key of the secret that made them.
\<close>

theorem sealed_range_provable:
  assumes "seal_range P E s t y from leaves now = Ok cp" "signs_for E (cs_key s)"
    and "unat from + length leaves \<le> 2 ^ 64" "length leaves < 2 ^ 64" "i < length leaves"
  shows "\<exists>p. prove_inclusion P cp leaves (from + of_nat i) = Ok p \<and> ip_event_hash p = leaves ! i \<and>
    verify_inclusion P E cp p (verifying_key E s) = Ok ()"
  using assms by (rule seal_then_prove)

theorem sealed_range_provable_witness:
  "\<exists>cp p. seal_range chain_prims demo_ed demo_signer ''t'' ''s'' 41 [GENESIS, demo_hash 1 2] 0 = Ok cp \<and>
    prove_inclusion chain_prims cp [GENESIS, demo_hash 1 2] (41 + of_nat 1) = Ok p \<and>
    ip_event_hash p = demo_hash 1 2 \<and>
    verify_inclusion chain_prims demo_ed cp p (verifying_key demo_ed demo_signer) = Ok ()"
proof -
  obtain cp where cp: "seal_range chain_prims demo_ed demo_signer ''t'' ''s'' 41
      [GENESIS, demo_hash 1 2] 0 = Ok cp"
    using demo_seals by blast
  show ?thesis using sealed_range_provable [OF cp demo_ed_signs, of 1] cp by auto
qed

text \<open>
  C29. An accepted inclusion proof is about the signed range: if \<open>verify_inclusion\<close> accepts and
  the checkpoint's root is the root of some leaves of the size it covers, then the checkpoint's
  signature verified, and the proved hash is the leaf at the proved position and no other
  (unless the hash collides on what tree and proof hash).
\<close>

theorem accepted_inclusion_sound:
  assumes "verify_inclusion P E cp p key = Ok ()"
    and "length leaves = tree_size (cp_body cp)"
    and "tree_root (digest P) leaves = cb_root_hash (cp_body cp)"
    and "collision_free (digest P) (tree_inputs (digest P) leaves @
      proof_inputs (digest P) (ip_event_hash p) (unat (ip_seq p - cb_seq_from (cp_body cp)))
        (length leaves) (ip_path p))"
  shows "verify_checkpoint P E cp key = Ok () \<and>
    cb_seq_from (cp_body cp) \<le> ip_seq p \<and> ip_seq p \<le> cb_seq_to (cp_body cp) \<and>
    unat (ip_seq p - cb_seq_from (cp_body cp)) < length leaves \<and>
    ip_event_hash p = leaves ! unat (ip_seq p - cb_seq_from (cp_body cp))"
proof -
  obtain index where i: "verify_checkpoint P E cp key = Ok ()"
      "index_of (cp_body cp) (ip_seq p) = Some index"
      "root_from_proof (digest P) (ip_event_hash p) index (length leaves) (ip_path p) =
        Some (tree_root (digest P) leaves)"
    using assms(1-3) unfolding verify_inclusion_eq_Inr by auto
  have "index = unat (ip_seq p - cb_seq_from (cp_body cp))"
      "cb_seq_from (cp_body cp) \<le> ip_seq p" "ip_seq p \<le> cb_seq_to (cp_body cp)"
    using i(2) by (auto simp: index_of_def split: if_splits)
  moreover have "index < length leaves"
      "length (descend index (length leaves) []) = length (ip_path p)"
      "climb (digest P) (ip_event_hash p) (descend index (length leaves) []) (ip_path p) =
        tree_root (digest P) leaves"
    using i(3) by (auto simp: root_from_proof_conv split: if_splits)
  ultimately show ?thesis
    using i(1) inclusion_unique [of "digest P" leaves "ip_event_hash p" index "ip_path p"] assms(4)
    by (simp add: proof_inputs_def)
qed

theorem accepted_inclusion_sound_witness:
  "\<exists>cp. seal_range chain_prims demo_ed demo_signer ''t'' ''s'' 41 [demo_hash 1 2] 0 = Ok cp \<and>
    verify_checkpoint chain_prims demo_ed cp (verifying_key demo_ed demo_signer) = Ok () \<and>
    cb_seq_from (cp_body cp) \<le> 41"
proof -
  let ?k = "verifying_key demo_ed demo_signer"
  obtain cp where cp: "seal_range chain_prims demo_ed demo_signer ''t'' ''s'' 41 [demo_hash 1 2] 0 = Ok cp"
    using demo_seals by blast
  obtain p where p: "prove_inclusion chain_prims cp [demo_hash 1 2] 41 = Ok p"
      "verify_inclusion chain_prims demo_ed cp p ?k = Ok ()"
    using seal_then_prove [OF cp demo_ed_signs, of 0] by auto
  obtain index path where pp: "length [demo_hash 1 2] = tree_size (cp_body cp)"
      "tree_root demo_digest [demo_hash 1 2] = cb_root_hash (cp_body cp)"
      "index_of (cp_body cp) 41 = Some index" "tree_proof demo_digest [demo_hash 1 2] index = Some path"
      "p = \<lparr>ip_seq = 41, ip_event_hash = [demo_hash 1 2] ! index, ip_path = path\<rparr>"
    using p(1) unfolding prove_inclusion_eq_Inr by auto
  have "index = unat (41 - cb_seq_from (cp_body cp))" "index = 0"
    using pp(3,4) by (auto simp: index_of_def tree_proof_def split: if_splits)
  then have "collision_free (digest chain_prims) (tree_inputs (digest chain_prims) [demo_hash 1 2] @
      proof_inputs (digest chain_prims) (ip_event_hash p) (unat (ip_seq p - cb_seq_from (cp_body cp)))
        (length [demo_hash 1 2]) (ip_path p))"
    using pp(5) by (simp add: proof_inputs_def descend_base collision_free_def)
  then show ?thesis
    using accepted_inclusion_sound [OF p(2), of "[demo_hash 1 2]"] pp cp by auto
qed

text \<open>
  An accepted checkpoint is one that was signed: if under the given key only payloads of the
  given bodies verify, an accepted checkpoint's body is one of those bodies, range, root, time
  and rule set included (if the writer keeps the bodies apart and the hash does not collide).
\<close>

theorem accepted_checkpoint_signed:
  assumes "verify_checkpoint P E cp key = Ok ()"
    and "\<And>payload sig. ed_verify E key payload sig \<Longrightarrow>
      \<exists>b \<in> set bodies. signing_payload P b = Ok payload"
    and "collision_free (digest P) (map (payload_input P) (cp_body cp # bodies))"
    and "written_apart P checkpoint_body_value (cp_body cp # bodies)"
  shows "cp_body cp \<in> set bodies"
proof -
  obtain payload where "signing_payload P (cp_body cp) = Ok payload"
      "ed_verify E key payload (cp_signature cp)"
    using assms(1) unfolding verify_checkpoint_eq_Inr by blast
  moreover from this obtain b where b: "b \<in> set bodies" "signing_payload P b = Ok payload"
    using assms(2) by blast
  ultimately have "cp_body cp = b"
    using b(1)
    by (intro payload_binding [of P "cp_body cp" payload b] collision_free_mono [OF assms(3)]
        written_apart_sub [OF assms(4)]) simp_all
  then show ?thesis using b(1) by simp
qed

theorem accepted_checkpoint_signed_witness:
  "\<exists>cp. seal_range chain_prims demo_ed demo_signer ''t'' ''s'' 41 [demo_hash 1 2] 0 = Ok cp \<and>
    cp_body cp \<in> set [cp_body cp]"
proof -
  let ?k = "verifying_key demo_ed demo_signer"
  obtain cp where cp: "seal_range chain_prims demo_ed demo_signer ''t'' ''s'' 41 [demo_hash 1 2] 0 = Ok cp"
    using demo_seals by blast
  obtain payload where payload: "signing_payload chain_prims (cp_body cp) = Ok payload"
    using demo_body_encodes unfolding signing_payload_eq_Inr by blast
  let ?E = "demo_ed\<lparr>ed_verify := \<lambda>k m s. m = payload\<rparr>"
  have "verify_checkpoint chain_prims ?E cp ?k = Ok ()"
    unfolding verify_checkpoint_eq_Inr using payload by (simp add: demo_ed_def)
  then have "cp_body cp \<in> set [cp_body cp]"
  proof (rule accepted_checkpoint_signed)
    show "\<exists>b \<in> set [cp_body cp]. signing_payload chain_prims b = Ok q"
      if "ed_verify ?E ?k q sig" for q sig
      using that payload by simp
  qed (simp_all add: collision_free_def written_apart_def)
  with cp show ?thesis by blast
qed

end
