(* ===== verification/Config.thy ===== *)
theory Config
  imports Event
begin

text \<open>
  \<open>crates/ancre-types/src/config.rs\<close>: the configuration snapshot, its wire form, its content
  hash and the envelope it travels in.

  A \<open>HashMap\<close> is a partial map. The prefixes are \<open>ss_\<close> snapshot spec, \<open>sy_\<close> system spec, \<open>ro_\<close>
  route spec, \<open>kb_\<close> key binding spec, \<open>cfg_\<close> snapshot, \<open>sc_\<close> system, \<open>rt_\<close> route, \<open>b_\<close> binding,
  \<open>env_\<close> envelope, \<open>im_\<close> ingress. The builder's clock is an argument.
\<close>

section \<open>Data\<close>

datatype matcher =
    Any
  | Path string
  | ModelAlias string
  | Header string string
  | All "matcher list"

record pin_overrides =
  po_model_version :: "string option"
  po_prompt_version :: "string option"

definition overrides_empty :: "pin_overrides \<Rightarrow> bool" where
  "overrides_empty o' \<longleftrightarrow> po_model_version o' = None \<and> po_prompt_version o' = None"

record ingress_meta =
  im_path :: string
  im_model_alias :: "string option"
  im_api_key_hash :: hash32
  im_headers :: "(string \<times> string) list"
  im_overrides :: pin_overrides

fun matches :: "matcher \<Rightarrow> ingress_meta \<Rightarrow> bool" where
  "matches Any req \<longleftrightarrow> True"
| "matches (Path p) req \<longleftrightarrow> im_path req = p"
| "matches (ModelAlias m) req \<longleftrightarrow> im_model_alias req = Some m"
| "matches (Header name value') req \<longleftrightarrow>
     list_ex (\<lambda>(n, v). eq_ignore_ascii_case n name \<and> v = value') (im_headers req)"
| "matches (All ms) req \<longleftrightarrow> list_all (\<lambda>m. matches m req) ms"

record route_spec =
  ro_matcher :: matcher
  ro_model_id :: string
  ro_model_version :: string
  ro_prompt_id :: string
  ro_prompt_version :: string
  ro_prompt_hash :: hash32

record system_config_spec =
  sy_system_id :: string
  sy_system_version :: string
  sy_ifu_version :: string
  sy_risk_class :: risk_class
  sy_policy_id :: string
  sy_policy_version :: string
  sy_routes :: "route_spec list"
  sy_default_route :: usize

record key_binding_spec =
  kb_key_hash :: hash32
  kb_tenant_id :: string
  kb_system_id :: string

record snapshot_spec =
  ss_generation :: u64
  ss_gateway_version :: string
  ss_systems :: "system_config_spec list"
  ss_keys :: "key_binding_spec list"

record snapshot_content =
  sv_gateway_version :: string
  sv_systems :: "system_config_spec list"
  sv_keys :: "key_binding_spec list"

definition content_view :: "snapshot_spec \<Rightarrow> snapshot_content" where
  "content_view spec =
     \<lparr>sv_gateway_version = ss_gateway_version spec, sv_systems = ss_systems spec,
      sv_keys = ss_keys spec\<rparr>"

definition canonicalize_order :: "snapshot_spec \<Rightarrow> snapshot_spec" where
  "canonicalize_order spec =
     spec\<lparr>ss_systems := sort_by (by_key sy_system_id) (ss_systems spec),
          ss_keys := sort_by (by_key kb_key_hash) (ss_keys spec)\<rparr>"

datatype prompt_ref = Inline string | Lazy hash32

fun prompt_ref_hash :: "prompt_ref \<Rightarrow> hash32 option" where
  "prompt_ref_hash (Lazy h) = Some h"
| "prompt_ref_hash (Inline _) = None"

record route =
  rt_matcher :: matcher
  rt_model_id :: string
  rt_model_version :: string
  rt_prompt_id :: string
  rt_prompt_version :: string
  rt_prompt_body :: prompt_ref

record system_config =
  sc_system_id :: string
  sc_system_version :: string
  sc_ifu_version :: string
  sc_risk_class :: risk_class
  sc_policy_id :: string
  sc_policy_version :: string
  sc_routes :: "route list"
  sc_default_route :: usize

record key_binding =
  b_tenant_id :: string
  b_system_id :: string

record config_snapshot =
  cfg_generation :: u64
  cfg_content_hash :: hash32
  cfg_built_at :: timestamp
  cfg_gateway_version :: string
  cfg_systems :: "string \<rightharpoonup> system_config"
  cfg_keys :: "hash32 \<rightharpoonup> key_binding"

definition system :: "config_snapshot \<Rightarrow> string \<Rightarrow> system_config option" where
  "system snap id' = cfg_systems snap id'"

definition key_binding_of :: "config_snapshot \<Rightarrow> hash32 \<Rightarrow> key_binding option" where
  "key_binding_of snap key_hash = cfg_keys snap key_hash"

definition system_count :: "config_snapshot \<Rightarrow> usize" where
  "system_count snap = card (dom (cfg_systems snap))"

datatype snapshot_error =
    BadDefaultRoute string
  | NoRoutes string
  | DuplicateSystem string
  | DuplicateKey hash32
  | KeyBindsUnknownSystem string
  | SnapshotCanon string
  | GenerationMismatch u64 u64
  | ContentMismatch hash32 hash32

text \<open>
  The last two stand for the two texts of \<open>EnvelopeMismatch\<close>, with the values they print.
\<close>

section \<open>Serialization\<close>

text \<open>
  The derived serializations: structs as maps in declaration order, a unit variant as its
  name, a newtype or struct variant as a map from its name to its contents.
\<close>

fun matcher_value :: "matcher \<Rightarrow> cbor" where
  "matcher_value Any = VText ''Any''"
| "matcher_value (Path p) = VMap [(VText ''Path'', VText p)]"
| "matcher_value (ModelAlias m) = VMap [(VText ''ModelAlias'', VText m)]"
| "matcher_value (Header name value') =
     VMap [(VText ''Header'', VMap [(VText ''name'', VText name), (VText ''value'', VText value')])]"
| "matcher_value (All ms) = VMap [(VText ''All'', VArray (map matcher_value ms))]"

definition route_value :: "route_spec \<Rightarrow> cbor" where
  "route_value r = VMap
     [(VText ''matcher'', matcher_value (ro_matcher r)),
      (VText ''model_id'', VText (ro_model_id r)),
      (VText ''model_version'', VText (ro_model_version r)),
      (VText ''prompt_id'', VText (ro_prompt_id r)),
      (VText ''prompt_version'', VText (ro_prompt_version r)),
      (VText ''prompt_hash'', hash_value (ro_prompt_hash r))]"

definition system_value :: "system_config_spec \<Rightarrow> cbor" where
  "system_value s = VMap
     [(VText ''system_id'', VText (sy_system_id s)),
      (VText ''system_version'', VText (sy_system_version s)),
      (VText ''ifu_version'', VText (sy_ifu_version s)),
      (VText ''risk_class'', VText (risk_class_as_str (sy_risk_class s))),
      (VText ''policy_id'', VText (sy_policy_id s)),
      (VText ''policy_version'', VText (sy_policy_version s)),
      (VText ''routes'', VArray (map route_value (sy_routes s))),
      (VText ''default_route'', VInteger (int (sy_default_route s)))]"

definition key_value :: "key_binding_spec \<Rightarrow> cbor" where
  "key_value k = VMap
     [(VText ''key_hash'', hash_value (kb_key_hash k)),
      (VText ''tenant_id'', VText (kb_tenant_id k)),
      (VText ''system_id'', VText (kb_system_id k))]"

definition snapshot_content_value :: "snapshot_content \<Rightarrow> (cbor, string) result" where
  "snapshot_content_value c = Ok (VMap
     [(VText ''gateway_version'', VText (sv_gateway_version c)),
      (VText ''systems'', VArray (map system_value (sv_systems c))),
      (VText ''keys'', VArray (map key_value (sv_keys c)))])"

definition spec_hash :: "canon_prims \<Rightarrow> snapshot_spec \<Rightarrow> (hash32, snapshot_error) result" where
  "spec_hash P spec =
     map_err (\<lambda>e. SnapshotCanon (canon_error_to_string e))
       (content_hash P snapshot_content_value (content_view spec))"

section \<open>Building a snapshot\<close>

definition build_route :: "route_spec \<Rightarrow> route" where
  "build_route r =
     \<lparr>rt_matcher = ro_matcher r, rt_model_id = ro_model_id r, rt_model_version = ro_model_version r,
      rt_prompt_id = ro_prompt_id r, rt_prompt_version = ro_prompt_version r,
      rt_prompt_body = Lazy (ro_prompt_hash r)\<rparr>"

definition build_system :: "system_config_spec \<Rightarrow> system_config" where
  "build_system s =
     \<lparr>sc_system_id = sy_system_id s, sc_system_version = sy_system_version s,
      sc_ifu_version = sy_ifu_version s, sc_risk_class = sy_risk_class s,
      sc_policy_id = sy_policy_id s, sc_policy_version = sy_policy_version s,
      sc_routes = map build_route (sy_routes s), sc_default_route = sy_default_route s\<rparr>"

fun insert_systems ::
    "(string \<rightharpoonup> system_config) \<Rightarrow> system_config_spec list \<Rightarrow>
      (string \<rightharpoonup> system_config, snapshot_error) result" where
  "insert_systems systems [] = Ok systems"
| "insert_systems systems (s # ss) =
     (if sy_routes s = [] then Err (NoRoutes (sy_system_id s))
      else if sy_default_route s \<ge> length (sy_routes s) then Err (BadDefaultRoute (sy_system_id s))
      else if systems (sy_system_id s) \<noteq> None then Err (DuplicateSystem (sy_system_id s))
      else insert_systems (systems(sy_system_id s \<mapsto> build_system s)) ss)"

definition build_binding :: "key_binding_spec \<Rightarrow> key_binding" where
  "build_binding k = \<lparr>b_tenant_id = kb_tenant_id k, b_system_id = kb_system_id k\<rparr>"

fun insert_keys ::
    "(string \<rightharpoonup> system_config) \<Rightarrow> (hash32 \<rightharpoonup> key_binding) \<Rightarrow> key_binding_spec list \<Rightarrow>
      (hash32 \<rightharpoonup> key_binding, snapshot_error) result" where
  "insert_keys systems keys [] = Ok keys"
| "insert_keys systems keys (k # ks) =
     (if systems (kb_system_id k) = None then Err (KeyBindsUnknownSystem (kb_system_id k))
      else if keys (kb_key_hash k) \<noteq> None then Err (DuplicateKey (kb_key_hash k))
      else insert_keys systems (keys(kb_key_hash k \<mapsto> build_binding k)) ks)"

definition build :: "canon_prims \<Rightarrow> timestamp \<Rightarrow> snapshot_spec \<Rightarrow> (config_snapshot, snapshot_error) result"
where
  "build P now spec =
     and_then (spec_hash P spec) (\<lambda>content_hash'.
     and_then (insert_systems Map.empty (ss_systems spec)) (\<lambda>systems.
     and_then (insert_keys systems Map.empty (ss_keys spec)) (\<lambda>keys.
       Ok \<lparr>cfg_generation = ss_generation spec, cfg_content_hash = content_hash',
           cfg_built_at = now, cfg_gateway_version = ss_gateway_version spec,
           cfg_systems = systems, cfg_keys = keys\<rparr>)))"

definition empty_snapshot :: "timestamp \<Rightarrow> config_snapshot" where
  "empty_snapshot now =
     \<lparr>cfg_generation = 0, cfg_content_hash = GENESIS, cfg_built_at = now,
      cfg_gateway_version = [], cfg_systems = Map.empty, cfg_keys = Map.empty\<rparr>"

section \<open>The envelope\<close>

record snapshot_envelope =
  env_generation :: u64
  env_content_hash :: hash32
  env_spec :: snapshot_spec

definition SNAPSHOT_SUBJECT :: string where
  "SNAPSHOT_SUBJECT = ''ancre.config.snapshot''"

definition envelope_seal :: "snapshot_spec \<Rightarrow> hash32 \<Rightarrow> snapshot_envelope" where
  "envelope_seal spec h =
     \<lparr>env_generation = ss_generation spec, env_content_hash = h, env_spec = spec\<rparr>"

definition seal_now :: "canon_prims \<Rightarrow> snapshot_spec \<Rightarrow> (snapshot_envelope, snapshot_error) result" where
  "seal_now P spec = and_then (spec_hash P spec) (\<lambda>h. Ok (envelope_seal spec h))"

definition envelope_verify :: "canon_prims \<Rightarrow> snapshot_envelope \<Rightarrow> (unit, snapshot_error) result" where
  "envelope_verify P env =
     (if ss_generation (env_spec env) \<noteq> env_generation env
      then Err (GenerationMismatch (env_generation env) (ss_generation (env_spec env)))
      else and_then (spec_hash P (env_spec env)) (\<lambda>recomputed.
        if recomputed \<noteq> env_content_hash env
        then Err (ContentMismatch (env_content_hash env) recomputed) else Ok ()))"

definition install ::
    "canon_prims \<Rightarrow> timestamp \<Rightarrow> snapshot_envelope \<Rightarrow> (config_snapshot, snapshot_error) result" where
  "install P now env = and_then (envelope_verify P env) (\<lambda>_. build P now (env_spec env))"

section \<open>Lemmas on building\<close>

definition system_spec_ok :: "system_config_spec \<Rightarrow> bool" where
  "system_spec_ok s \<longleftrightarrow> sy_routes s \<noteq> [] \<and> sy_default_route s < length (sy_routes s)"

lemma keyed_map_insert:
  assumes "k s \<notin> k ` set ss"
  shows "m(k s \<mapsto> f s) ++ map_of (map (\<lambda>s. (k s, f s)) ss) =
    m ++ map_of (map (\<lambda>s. (k s, f s)) (s # ss))"
  using assms by (simp add: map_add_upd_left dom_map_of_conv_image_fst image_image)

lemma keyed_map_dom: "map_of (map (\<lambda>s. (k s, f s)) ss) x = None \<longleftrightarrow> x \<notin> k ` set ss"
  by (simp add: map_of_eq_None_iff image_image)

lemma insert_systems_eq_Inr:
  "insert_systems m ss = Inr m' \<longleftrightarrow>
    list_all system_spec_ok ss \<and> distinct (map sy_system_id ss) \<and>
    (\<forall>s \<in> set ss. m (sy_system_id s) = None) \<and>
    m' = m ++ map_of (map (\<lambda>s. (sy_system_id s, build_system s)) ss)"
proof (induction ss arbitrary: m)
  case (Cons s ss)
  show ?case
  proof (cases "system_spec_ok s \<and> m (sy_system_id s) = None \<and> sy_system_id s \<notin> sy_system_id ` set ss")
    case True
    define M where "M = m ++ map_of (map (\<lambda>s. (sy_system_id s, build_system s)) (s # ss))"
    have step: "insert_systems m (s # ss) = insert_systems (m(sy_system_id s \<mapsto> build_system s)) ss"
      using True by (simp add: system_spec_ok_def)
    have map: "m(sy_system_id s \<mapsto> build_system s) ++
        map_of (map (\<lambda>s. (sy_system_id s, build_system s)) ss) = M"
      unfolding M_def using True by (intro keyed_map_insert) simp
    have "(\<forall>s' \<in> set ss. (m(sy_system_id s \<mapsto> build_system s)) (sy_system_id s') = None) \<longleftrightarrow>
        (\<forall>s' \<in> set ss. m (sy_system_id s') = None)"
      using True by (metis fun_upd_other image_eqI)
    then show ?thesis
      unfolding step Cons.IH map M_def [symmetric] using True by simp
  next
    case False
    then show ?thesis using Cons.IH by (auto simp: system_spec_ok_def)
  qed
qed auto

lemma insert_keys_eq_Inr:
  "insert_keys systems m ks = Inr m' \<longleftrightarrow>
    (\<forall>k \<in> set ks. systems (kb_system_id k) \<noteq> None) \<and> distinct (map kb_key_hash ks) \<and>
    (\<forall>k \<in> set ks. m (kb_key_hash k) = None) \<and>
    m' = m ++ map_of (map (\<lambda>k. (kb_key_hash k, build_binding k)) ks)"
proof (induction ks arbitrary: m)
  case (Cons k ks)
  show ?case
  proof (cases "systems (kb_system_id k) \<noteq> None \<and> m (kb_key_hash k) = None \<and>
      kb_key_hash k \<notin> kb_key_hash ` set ks")
    case True
    define M where "M = m ++ map_of (map (\<lambda>k. (kb_key_hash k, build_binding k)) (k # ks))"
    have step: "insert_keys systems m (k # ks) =
        insert_keys systems (m(kb_key_hash k \<mapsto> build_binding k)) ks"
      using True by auto
    have map: "m(kb_key_hash k \<mapsto> build_binding k) ++
        map_of (map (\<lambda>k. (kb_key_hash k, build_binding k)) ks) = M"
      unfolding M_def using True by (intro keyed_map_insert) simp
    have "(\<forall>k' \<in> set ks. (m(kb_key_hash k \<mapsto> build_binding k)) (kb_key_hash k') = None) \<longleftrightarrow>
        (\<forall>k' \<in> set ks. m (kb_key_hash k') = None)"
      using True by (metis fun_upd_other image_eqI)
    then show ?thesis
      unfolding step Cons.IH map M_def [symmetric] using True by simp
  next
    case False
    then show ?thesis using Cons.IH by auto
  qed
qed auto

text \<open>What every built snapshot satisfies, and what the resolver relies on.\<close>

definition snapshot_ok :: "config_snapshot \<Rightarrow> bool" where
  "snapshot_ok snap \<longleftrightarrow>
     (\<forall>id' sys. cfg_systems snap id' = Some sys \<longrightarrow>
        sc_system_id sys = id' \<and> sc_default_route sys < length (sc_routes sys)) \<and>
     (\<forall>h b. cfg_keys snap h = Some b \<longrightarrow> cfg_systems snap (b_system_id b) \<noteq> None)"

definition spec_ok :: "snapshot_spec \<Rightarrow> bool" where
  "spec_ok spec \<longleftrightarrow>
     list_all system_spec_ok (ss_systems spec) \<and> distinct (map sy_system_id (ss_systems spec)) \<and>
     list_all (\<lambda>k. kb_system_id k \<in> set (map sy_system_id (ss_systems spec))) (ss_keys spec) \<and>
     distinct (map kb_key_hash (ss_keys spec))"

lemma build_eq_Inr:
  "build P now spec = Inr snap \<longleftrightarrow>
    (\<exists>h. spec_hash P spec = Inr h \<and> spec_ok spec \<and>
      snap = \<lparr>cfg_generation = ss_generation spec, cfg_content_hash = h, cfg_built_at = now,
        cfg_gateway_version = ss_gateway_version spec,
        cfg_systems = map_of (map (\<lambda>s. (sy_system_id s, build_system s)) (ss_systems spec)),
        cfg_keys = map_of (map (\<lambda>k. (kb_key_hash k, build_binding k)) (ss_keys spec))\<rparr>)"
proof -
  show ?thesis
    unfolding build_def and_then_eq_Inr insert_systems_eq_Inr insert_keys_eq_Inr spec_ok_def
      empty_map_add list_all_iff
    by (auto simp del: not_None_eq simp: keyed_map_dom)
qed

lemma built_snapshot_ok:
  assumes "build P now spec = Inr snap"
  shows "snapshot_ok snap"
proof -
  have ok: "spec_ok spec"
    and sys: "cfg_systems snap = map_of (map (\<lambda>s. (sy_system_id s, build_system s)) (ss_systems spec))"
    and keys: "cfg_keys snap = map_of (map (\<lambda>k. (kb_key_hash k, build_binding k)) (ss_keys spec))"
    using assms unfolding build_eq_Inr by auto
  have "sc_system_id s = i \<and> sc_default_route s < length (sc_routes s)"
    if "cfg_systems snap i = Some s" for i s
    using map_of_SomeD [OF that [unfolded sys]] ok
    by (auto simp: spec_ok_def system_spec_ok_def build_system_def list_all_iff)
  moreover have "cfg_systems snap (b_system_id b) \<noteq> None" if "cfg_keys snap h = Some b" for h b
    using map_of_SomeD [OF that [unfolded keys]] ok
    by (auto simp: spec_ok_def build_binding_def list_all_iff sys map_of_eq_None_iff image_image)
  ultimately show ?thesis by (simp add: snapshot_ok_def)
qed

section \<open>Lemmas on the canonical order\<close>

lemma key_unique:
  assumes "distinct (map k xs)" "x \<in> set xs" "y \<in> set xs" "by_key k x y" "by_key k y x"
  shows "x = y"
proof -
  have "k x = k y" using assms(4,5) by (simp add: by_key_def)
  moreover have "inj_on k (set xs)" using assms(1) by (simp add: distinct_map)
  ultimately show ?thesis using assms(2,3) by (auto dest: inj_onD)
qed

lemma canonicalize_order_perm:
  assumes "mset (ss_systems a) = mset (ss_systems b)" "mset (ss_keys a) = mset (ss_keys b)"
    and "distinct (map sy_system_id (ss_systems a))" "distinct (map kb_key_hash (ss_keys a))"
  shows "ss_systems (canonicalize_order a) = ss_systems (canonicalize_order b) \<and>
    ss_keys (canonicalize_order a) = ss_keys (canonicalize_order b)"
proof -
  have "sort_by (by_key sy_system_id) (ss_systems a) = sort_by (by_key sy_system_id) (ss_systems b)"
    by (rule by_key.sort_by_perm [OF assms(1)]) (rule key_unique [OF assms(3)])
  moreover have "sort_by (by_key kb_key_hash) (ss_keys a) = sort_by (by_key kb_key_hash) (ss_keys b)"
    by (rule by_key.sort_by_perm [OF assms(2)]) (rule key_unique [OF assms(4)])
  ultimately show ?thesis by (simp add: canonicalize_order_def)
qed

lemma canonicalize_order_idem: "canonicalize_order (canonicalize_order spec) = canonicalize_order spec"
  by (simp add: canonicalize_order_def by_key.sort_by_idem by_key.sort_by_idem)

section \<open>Lemmas on the content hash\<close>

text \<open>
  A serialization is canonically injective when equal canonical forms come from equal values.
  It is so for structs field by field and for arrays element by element.
\<close>

definition canonical_inj :: "(cbor \<Rightarrow> cbor \<Rightarrow> bool) \<Rightarrow> ('a \<Rightarrow> cbor) \<Rightarrow> 'a \<Rightarrow> bool" where
  "canonical_inj le f x \<longleftrightarrow>
     (\<forall>y w. canonicalize le (f x) = Inr w \<longrightarrow> canonicalize le (f y) = Inr w \<longrightarrow> x = y)"

lemma canonical_injD:
  "canonical_inj le f x \<Longrightarrow> canonicalize le (f x) = Inr w \<Longrightarrow> canonicalize le (f y) = Inr w \<Longrightarrow> x = y"
  by (auto simp: canonical_inj_def)

definition text_keys :: "(cbor \<times> cbor) list \<Rightarrow> bool" where
  "text_keys es \<longleftrightarrow> distinct (map fst es) \<and> list_all (\<lambda>k. case k of VText _ \<Rightarrow> True | _ \<Rightarrow> False) (map fst es)"

lemma text_key_entry:
  "(case fst e of VText _ \<Rightarrow> True | _ \<Rightarrow> False) \<Longrightarrow> canonical_entry le e = Inr d \<longleftrightarrow>
    fst d = fst e \<and> canonicalize le (snd e) = Inr (snd d)"
  by (cases e; cases d; cases "fst e") (auto simp: canonical_entry_def and_then_eq_Inr)

lemma struct_entries:
  assumes "text_keys es" "canonicalize le (VMap es) = Inr w"
  obtains out where "map fst out = map fst es" "w = VMap (sort_by (entry_le le) out)"
    "list_all2 (\<lambda>e d. canonicalize le (snd e) = Inr (snd d)) es out"
proof -
  obtain out where out: "try_map (canonical_entry le) es = Inr out"
      "w = VMap (sort_by (entry_le le) out)"
    using assms(2) unfolding canonicalize_VMap by blast
  have "list_all2 (\<lambda>e d. fst d = fst e \<and> canonicalize le (snd e) = Inr (snd d)) es out"
    using out(1) assms(1) unfolding try_map_list_all2 text_keys_def list_all_iff
    by (auto simp: list_all2_conv_all_nth text_key_entry)
  then show ?thesis
    using out(2) by (intro that [of out]) (auto simp: list_all2_conv_all_nth list_eq_iff_nth_eq)
qed

lemma struct_fields:
  assumes "text_keys es" "map fst es' = map fst es"
    and "canonicalize le (VMap es) = Inr w" "canonicalize le (VMap es') = Inr w"
  shows "list_all2 (\<lambda>e e'. \<exists>v. canonicalize le (snd e) = Inr v \<and> canonicalize le (snd e') = Inr v) es es'"
proof -
  obtain out where out: "map fst out = map fst es" "w = VMap (sort_by (entry_le le) out)"
      "list_all2 (\<lambda>e d. canonicalize le (snd e) = Inr (snd d)) es out"
    using struct_entries [OF assms(1,3)] .
  have "text_keys es'" using assms(1,2) by (simp add: text_keys_def)
  then obtain out' where out': "map fst out' = map fst es'" "w = VMap (sort_by (entry_le le) out')"
      "list_all2 (\<lambda>e d. canonicalize le (snd e) = Inr (snd d)) es' out'"
    using struct_entries [OF _ assms(4)] by blast
  have "set out = set out'" using out(2) out'(2) by (metis cbor.inject(8) set_sort_by)
  then have "out = out'"
    using out(1) out'(1) assms(1,2) by (intro keyed_lists_eq) (simp_all add: text_keys_def)
  then show ?thesis using out(3) out'(3) by (auto simp: list_all2_conv_all_nth)
qed

lemma canonical_inj_VText [simp]: "canonical_inj le VText s"
  by (simp add: canonical_inj_def)

lemma canonical_inj_hash_value: "canonical_inj le hash_value h"
  by (simp add: canonical_inj_def hash_value_def)

lemma array_elements:
  assumes "\<And>x. x \<in> set xs \<Longrightarrow> canonical_inj le f x"
    and "canonicalize le (VArray (map f xs)) = Inr w" "canonicalize le (VArray (map f ys)) = Inr w"
  shows "xs = ys"
proof -
  obtain out where "list_all2 (\<lambda>x y. canonicalize le x = Inr y) (map f xs) out"
      "list_all2 (\<lambda>x y. canonicalize le x = Inr y) (map f ys) out"
    using assms(2,3) unfolding canonicalize_VArray try_map_list_all2 by auto
  then have len: "length xs = length ys"
    and both: "\<And>i. i < length xs \<Longrightarrow>
      \<exists>w. canonicalize le (f (xs ! i)) = Inr w \<and> canonicalize le (f (ys ! i)) = Inr w"
    by (simp_all add: list_all2_conv_all_nth)
  have "xs ! i = ys ! i" if "i < length xs" for i
    using both [OF that] canonical_injD [OF assms(1) [OF nth_mem [OF that]]] by blast
  then show ?thesis using len by (intro nth_equalityI) simp_all
qed

lemma canonicalize_single:
  "canonicalize le (VMap [(VText a, v)]) = and_then (canonicalize le v) (\<lambda>w. Inr (VMap [(VText a, w)]))"
  by (cases "canonicalize le v") simp_all

lemma canonicalize_variant:
  assumes "canonicalize le (VMap [(VText a, v)]) = Inr w" "canonicalize le (VMap [(VText b, u)]) = Inr w"
  shows "a = b \<and> (\<exists>x. canonicalize le v = Inr x \<and> canonicalize le u = Inr x)"
  using assms unfolding canonicalize_single and_then_eq_Inr by auto

lemma VMap_not_VText: "canonicalize le (VMap es) = Inr w \<Longrightarrow> w \<noteq> VText t"
  by (auto simp: canonicalize_VMap simp del: canonicalize.simps)

declare canonicalize.simps(2) [simp del]

lemma matcher_inj: "canonical_inj le matcher_value m"
proof (induction m)
  case Any
  show ?case
    unfolding canonical_inj_def
  proof (intro allI impI)
    fix y w assume "canonicalize le (matcher_value Any) = Inr w" "canonicalize le (matcher_value y) = Inr w"
    then show "Any = y" by (cases y) (auto dest: VMap_not_VText)
  qed
next
  case (Path p)
  show ?case
    unfolding canonical_inj_def
  proof (intro allI impI)
    fix y w assume w: "canonicalize le (matcher_value (Path p)) = Inr w"
      "canonicalize le (matcher_value y) = Inr w"
    then show "Path p = y"
      by (cases y) (auto dest: VMap_not_VText canonicalize_variant)
  qed
next
  case (ModelAlias p)
  show ?case
    unfolding canonical_inj_def
  proof (intro allI impI)
    fix y w assume w: "canonicalize le (matcher_value (ModelAlias p)) = Inr w"
      "canonicalize le (matcher_value y) = Inr w"
    then show "ModelAlias p = y"
      by (cases y) (auto dest: VMap_not_VText canonicalize_variant)
  qed
next
  case (Header n v)
  have keys: "text_keys [(VText ''name'', VText n), (VText ''value'', VText v)]" for n v
    by (simp add: text_keys_def)
  show ?case
    unfolding canonical_inj_def
  proof (intro allI impI)
    fix y w assume w: "canonicalize le (matcher_value (Header n v)) = Inr w"
      "canonicalize le (matcher_value y) = Inr w"
    then obtain n' v' where y: "y = Header n' v'"
      by (cases y) (auto dest: VMap_not_VText canonicalize_variant)
    obtain x where x: "canonicalize le (VMap [(VText ''name'', VText n), (VText ''value'', VText v)]) = Inr x"
        "canonicalize le (VMap [(VText ''name'', VText n'), (VText ''value'', VText v')]) = Inr x"
      using canonicalize_variant [OF w [unfolded y matcher_value.simps]] by blast
    show "Header n v = y"
      using struct_fields [OF keys _ x] unfolding y by simp
  qed
next
  case (All ms)
  show ?case
    unfolding canonical_inj_def
  proof (intro allI impI)
    fix y w assume w: "canonicalize le (matcher_value (All ms)) = Inr w"
      "canonicalize le (matcher_value y) = Inr w"
    then obtain ms' where y: "y = All ms'"
      by (cases y) (auto dest: VMap_not_VText canonicalize_variant)
    obtain x where "canonicalize le (VArray (map matcher_value ms)) = Inr x"
        "canonicalize le (VArray (map matcher_value ms')) = Inr x"
      using canonicalize_variant [OF w [unfolded y matcher_value.simps]] by blast
    then have "ms = ms'" using All by (intro array_elements [of ms le matcher_value]) auto
    then show "All ms = y" using y by simp
  qed
qed

lemma risk_class_value_inj: "risk_class_as_str a = risk_class_as_str b \<longleftrightarrow> a = b"
  by (rule risk_class_wire.as_str_eq_iff)

lemma route_inj: "canonical_inj le route_value r"
  unfolding canonical_inj_def
proof (intro allI impI)
  fix y w assume w: "canonicalize le (route_value r) = Inr w" "canonicalize le (route_value y) = Inr w"
  let ?es = "\<lambda>r. [(VText ''matcher'', matcher_value (ro_matcher r)),
      (VText ''model_id'', VText (ro_model_id r)),
      (VText ''model_version'', VText (ro_model_version r)),
      (VText ''prompt_id'', VText (ro_prompt_id r)),
      (VText ''prompt_version'', VText (ro_prompt_version r)),
      (VText ''prompt_hash'', hash_value (ro_prompt_hash r))]"
  have keys: "text_keys (?es r)" by (simp add: text_keys_def)
  have fs: "list_all2 (\<lambda>e e'. \<exists>v. canonicalize le (snd e) = Inr v \<and> canonicalize le (snd e') = Inr v)
      (?es r) (?es y)"
    by (rule struct_fields [OF keys _ w [unfolded route_value_def]]) simp
  have m: "\<exists>v. canonicalize le (matcher_value (ro_matcher r)) = Inr v \<and>
        canonicalize le (matcher_value (ro_matcher y)) = Inr v"
    and rest: "ro_model_id r = ro_model_id y" "ro_model_version r = ro_model_version y"
      "ro_prompt_id r = ro_prompt_id y" "ro_prompt_version r = ro_prompt_version y"
      "ro_prompt_hash r = ro_prompt_hash y"
    using fs by (simp_all add: hash_value_def)
  have "ro_matcher r = ro_matcher y"
    using m canonical_injD [OF matcher_inj [of le "ro_matcher r"]] by blast
  then show "r = y" using rest by simp
qed

lemma system_inj: "canonical_inj le system_value s"
  unfolding canonical_inj_def
proof (intro allI impI)
  fix y w assume w: "canonicalize le (system_value s) = Inr w" "canonicalize le (system_value y) = Inr w"
  let ?es = "\<lambda>s. [(VText ''system_id'', VText (sy_system_id s)),
      (VText ''system_version'', VText (sy_system_version s)),
      (VText ''ifu_version'', VText (sy_ifu_version s)),
      (VText ''risk_class'', VText (risk_class_as_str (sy_risk_class s))),
      (VText ''policy_id'', VText (sy_policy_id s)),
      (VText ''policy_version'', VText (sy_policy_version s)),
      (VText ''routes'', VArray (map route_value (sy_routes s))),
      (VText ''default_route'', VInteger (int (sy_default_route s)))]"
  have keys: "text_keys (?es s)" by (simp add: text_keys_def)
  have fs: "list_all2 (\<lambda>e e'. \<exists>v. canonicalize le (snd e) = Inr v \<and> canonicalize le (snd e') = Inr v)
      (?es s) (?es y)"
    by (rule struct_fields [OF keys _ w [unfolded system_value_def]]) simp
  have routes: "\<exists>v. canonicalize le (VArray (map route_value (sy_routes s))) = Inr v \<and>
        canonicalize le (VArray (map route_value (sy_routes y))) = Inr v"
    and rest: "sy_system_id s = sy_system_id y" "sy_system_version s = sy_system_version y"
      "sy_ifu_version s = sy_ifu_version y" "sy_risk_class s = sy_risk_class y"
      "sy_policy_id s = sy_policy_id y" "sy_policy_version s = sy_policy_version y"
      "sy_default_route s = sy_default_route y"
    using fs unfolding list_all2_Cons snd_conv canonicalize.simps(4-)
    by (simp_all add: risk_class_value_inj del: canonicalize.simps(3))
  have "sy_routes s = sy_routes y" 
    using routes array_elements [OF route_inj, of le "sy_routes s" _ "sy_routes y"] by blast
  then show "s = y" using rest by simp
qed

lemma key_inj: "canonical_inj le key_value k"
  unfolding canonical_inj_def
proof (intro allI impI)
  fix y w assume w: "canonicalize le (key_value k) = Inr w" "canonicalize le (key_value y) = Inr w"
  let ?es = "\<lambda>k. [(VText ''key_hash'', hash_value (kb_key_hash k)),
      (VText ''tenant_id'', VText (kb_tenant_id k)), (VText ''system_id'', VText (kb_system_id k))]"
  have "text_keys (?es k)" by (simp add: text_keys_def)
  from struct_fields [OF this _ w [unfolded key_value_def]] show "k = y"
    by (intro key_binding_spec.equality) (auto simp: hash_value_def)
qed

lemma content_inj:
  assumes "snapshot_content_value c = Inr v" "snapshot_content_value d = Inr v'"
    and "canonicalize le v = Inr w" "canonicalize le v' = Inr w"
  shows "c = d"
proof -
  let ?es = "\<lambda>c. [(VText ''gateway_version'', VText (sv_gateway_version c)),
      (VText ''systems'', VArray (map system_value (sv_systems c))),
      (VText ''keys'', VArray (map key_value (sv_keys c)))]"
  have v: "v = VMap (?es c)" "v' = VMap (?es d)"
    using assms(1,2) by (simp_all add: snapshot_content_value_def)
  have "text_keys (?es c)" by (simp add: text_keys_def)
  from struct_fields [OF this _ assms(3,4) [unfolded v]]
  have f: "sv_gateway_version c = sv_gateway_version d"
      "\<exists>v. canonicalize le (VArray (map system_value (sv_systems c))) = Inr v \<and>
        canonicalize le (VArray (map system_value (sv_systems d))) = Inr v"
      "\<exists>v. canonicalize le (VArray (map key_value (sv_keys c))) = Inr v \<and>
        canonicalize le (VArray (map key_value (sv_keys d))) = Inr v"
    by (simp_all del: canonicalize.simps(3))
  have "sv_systems c = sv_systems d" using f(2) array_elements [OF system_inj, of le "sv_systems c" _ "sv_systems d"] by blast
  moreover have "sv_keys c = sv_keys d" using f(3) array_elements [OF key_inj, of le "sv_keys c" _ "sv_keys d"] by blast
  ultimately show ?thesis using f(1) by simp
qed

section \<open>Envelopes\<close>

lemma spec_hash_eq_Inr:
  "spec_hash P spec = Inr h \<longleftrightarrow>
    (\<exists>x. encode P snapshot_content_value (content_view spec) = Inr x \<and> h = digest P x)"
  by (simp add: spec_hash_def content_hash_eq_Inr)

lemma spec_hash_binds:
  assumes "encode P snapshot_content_value (content_view a) = Inr x"
    "encode P snapshot_content_value (content_view b) = Inr y"
    and "written_apart P snapshot_content_value [content_view a, content_view b]"
    and "collision_free (digest P) [x, y]" "digest P x = digest P y"
  shows "content_view a = content_view b"
proof -
  have "x = y" using collision_freeD [OF assms(4,5)] by simp
  then have b: "encode P snapshot_content_value (content_view b) = Inr x" using assms(2) by simp
  obtain v v' w where "snapshot_content_value (content_view a) = Inr v"
      "snapshot_content_value (content_view b) = Inr v'"
      "canonicalize (key_le P) v = Inr w" "canonicalize (key_le P) v' = Inr w"
    using written_apartD [OF assms(3) _ _ assms(1) b] unfolding set_simps by blast
  then show ?thesis by (rule content_inj)
qed

lemma collision_free_pair: "H x \<noteq> H y \<Longrightarrow> collision_free H [x, y]"
  unfolding collision_free_def list.pred_inject by (simp add: eq_commute [of "H y"])

lemma written_apart_pair: "encode P ser x \<noteq> encode P ser y \<Longrightarrow> written_apart P ser [x, y]"
  unfolding written_apart_def list.pred_inject by (simp add: eq_commute [of "encode P ser y"])

lemma encode_eqI:
  "ser x = Inr v \<Longrightarrow> canonicalize (key_le P) v = Inr w \<Longrightarrow> into_writer P w = Inr b \<Longrightarrow>
    encode P ser x = Inr b"
  unfolding encode_eq_Inr by blast

lemma content_view_eq_iff:
  "content_view a = content_view b \<longleftrightarrow>
    ss_gateway_version a = ss_gateway_version b \<and> ss_systems a = ss_systems b \<and> ss_keys a = ss_keys b"
  by (simp add: content_view_def)

lemma envelope_verify_eq_Inr:
  "envelope_verify P env = Inr u \<longleftrightarrow>
    ss_generation (env_spec env) = env_generation env \<and>
    spec_hash P (env_spec env) = Inr (env_content_hash env)"
  by (auto simp: envelope_verify_def and_then_eq_Inr split: if_splits)

lemma install_eq_Inr:
  "install P now env = Inr snap \<longleftrightarrow>
    envelope_verify P env = Inr () \<and> build P now (env_spec env) = Inr snap"
  by (simp add: install_def and_then_eq_Inr)

section \<open>A concrete instance for examples\<close>

definition demo_system :: "string \<Rightarrow> system_config_spec" where
  "demo_system model =
     \<lparr>sy_system_id = ''a'', sy_system_version = ''1'', sy_ifu_version = ''1'', sy_risk_class = High,
      sy_policy_id = ''p'', sy_policy_version = ''none'',
      sy_routes = [\<lparr>ro_matcher = Any, ro_model_id = model, ro_model_version = ''v'',
        ro_prompt_id = ''q'', ro_prompt_version = ''w'', ro_prompt_hash = GENESIS\<rparr>],
      sy_default_route = 0\<rparr>"

definition demo_spec :: "u64 \<Rightarrow> snapshot_spec" where
  "demo_spec g =
     \<lparr>ss_generation = g, ss_gateway_version = ''g'', ss_systems = [demo_system ''m''],
      ss_keys = [\<lparr>kb_key_hash = GENESIS, kb_tenant_id = ''t'', kb_system_id = ''a''\<rparr>]\<rparr>"

lemma demo_spec_hashes: "\<exists>h. spec_hash (demo_prims []) (demo_spec g) = Ok h"
proof -
  have "(\<lambda>r. case r of Inl _ \<Rightarrow> False | Inr v \<Rightarrow> (case canonicalize demo_key_le v of Inl _ \<Rightarrow> False | Inr _ \<Rightarrow> True))
      (snapshot_content_value (content_view (demo_spec 0)))"
    by code_simp
  moreover have "content_view (demo_spec g) = content_view (demo_spec 0)"
    by (simp add: content_view_def demo_spec_def)
  ultimately show ?thesis
    unfolding spec_hash_eq_Inr encode_eq_Inr by (auto split: sum.splits)
qed

lemma demo_spec_ok [simp]: "spec_ok (demo_spec g)"
  by (simp add: spec_ok_def system_spec_ok_def demo_spec_def demo_system_def)

definition demo_snapshot :: "u64 \<Rightarrow> timestamp \<Rightarrow> config_snapshot" where
  "demo_snapshot g clock =
     (case build (demo_prims []) clock (demo_spec g) of Inr snap \<Rightarrow> snap | Inl _ \<Rightarrow> empty_snapshot 0)"

lemma demo_builds: "build (demo_prims []) clock (demo_spec g) = Ok (demo_snapshot g clock)"
proof -
  obtain snap where "build (demo_prims []) clock (demo_spec g) = Ok snap"
    using demo_spec_hashes [of g] unfolding build_eq_Inr by auto
  then show ?thesis by (simp add: demo_snapshot_def)
qed

lemma demo_snapshot_simps [simp]:
  "cfg_generation (demo_snapshot g clock) = g"
  "cfg_systems (demo_snapshot g clock) = [''a'' \<mapsto> build_system (demo_system ''m'')]"
  "cfg_keys (demo_snapshot g clock) = [GENESIS \<mapsto> \<lparr>b_tenant_id = ''t'', b_system_id = ''a''\<rparr>]"
  using demo_builds [of clock g] unfolding build_eq_Inr
  by (auto simp: demo_spec_def demo_system_def build_binding_def)

section \<open>Properties\<close>

text \<open>
  C40. Building a snapshot succeeds exactly on well-formed specs that can be hashed (every system
  with routes and an in-bounds default route, no system id or key hash twice, every key bound to
  a system of the spec), and what it builds satisfies the invariant the resolver indexes by:
  systems are filed under their own id, default routes are in bounds, no key dangles.
\<close>

theorem snapshot_build_exact:
  "((\<exists>snap. build P now spec = Ok snap) \<longleftrightarrow> (\<exists>h. spec_hash P spec = Ok h) \<and> spec_ok spec) \<and>
   (build P now spec = Ok snap \<longrightarrow> snapshot_ok snap \<and> spec_hash P spec = Ok (cfg_content_hash snap))"
  using built_snapshot_ok [of P now spec snap] by (auto simp: build_eq_Inr)

theorem snapshot_build_exact_witness:
  "build (demo_prims []) 0 (demo_spec 3) = Ok (demo_snapshot 3 0) \<and> snapshot_ok (demo_snapshot 3 0)"
  using snapshot_build_exact [of "demo_prims []" 0 "demo_spec 3" "demo_snapshot 3 0"] demo_builds
  by blast

text \<open>
  The content hash identifies the configuration and nothing else: two specs hash alike
  exactly when they agree on the gateway version, on every system with all its routes and
  matchers, and on every key binding (whatever their generations), if the writer keeps the two
  contents apart and the hash does not collide on them.
\<close>

theorem content_hash_identifies:
  assumes "encode P snapshot_content_value (content_view a) = Ok x"
    "encode P snapshot_content_value (content_view b) = Ok y"
    and "written_apart P snapshot_content_value [content_view a, content_view b]"
    and "collision_free (digest P) [x, y]"
  shows "spec_hash P a = spec_hash P b \<longleftrightarrow>
    ss_gateway_version a = ss_gateway_version b \<and> ss_systems a = ss_systems b \<and> ss_keys a = ss_keys b"
proof
  assume "spec_hash P a = spec_hash P b"
  moreover have "spec_hash P a = Ok (digest P x)" "spec_hash P b = Ok (digest P y)"
    using assms(1,2) unfolding spec_hash_eq_Inr by blast+
  ultimately have "digest P x = digest P y" by simp
  then show "ss_gateway_version a = ss_gateway_version b \<and> ss_systems a = ss_systems b \<and> ss_keys a = ss_keys b"
    using spec_hash_binds [OF assms] unfolding content_view_eq_iff by blast
next
  assume "ss_gateway_version a = ss_gateway_version b \<and> ss_systems a = ss_systems b \<and> ss_keys a = ss_keys b"
  then have "content_view a = content_view b" unfolding content_view_eq_iff .
  then show "spec_hash P a = spec_hash P b" by (simp add: spec_hash_def)
qed

theorem content_hash_identifies_witness:
  "let a = \<lparr>ss_generation = 1, ss_gateway_version = ''g'', ss_systems = [], ss_keys = []\<rparr>;
       b = \<lparr>ss_generation = 2, ss_gateway_version = ''h'', ss_systems = [], ss_keys = []\<rparr> in
   \<not> spec_hash (demo_prims []) a = spec_hash (demo_prims []) b"
proof -
  let ?a = "\<lparr>ss_generation = 1, ss_gateway_version = ''g'', ss_systems = [], ss_keys = []\<rparr>"
  let ?b = "\<lparr>ss_generation = 2, ss_gateway_version = ''h'', ss_systems = [], ss_keys = []\<rparr>"
  let ?w = "\<lambda>v. VMap [(VText ''keys'', VArray []), (VText ''systems'', VArray []),
    (VText ''gateway_version'', VText v)]"
  have form: "canonicalize demo_key_le (VMap [(VText ''gateway_version'', VText ''g''),
        (VText ''systems'', VArray []), (VText ''keys'', VArray [])]) = Ok (?w ''g'')"
     "canonicalize demo_key_le (VMap [(VText ''gateway_version'', VText ''h''),
        (VText ''systems'', VArray []), (VText ''keys'', VArray [])]) = Ok (?w ''h'')"
    by code_simp+
  have enc: "encode (demo_prims []) snapshot_content_value (content_view ?a) = Ok (demo_write (?w ''g''))"
    "encode (demo_prims []) snapshot_content_value (content_view ?b) = Ok (demo_write (?w ''h''))"
    by (rule encode_eqI [where P = "demo_prims []", unfolded demo_prims_simps, OF _ form(1)];
        simp add: snapshot_content_value_def content_view_def)
      (rule encode_eqI [where P = "demo_prims []", unfolded demo_prims_simps, OF _ form(2)];
        simp add: snapshot_content_value_def content_view_def)
  have "mini_hash (demo_write (?w ''g'')) \<noteq> mini_hash (demo_write (?w ''h''))"
    by (simp add: mini_hash_simps str_bytes_def byte_of_def of_char_def)
  then have free: "collision_free (digest (demo_prims [])) [demo_write (?w ''g''), demo_write (?w ''h'')]"
    unfolding demo_prims_simps by (rule collision_free_pair)
  have ne: "demo_write (?w ''g'') \<noteq> demo_write (?w ''h'')" by simp
  have "written_apart (demo_prims []) snapshot_content_value [content_view ?a, content_view ?b]"
    by (rule written_apart_pair) (use ne in \<open>simp only: enc sum.inject\<close>, simp)
  from content_hash_identifies [OF enc this free] show ?thesis by (simp add: Let_def)
qed

text \<open>
  A tampered envelope is refused: if the envelope of a spec is sealed and its spec is then
  replaced, the receiver installs it only when the replacement is the same spec, generation and
  contents; what is installed carries the envelope's generation and content hash and satisfies
  the snapshot invariant.
\<close>

theorem tampered_envelope_refused:
  assumes "seal_now P spec = Ok env" "install P now (env\<lparr>env_spec := spec'\<rparr>) = Ok snap"
    and "written_apart P snapshot_content_value [content_view spec, content_view spec']"
    and "\<And>x y. encode P snapshot_content_value (content_view spec) = Ok x \<Longrightarrow>
      encode P snapshot_content_value (content_view spec') = Ok y \<Longrightarrow> collision_free (digest P) [x, y]"
  shows "spec' = spec \<and> snapshot_ok snap \<and> cfg_generation snap = env_generation env \<and>
    cfg_content_hash snap = env_content_hash env"
proof -
  obtain h where h: "spec_hash P spec = Ok h" "env = envelope_seal spec h"
    using assms(1) by (auto simp: seal_now_def and_then_eq_Inr)
  have v: "ss_generation spec' = ss_generation spec" "spec_hash P spec' = Ok h"
    and b: "build P now spec' = Ok snap"
    using assms(2) unfolding install_eq_Inr envelope_verify_eq_Inr by (auto simp: h(2) envelope_seal_def)
  obtain x y where xy: "encode P snapshot_content_value (content_view spec) = Ok x" "h = digest P x"
      "encode P snapshot_content_value (content_view spec') = Ok y" "h = digest P y"
    using h(1) v(2) unfolding spec_hash_eq_Inr by blast
  have "content_view spec = content_view spec'"
    using xy by (intro spec_hash_binds [OF xy(1,3) assms(3) assms(4) [OF xy(1,3)]]) simp
  then have "spec' = spec" using v(1) unfolding content_view_eq_iff by simp
  then show ?thesis
    using built_snapshot_ok [OF b] b h v by (auto simp: build_eq_Inr envelope_seal_def)
qed

theorem tampered_envelope_refused_witness:
  "let spec = \<lparr>ss_generation = 7, ss_gateway_version = ''g'', ss_systems = [], ss_keys = []\<rparr> in
   \<exists>env snap. seal_now (demo_prims []) spec = Ok env \<and> install (demo_prims []) 0 env = Ok snap \<and>
     snapshot_ok snap \<and> cfg_generation snap = env_generation env"
proof -
  let ?spec = "\<lparr>ss_generation = 7, ss_gateway_version = ''g'', ss_systems = [], ss_keys = []\<rparr>"
  have "canonicalize demo_key_le (VMap [(VText ''gateway_version'', VText ''g''),
        (VText ''systems'', VArray []), (VText ''keys'', VArray [])]) =
      Ok (VMap [(VText ''keys'', VArray []), (VText ''systems'', VArray []),
        (VText ''gateway_version'', VText ''g'')])"
    by code_simp
  then obtain x where x: "encode (demo_prims []) snapshot_content_value (content_view ?spec) = Ok x"
    by (auto simp: encode_eq_Inr snapshot_content_value_def content_view_def)
  then have h: "spec_hash (demo_prims []) ?spec = Ok (mini_hash x)"
    unfolding spec_hash_eq_Inr by simp
  then obtain env where env: "seal_now (demo_prims []) ?spec = Ok env"
      "env = envelope_seal ?spec (mini_hash x)"
    by (simp add: seal_now_def)
  obtain snap where b: "build (demo_prims []) 0 ?spec = Ok snap"
    using h by (simp add: build_eq_Inr spec_ok_def)
  have i: "install (demo_prims []) 0 (env\<lparr>env_spec := ?spec\<rparr>) = Ok snap"
    unfolding install_eq_Inr envelope_verify_eq_Inr using env b h by (simp add: envelope_seal_def)
  have "written_apart (demo_prims []) snapshot_content_value [content_view ?spec, content_view ?spec]"
    by (simp add: written_apart_def)
  moreover have "collision_free (digest (demo_prims [])) [y, z]"
    if "encode (demo_prims []) snapshot_content_value (content_view ?spec) = Ok y"
      "encode (demo_prims []) snapshot_content_value (content_view ?spec) = Ok z" for y z
    using that by (simp add: collision_free_def)
  ultimately have "snapshot_ok snap \<and> cfg_generation snap = env_generation env"
    using tampered_envelope_refused [OF env(1) i] by blast
  moreover have "env\<lparr>env_spec := ?spec\<rparr> = env" using env(2) by (simp add: envelope_seal_def)
  ultimately show ?thesis using env(1) i unfolding Let_def by metis
qed

text \<open>
  The order in which the control plane assembles a spec does not reach the hash: after
  \<open>canonicalize_order\<close>, two specs with the same systems and the same keys (no id and no key hash
  twice) in any order hash alike, and ordering again changes nothing.
\<close>

theorem assembly_order_irrelevant:
  assumes "mset (ss_systems a) = mset (ss_systems b)" "mset (ss_keys a) = mset (ss_keys b)"
    and "ss_gateway_version a = ss_gateway_version b"
    and "distinct (map sy_system_id (ss_systems a))" "distinct (map kb_key_hash (ss_keys a))"
  shows "spec_hash P (canonicalize_order a) = spec_hash P (canonicalize_order b) \<and>
    canonicalize_order (canonicalize_order a) = canonicalize_order a"
proof -
  have "content_view (canonicalize_order a) = content_view (canonicalize_order b)"
    unfolding content_view_eq_iff using canonicalize_order_perm [OF assms(1,2,4,5)] assms(3)
    by (simp add: canonicalize_order_def)
  then show ?thesis by (simp add: spec_hash_def canonicalize_order_idem)
qed

theorem assembly_order_irrelevant_witness:
  "let k1 = \<lparr>kb_key_hash = GENESIS, kb_tenant_id = ''t'', kb_system_id = ''a''\<rparr>;
       k2 = \<lparr>kb_key_hash = from_bytes [1], kb_tenant_id = ''t'', kb_system_id = ''b''\<rparr>;
       a = \<lparr>ss_generation = 1, ss_gateway_version = ''g'', ss_systems = [], ss_keys = [k1, k2]\<rparr>;
       b = \<lparr>ss_generation = 2, ss_gateway_version = ''g'', ss_systems = [], ss_keys = [k2, k1]\<rparr> in
   spec_hash (demo_prims []) (canonicalize_order a) = spec_hash (demo_prims []) (canonicalize_order b)"
proof -
  let ?k1 = "\<lparr>kb_key_hash = GENESIS, kb_tenant_id = ''t'', kb_system_id = ''a''\<rparr>"
  let ?k2 = "\<lparr>kb_key_hash = from_bytes [1], kb_tenant_id = ''t'', kb_system_id = ''b''\<rparr>"
  have "GENESIS \<noteq> from_bytes [1]" by (simp add: GENESIS_def mini_hash_simps)
  then show ?thesis
    using assembly_order_irrelevant
      [of "\<lparr>ss_generation = 1, ss_gateway_version = ''g'', ss_systems = [], ss_keys = [?k1, ?k2]\<rparr>"
          "\<lparr>ss_generation = 2, ss_gateway_version = ''g'', ss_systems = [], ss_keys = [?k2, ?k1]\<rparr>"
          "demo_prims []"]
    by simp
qed

end
