(* ===== verification/Resolver.thy ===== *)
theory Resolver
  imports Config
begin

text \<open>
  \<open>crates/ancre-resolver/src/{lib,staleness,prompts}.rs\<close>: the pin resolver.

  A monotonic \<open>Instant\<close> and a \<open>Duration\<close> are nanoseconds, and the instant at which an operation
  runs is its argument. The resolver's state is what its \<open>ArcSwap\<close> holds: the snapshot with
  the instant it was installed at, swapped together. \<open>None\<close> as the result of \<open>resolve\<close> is the
  panic of an out-of-bounds index.
\<close>

section \<open>Staleness\<close>

type_synonym instant = nat
type_synonym duration = nat

datatype freshness = Fresh | Stale | ColdStart

record staleness_policy =
  sp_budget :: duration
  sp_fail_closed_on_stale :: bool

definition DEFAULT_STALENESS_BUDGET :: duration where
  "DEFAULT_STALENESS_BUDGET = 30 * 10 ^ 9"

definition DEFAULT_POLL_INTERVAL :: duration where
  "DEFAULT_POLL_INTERVAL = 10 * 10 ^ 9"

definition default_policy :: staleness_policy where
  "default_policy = \<lparr>sp_budget = DEFAULT_STALENESS_BUDGET, sp_fail_closed_on_stale = True\<rparr>"

definition policy_freshness :: "staleness_policy \<Rightarrow> instant \<Rightarrow> instant \<Rightarrow> freshness" where
  "policy_freshness policy loaded_at now =
     (if now - loaded_at > sp_budget policy then Stale else Fresh)"

fun admits :: "staleness_policy \<Rightarrow> freshness \<Rightarrow> risk_class \<Rightarrow> bool" where
  "admits policy Fresh risk \<longleftrightarrow> True"
| "admits policy ColdStart risk \<longleftrightarrow> False"
| "admits policy Stale risk \<longleftrightarrow> \<not> (sp_fail_closed_on_stale policy \<and> fails_closed_by_default risk)"

section \<open>Resolution\<close>

record loaded =
  ld_snap :: config_snapshot
  ld_loaded_at :: instant
  ld_cold :: bool

record pin_resolver =
  pr_current :: loaded
  pr_policy :: staleness_policy

datatype resolve_error =
    UnknownKey
  | UnknownSystem string
  | StaleConfigFailClosed u64
  | ColdStartError

fun resolve_http_status :: "resolve_error \<Rightarrow> u16" where
  "resolve_http_status UnknownKey = 401"
| "resolve_http_status (UnknownSystem _) = 500"
| "resolve_http_status (StaleConfigFailClosed _) = 503"
| "resolve_http_status ColdStartError = 503"

text \<open>A resolver created at instant \<open>now\<close>; \<open>built\<close> is the system clock read by \<open>empty\<close>.\<close>

definition cold :: "staleness_policy \<Rightarrow> timestamp \<Rightarrow> instant \<Rightarrow> pin_resolver" where
  "cold policy built now =
     \<lparr>pr_current = \<lparr>ld_snap = empty_snapshot built, ld_loaded_at = now, ld_cold = True\<rparr>,
      pr_policy = policy\<rparr>"

text \<open>
  \<open>find\<close> the first matching route, or the default one, which is indexed before it is needed.
\<close>

definition pick_route :: "system_config \<Rightarrow> ingress_meta \<Rightarrow> route option" where
  "pick_route sys req =
     (if sc_default_route sys < length (sc_routes sys) then
        Some (case find (\<lambda>r. matches (rt_matcher r) req) (sc_routes sys) of
                Some r \<Rightarrow> r | None \<Rightarrow> sc_routes sys ! sc_default_route sys)
      else None)"

definition resolved_flags :: "bool \<Rightarrow> ingress_meta \<Rightarrow> risk_flag list" where
  "resolved_flags stale req =
     (let flags = (if stale then [StaleConfig] else []) in
      if \<not> overrides_empty (im_overrides req) then flags @ [PinOverridden] else flags)"

definition resolved_pins ::
    "config_snapshot \<Rightarrow> system_config \<Rightarrow> route \<Rightarrow> bool \<Rightarrow> ingress_meta \<Rightarrow> pins" where
  "resolved_pins snap sys route' stale req =
     (let model_version = (case po_model_version (im_overrides req) of
            None \<Rightarrow> rt_model_version route' | Some v \<Rightarrow> v);
          prompt_version = (case po_prompt_version (im_overrides req) of
            None \<Rightarrow> rt_prompt_version route' | Some v \<Rightarrow> v)
      in \<lparr>p_config_generation = cfg_generation snap, p_config_hash = cfg_content_hash snap,
          p_system_id = sc_system_id sys, p_system_version = sc_system_version sys,
          p_ifu_version = sc_ifu_version sys, p_model_id = rt_model_id route',
          p_model_version = model_version, p_prompt_id = rt_prompt_id route',
          p_prompt_version = prompt_version, p_policy_id = sc_policy_id sys,
          p_policy_version = sc_policy_version sys, p_gateway_version = cfg_gateway_version snap,
          p_risk_class = sc_risk_class sys, p_resolved_stale = stale,
          p_risk_flags = resolved_flags stale req\<rparr>)"

definition resolve :: "pin_resolver \<Rightarrow> ingress_meta \<Rightarrow> instant \<Rightarrow> (pins, resolve_error) result option" where
  "resolve r req now =
     (let cur = pr_current r in
      if ld_cold cur then Some (Err ColdStartError)
      else
        let snap = ld_snap cur in
        case key_binding_of snap (im_api_key_hash req) of
          None \<Rightarrow> Some (Err UnknownKey)
        | Some binding \<Rightarrow>
            (case system snap (b_system_id binding) of
               None \<Rightarrow> Some (Err (UnknownSystem (b_system_id binding)))
             | Some sys \<Rightarrow>
                 let f = policy_freshness (pr_policy r) (ld_loaded_at cur) now in
                 if \<not> admits (pr_policy r) f (sc_risk_class sys)
                 then Some (Err (StaleConfigFailClosed (cfg_generation snap)))
                 else
                   let stale = (f = Stale) in
                   case pick_route sys req of
                     None \<Rightarrow> None
                   | Some route' \<Rightarrow> Some (Ok (resolved_pins snap sys route' stale req))))"

definition confirm_fresh :: "pin_resolver \<Rightarrow> instant \<Rightarrow> pin_resolver" where
  "confirm_fresh r now =
     (let cur = pr_current r in
      if ld_cold cur then r
      else r\<lparr>pr_current := \<lparr>ld_snap = ld_snap cur, ld_loaded_at = now, ld_cold = False\<rparr>\<rparr>)"

definition resolver_generation :: "pin_resolver \<Rightarrow> u64" where
  "resolver_generation r = cfg_generation (ld_snap (pr_current r))"

definition is_cold :: "pin_resolver \<Rightarrow> bool" where
  "is_cold r = ld_cold (pr_current r)"

definition freshness_now :: "pin_resolver \<Rightarrow> instant \<Rightarrow> freshness" where
  "freshness_now r now =
     (let cur = pr_current r in
      if ld_cold cur then ColdStart else policy_freshness (pr_policy r) (ld_loaded_at cur) now)"

text \<open>The swap of \<open>reload\<close>; the outcome it returns beside it is in the theory of the diff.\<close>

definition store_next :: "pin_resolver \<Rightarrow> config_snapshot \<Rightarrow> instant \<Rightarrow> pin_resolver" where
  "store_next r next now =
     r\<lparr>pr_current := \<lparr>ld_snap = next, ld_loaded_at = now, ld_cold = False\<rparr>\<rparr>"

section \<open>Prompt bodies\<close>

text \<open>
  The cache is the \<open>moka\<close> crate's, an argument: only its insertion is called here.
\<close>

datatype prompt_error = PromptHashMismatch hash32 hash32

definition insert_verified ::
    "hash_fn \<Rightarrow> (hash32 \<Rightarrow> string \<Rightarrow> 'c \<Rightarrow> 'c) \<Rightarrow> hash32 \<Rightarrow> string \<Rightarrow> 'c \<Rightarrow> 'c \<times> (string, prompt_error) result"
where
  "insert_verified H ins h body cache =
     (let actual = hash_bytes H (str_bytes body) in
      if actual \<noteq> h then (cache, Err (PromptHashMismatch h actual))
      else (ins h body cache, Ok body))"

text \<open>
  A weigher of the cache: the body's length, saturating.
\<close>

definition prompt_weight :: "string \<Rightarrow> u32" where
  "prompt_weight v = u32_or_max (length v)"

section \<open>The resolver as a state machine\<close>

text \<open>
  What happens to a resolver after it is created: a snapshot that was built is installed, or
  the control plane confirms the one it has. Reading does not change it. A run carries the last
  instant at which the control plane was heard, which only these two operations move.
\<close>

inductive resolver_run :: "canon_prims \<Rightarrow> staleness_policy \<Rightarrow> pin_resolver \<Rightarrow> instant \<Rightarrow> bool"
  for P :: canon_prims and policy :: staleness_policy where
  run_cold: "resolver_run P policy (cold policy built now) now"
| run_reload: "resolver_run P policy r heard \<Longrightarrow> build P clock spec = Ok next \<Longrightarrow>
    resolver_run P policy (store_next r next now) now"
| run_confirm: "resolver_run P policy r heard \<Longrightarrow>
    resolver_run P policy (confirm_fresh r now) (if is_cold r then heard else now)"

text \<open>The invariant: nothing is served cold, and what is served was built.\<close>

definition resolver_ok :: "staleness_policy \<Rightarrow> pin_resolver \<Rightarrow> instant \<Rightarrow> bool" where
  "resolver_ok policy r heard \<longleftrightarrow>
     pr_policy r = policy \<and> snapshot_ok (ld_snap (pr_current r)) \<and> ld_loaded_at (pr_current r) = heard"

lemma empty_snapshot_ok [simp]: "snapshot_ok (empty_snapshot built)"
  by (simp add: snapshot_ok_def empty_snapshot_def)

lemma resolver_run_ok: "resolver_run P policy r heard \<Longrightarrow> resolver_ok policy r heard"
proof (induction rule: resolver_run.induct)
  case (run_reload r heard clock spec "next" now)
  then show ?case by (auto simp: resolver_ok_def store_next_def dest: built_snapshot_ok)
qed (auto simp: resolver_ok_def cold_def confirm_fresh_def is_cold_def Let_def)

lemma bound_system:
  assumes "snapshot_ok snap" "cfg_keys snap h = Some b"
  obtains sys where "cfg_systems snap (b_system_id b) = Some sys" "sc_system_id sys = b_system_id b"
    "sc_default_route sys < length (sc_routes sys)"
  using assms unfolding snapshot_ok_def by blast

text \<open>First match wins.\<close>

lemma pick_route_eq_Some:
  assumes "sc_default_route sys < length (sc_routes sys)"
  shows "\<exists>i < length (sc_routes sys). pick_route sys req = Some (sc_routes sys ! i) \<and>
    ((matches (rt_matcher (sc_routes sys ! i)) req \<and>
       (\<forall>j < i. \<not> matches (rt_matcher (sc_routes sys ! j)) req)) \<or>
     (i = sc_default_route sys \<and> (\<forall>r \<in> set (sc_routes sys). \<not> matches (rt_matcher r) req)))"
proof (cases "find (\<lambda>r. matches (rt_matcher r) req) (sc_routes sys)")
  case None
  then have "pick_route sys req = Some (sc_routes sys ! sc_default_route sys)"
    using assms by (simp add: pick_route_def)
  then show ?thesis using assms None unfolding find_None_iff by blast
next
  case (Some r)
  then obtain i where "i < length (sc_routes sys)" "r = sc_routes sys ! i"
      "matches (rt_matcher r) req" "\<forall>j < i. \<not> matches (rt_matcher (sc_routes sys ! j)) req"
    by (auto simp: find_Some_iff)
  then show ?thesis using assms Some by (auto simp: pick_route_def)
qed

lemma resolved_pins_sel [simp]:
  "p_risk_class (resolved_pins snap sys rt stale req) = sc_risk_class sys"
  "p_resolved_stale (resolved_pins snap sys rt stale req) = stale"
  by (simp_all add: resolved_pins_def Let_def)

text \<open>What a resolver in the invariant answers, in every state.\<close>

lemma resolve_answers:
  assumes "resolver_ok policy r heard"
  shows "resolve r req now =
    (if is_cold r then Some (Err ColdStartError)
     else case cfg_keys (ld_snap (pr_current r)) (im_api_key_hash req) of
       None \<Rightarrow> Some (Err UnknownKey)
     | Some b \<Rightarrow>
         let sys = the (cfg_systems (ld_snap (pr_current r)) (b_system_id b));
             stale = (sp_budget policy < now - heard) in
         if stale \<and> sp_fail_closed_on_stale policy \<and> sc_risk_class sys = High
         then Some (Err (StaleConfigFailClosed (cfg_generation (ld_snap (pr_current r)))))
         else Some (Ok (resolved_pins (ld_snap (pr_current r)) sys (the (pick_route sys req)) stale req)))"
proof (cases "cfg_keys (ld_snap (pr_current r)) (im_api_key_hash req)")
  case None
  then show ?thesis by (simp add: resolve_def is_cold_def key_binding_of_def Let_def)
next
  case (Some b)
  have snap: "snapshot_ok (ld_snap (pr_current r))" and r: "pr_policy r = policy"
      "ld_loaded_at (pr_current r) = heard"
    using assms by (simp_all add: resolver_ok_def)
  obtain sys where sys: "cfg_systems (ld_snap (pr_current r)) (b_system_id b) = Some sys"
      "sc_default_route sys < length (sc_routes sys)"
    by (rule bound_system [OF snap Some])
  obtain route' where route: "pick_route sys req = Some route'"
    using pick_route_eq_Some [OF sys(2)] by blast
  have high: "fails_closed_by_default c \<longleftrightarrow> c = High" for c by (cases c) simp_all
  show ?thesis
    using Some sys(1) route r
    by (simp add: resolve_def is_cold_def key_binding_of_def system_def policy_freshness_def Let_def high)
qed

section \<open>A concrete instance for examples\<close>

definition demo_request :: ingress_meta where
  "demo_request = \<lparr>im_path = ''/v1'', im_model_alias = None, im_api_key_hash = GENESIS, im_headers = [],
     im_overrides = \<lparr>po_model_version = None, po_prompt_version = None\<rparr>\<rparr>"

definition demo_resolver :: pin_resolver where
  "demo_resolver = store_next (cold default_policy 0 0) (demo_snapshot 41 0) 100"

lemma demo_resolver_run: "resolver_run (demo_prims []) default_policy demo_resolver 100"
  unfolding demo_resolver_def by (rule run_reload [OF run_cold demo_builds])

lemma demo_resolver_simps [simp]:
  "is_cold demo_resolver \<longleftrightarrow> False" "ld_snap (pr_current demo_resolver) = demo_snapshot 41 0"
  "pr_policy demo_resolver = default_policy" "im_api_key_hash demo_request = GENESIS"
  by (simp_all add: demo_resolver_def is_cold_def store_next_def cold_def demo_request_def)

lemma demo_resolves:
  "now \<le> 100 \<Longrightarrow> \<exists>p. resolve demo_resolver demo_request now = Some (Ok p)"
  using resolve_answers [OF resolver_run_ok [OF demo_resolver_run], of demo_request now]
  by (simp add: Let_def build_system_def demo_system_def)

section \<open>Properties\<close>

text \<open>
  Every answer of the resolver, in every state a resolver can be in: it never panics and never
  meets a binding to a system that is not there; cold start refuses everything; a key the
  snapshot does not bind is refused; a High-risk system is refused exactly when the node has not
  heard from the control plane for longer than the budget and the policy fails closed; everything
  else is served with the pins of its snapshot, flagged stale exactly when the budget is exceeded.
\<close>

theorem resolver_answers_exactly:
  assumes "resolver_run P policy r heard"
  shows "resolve r req now =
    (if is_cold r then Some (Err ColdStartError)
     else case key_binding_of (ld_snap (pr_current r)) (im_api_key_hash req) of
       None \<Rightarrow> Some (Err UnknownKey)
     | Some b \<Rightarrow>
         let sys = the (system (ld_snap (pr_current r)) (b_system_id b));
             stale = (sp_budget policy < now - heard) in
         if stale \<and> sp_fail_closed_on_stale policy \<and> sc_risk_class sys = High
         then Some (Err (StaleConfigFailClosed (resolver_generation r)))
         else Some (Ok (resolved_pins (ld_snap (pr_current r)) sys (the (pick_route sys req)) stale req)))"
  unfolding key_binding_of_def system_def resolver_generation_def
  by (rule resolve_answers [OF resolver_run_ok [OF assms]])

theorem resolver_answers_exactly_witness:
  "resolve demo_resolver demo_request (100 + DEFAULT_STALENESS_BUDGET + 1) =
    Some (Err (StaleConfigFailClosed 41))"
  using resolver_answers_exactly [OF demo_resolver_run, of demo_request "100 + DEFAULT_STALENESS_BUDGET + 1"]
  by (simp add: key_binding_of_def system_def Let_def build_system_def demo_system_def default_policy_def
      resolver_generation_def)

text \<open>
  C39. Served pins tell the truth: they name the generation and the content hash of the one
  snapshot the resolver holds, the system the key is bound to, and a route of that system that
  is the first to match the request (or its default when none does), with a caller's own pin in
  place of the route's where there is one, and then the override flag.
\<close>

theorem served_pins_faithful:
  assumes "resolver_run P policy r heard" "resolve r req now = Some (Ok p)"
  shows "\<exists>b sys i. key_binding_of (ld_snap (pr_current r)) (im_api_key_hash req) = Some b \<and>
    system (ld_snap (pr_current r)) (b_system_id b) = Some sys \<and> i < length (sc_routes sys) \<and>
    p_config_generation p = cfg_generation (ld_snap (pr_current r)) \<and>
    p_config_hash p = cfg_content_hash (ld_snap (pr_current r)) \<and>
    p_system_id p = b_system_id b \<and> p_risk_class p = sc_risk_class sys \<and>
    ((matches (rt_matcher (sc_routes sys ! i)) req \<and>
        (\<forall>j < i. \<not> matches (rt_matcher (sc_routes sys ! j)) req)) \<or>
      (i = sc_default_route sys \<and> (\<forall>r \<in> set (sc_routes sys). \<not> matches (rt_matcher r) req))) \<and>
    p_model_id p = rt_model_id (sc_routes sys ! i) \<and>
    p_model_version p = (case po_model_version (im_overrides req) of
      None \<Rightarrow> rt_model_version (sc_routes sys ! i) | Some v \<Rightarrow> v) \<and>
    (PinOverridden \<in> set (p_risk_flags p) \<longleftrightarrow> \<not> overrides_empty (im_overrides req)) \<and>
    (StaleConfig \<in> set (p_risk_flags p) \<longleftrightarrow> p_resolved_stale p)"
proof -
  note ok = resolver_run_ok [OF assms(1)]
  have ans: "resolve r req now \<noteq> Some (Err ColdStartError)" "resolve r req now \<noteq> Some (Err UnknownKey)"
    using assms(2) by simp_all
  then have warm: "\<not> is_cold r" using resolve_answers [OF ok] by metis
  obtain b where b: "cfg_keys (ld_snap (pr_current r)) (im_api_key_hash req) = Some b"
    using resolve_answers [OF ok, of req now] warm ans(2)
    by (cases "cfg_keys (ld_snap (pr_current r)) (im_api_key_hash req)") simp_all
  obtain sys where sys: "cfg_systems (ld_snap (pr_current r)) (b_system_id b) = Some sys"
      "sc_system_id sys = b_system_id b" "sc_default_route sys < length (sc_routes sys)"
    using bound_system [OF _ b] ok unfolding resolver_ok_def by blast
  obtain i where i: "i < length (sc_routes sys)" "pick_route sys req = Some (sc_routes sys ! i)"
      "(matches (rt_matcher (sc_routes sys ! i)) req \<and>
        (\<forall>j < i. \<not> matches (rt_matcher (sc_routes sys ! j)) req)) \<or>
      (i = sc_default_route sys \<and> (\<forall>r \<in> set (sc_routes sys). \<not> matches (rt_matcher r) req))"
    using pick_route_eq_Some [OF sys(3)] by blast
  have p: "p = resolved_pins (ld_snap (pr_current r)) sys (sc_routes sys ! i)
      (sp_budget policy < now - heard) req"
    using resolve_answers [OF ok, of req now] assms(2) warm
    by (simp add: b sys(1) i(2) Let_def split: if_splits)
  show ?thesis
    using b sys i(1,3)
    by (intro exI [of _ b] exI [of _ sys] exI [of _ i])
      (auto simp: p resolved_pins_def resolved_flags_def key_binding_of_def system_def Let_def)
qed

theorem served_pins_faithful_witness:
  "\<exists>p. resolve demo_resolver demo_request 100 = Some (Ok p) \<and> p_config_generation p = 41"
proof -
  obtain p where p: "resolve demo_resolver demo_request 100 = Some (Ok p)"
    using demo_resolves [of 100] by auto
  then show ?thesis using served_pins_faithful [OF demo_resolver_run p] by auto
qed

text \<open>
  C8. The staleness budget bounds how long a superseded configuration can serve High-risk traffic:
  under a policy that fails closed, a High-risk request is served only within the budget of the
  last instant at which the control plane was heard (a snapshot installed or confirmed), however
  many reads came between.
\<close>

theorem high_risk_served_within_budget:
  assumes "resolver_run P policy r heard" "sp_fail_closed_on_stale policy"
    and "resolve r req now = Some (Ok p)" "p_risk_class p = High"
  shows "now \<le> heard + sp_budget policy \<and> \<not> p_resolved_stale p"
proof -
  let ?stale = "sp_budget policy < now - heard"
  obtain b where b: "cfg_keys (ld_snap (pr_current r)) (im_api_key_hash req) = Some b"
    and warm: "\<not> is_cold r"
    using resolve_answers [OF resolver_run_ok [OF assms(1)], of req now] assms(3)
    by (cases "cfg_keys (ld_snap (pr_current r)) (im_api_key_hash req)") (auto split: if_splits)
  let ?sys = "the (cfg_systems (ld_snap (pr_current r)) (b_system_id b))"
  have p: "\<not> (?stale \<and> sp_fail_closed_on_stale policy \<and> sc_risk_class ?sys = High)"
      "p = resolved_pins (ld_snap (pr_current r)) ?sys (the (pick_route ?sys req)) ?stale req"
    using resolve_answers [OF resolver_run_ok [OF assms(1)], of req now] assms(3) warm
    by (auto simp: b Let_def split: if_splits)
  then have "\<not> ?stale" using assms(2,4) by simp
  then show ?thesis using p(2) by simp
qed

theorem high_risk_served_within_budget_witness:
  "\<exists>p. resolve demo_resolver demo_request 100 = Some (Ok p) \<and> \<not> p_resolved_stale p"
proof -
  obtain p where p: "resolve demo_resolver demo_request 100 = Some (Ok p)"
    using demo_resolves [of 100] by auto
  have "p_risk_class p = High"
    using p resolve_answers [OF resolver_run_ok [OF demo_resolver_run], of demo_request 100]
    by (auto simp: Let_def build_system_def demo_system_def)
  then show ?thesis
    using high_risk_served_within_budget [OF demo_resolver_run _ p] p by (simp add: default_policy_def)
qed

text \<open>
  A node whose control plane answers keeps serving: after \<open>confirm_fresh\<close> at some instant,
  every request under a bound key is served until the budget has passed since, whatever its risk
  class and however old the snapshot, and not flagged stale.
\<close>

theorem confirmed_node_serves:
  assumes "resolver_run P policy r heard" "\<not> is_cold r"
    and "key_binding_of (ld_snap (pr_current r)) (im_api_key_hash req) \<noteq> None"
    and "later \<le> now + sp_budget policy"
  shows "\<exists>p. resolve (confirm_fresh r now) req later = Some (Ok p) \<and> \<not> p_resolved_stale p"
proof -
  have run: "resolver_run P policy (confirm_fresh r now) now"
    using run_confirm [OF assms(1), of now] assms(2) by simp
  have same: "ld_snap (pr_current (confirm_fresh r now)) = ld_snap (pr_current r)"
    "\<not> is_cold (confirm_fresh r now)"
    using assms(2) by (simp_all add: confirm_fresh_def is_cold_def Let_def)
  show ?thesis
    using resolve_answers [OF resolver_run_ok [OF run], of req later] assms(3,4)
    by (auto simp: same key_binding_of_def Let_def resolved_pins_def)
qed

theorem confirmed_node_serves_witness:
  "\<exists>p. resolve (confirm_fresh demo_resolver (10 ^ 12)) demo_request (10 ^ 12 + 5) = Some (Ok p) \<and>
    \<not> p_resolved_stale p"
  by (rule confirmed_node_serves [OF demo_resolver_run])
    (simp_all add: key_binding_of_def default_policy_def DEFAULT_STALENESS_BUDGET_def)

end
