(* ===== verification/Diff.thy ===== *)
theory Diff
  imports Resolver
begin

text \<open>
  \<open>crates/ancre-resolver/src/diff.rs\<close>: what changed between two consecutive snapshots, and
  \<open>PinResolver::reload\<close>, which returns it.

  \<open>systems()\<close> iterates a \<open>HashMap\<close>: the order in which it does is an argument, an
  enumeration of the ids of the snapshot's systems. The system clock is the argument \<open>clock\<close>.
\<close>

section \<open>Operations\<close>

record system_change =
  ch_system_id :: string
  ch_class :: change_class
  ch_fields :: "string list"

record reload_outcome =
  out_from_generation :: u64
  out_to_generation :: u64
  out_propagation_ms :: u32
  out_changes :: "system_change list"
  out_systems_added :: "string list"
  out_systems_removed :: "string list"

text \<open>
  \<open>SystemTime::elapsed\<close> fails when the clock is before \<open>built_at\<close>; milliseconds that do not fit
  \<open>u32\<close> read as zero too.
\<close>

definition propagation_ms :: "config_snapshot \<Rightarrow> timestamp \<Rightarrow> u32" where
  "propagation_ms next clock =
     (let elapsed = clock - cfg_built_at next in
      if elapsed < 0 then 0
      else let ms = elapsed div 1000 in if ms < 2 ^ 32 then word_of_int ms else 0)"

definition first_snapshot :: "config_snapshot \<Rightarrow> timestamp \<Rightarrow> reload_outcome" where
  "first_snapshot next clock =
     \<lparr>out_from_generation = 0, out_to_generation = cfg_generation next,
      out_propagation_ms = propagation_ms next clock, out_changes = [],
      out_systems_added = [], out_systems_removed = []\<rparr>"

definition substantial_candidates :: "reload_outcome \<Rightarrow> system_change list" where
  "substantial_candidates o' = filter (\<lambda>c. ch_class c = Substantial) (out_changes o')"

definition outcome_is_empty :: "reload_outcome \<Rightarrow> bool" where
  "outcome_is_empty o' \<longleftrightarrow>
     out_changes o' = [] \<and> out_systems_added o' = [] \<and> out_systems_removed o' = []"

definition outcome_changed_fields :: "reload_outcome \<Rightarrow> string list" where
  "outcome_changed_fields o' =
     concat (map (\<lambda>c. map (\<lambda>f. ch_system_id c @ ''.'' @ f) (ch_fields c)) (out_changes o'))"

definition major :: "string \<Rightarrow> string" where
  "major v = takeWhile (\<lambda>c. c \<noteq> CHR ''.'') v"

definition routes_differ_on ::
    "system_config \<Rightarrow> system_config \<Rightarrow> (route \<Rightarrow> string) \<Rightarrow> bool" where
  "routes_differ_on prev next field \<longleftrightarrow>
     length (sc_routes prev) \<noteq> length (sc_routes next) \<or>
     list_ex (\<lambda>(a, b). field a \<noteq> field b) (zip (sc_routes prev) (sc_routes next))"

definition classify_change :: "system_config \<Rightarrow> system_config \<Rightarrow> change_class" where
  "classify_change prev next =
     (if routes_differ_on prev next rt_model_id \<or>
         major (sc_system_version prev) \<noteq> major (sc_system_version next) then Substantial
      else if sc_policy_version prev \<noteq> sc_policy_version next \<or>
              routes_differ_on prev next rt_prompt_version then Material
      else Minor)"

definition push_if :: "bool \<Rightarrow> string \<Rightarrow> string list \<Rightarrow> string list" where
  "push_if c name f = (if c then f @ [name] else f)"

definition changed_fields :: "system_config \<Rightarrow> system_config \<Rightarrow> string list" where
  "changed_fields prev next =
     (let f = [];
          f = push_if (routes_differ_on prev next rt_model_id) ''model_id'' f;
          f = push_if (routes_differ_on prev next rt_model_version) ''model_version'' f;
          f = push_if (routes_differ_on prev next rt_prompt_version) ''prompt_version'' f;
          f = push_if (sc_system_version prev \<noteq> sc_system_version next) ''system_version'' f;
          f = push_if (sc_policy_version prev \<noteq> sc_policy_version next) ''policy_version'' f;
          f = push_if (sc_ifu_version prev \<noteq> sc_ifu_version next) ''ifu_version'' f;
          f = push_if (sc_risk_class prev \<noteq> sc_risk_class next) ''risk_class'' f;
          f = push_if (length (sc_routes prev) \<noteq> length (sc_routes next)) ''routes'' f
      in f)"

text \<open>One turn of the loop over the next snapshot's systems.\<close>

definition diff_step ::
    "config_snapshot \<Rightarrow> config_snapshot \<Rightarrow> system_change list \<times> string list \<Rightarrow> string \<Rightarrow>
      system_change list \<times> string list" where
  "diff_step prev next acc id' =
     (case acc of (changes, added) \<Rightarrow>
        case system prev id' of
          None \<Rightarrow> (changes, added @ [id'])
        | Some prev_sys \<Rightarrow>
            let next_sys = the (cfg_systems next id');
                fields = changed_fields prev_sys next_sys in
            if fields \<noteq> []
            then (changes @ [\<lparr>ch_system_id = id', ch_class = classify_change prev_sys next_sys,
                              ch_fields = fields\<rparr>], added)
            else (changes, added))"

definition diff ::
    "config_snapshot \<Rightarrow> config_snapshot \<Rightarrow> string list \<Rightarrow> string list \<Rightarrow> timestamp \<Rightarrow> reload_outcome" where
  "diff prev next prev_order next_order clock =
     (let (changes, added) = foldl (diff_step prev next) ([], []) next_order;
          removed = filter (\<lambda>id'. system next id' = None) prev_order
      in \<lparr>out_from_generation = cfg_generation prev, out_to_generation = cfg_generation next,
          out_propagation_ms = propagation_ms next clock,
          out_changes = sort_by (by_key ch_system_id) changes,
          out_systems_added = sort added, out_systems_removed = sort removed\<rparr>)"

definition reload ::
    "pin_resolver \<Rightarrow> config_snapshot \<Rightarrow> string list \<Rightarrow> string list \<Rightarrow> timestamp \<Rightarrow> instant \<Rightarrow>
      pin_resolver \<times> reload_outcome" where
  "reload r next prev_order next_order clock now =
     (let prev = pr_current r;
          outcome = (if ld_cold prev then first_snapshot next clock
                     else diff (ld_snap prev) next prev_order next_order clock)
      in (store_next r next now, outcome))"

text \<open>\<open>with_snapshot\<close>: a cold resolver that has reloaded once.\<close>

definition with_snapshot ::
    "config_snapshot \<Rightarrow> staleness_policy \<Rightarrow> timestamp \<Rightarrow> string list \<Rightarrow> string list \<Rightarrow> timestamp \<Rightarrow> instant \<Rightarrow>
      pin_resolver" where
  "with_snapshot snapshot policy built prev_order next_order clock now =
     fst (reload (cold policy built now) snapshot prev_order next_order clock now)"

section \<open>Lemmas\<close>

text \<open>An enumeration of a snapshot's systems.\<close>

definition enumerates :: "string list \<Rightarrow> config_snapshot \<Rightarrow> bool" where
  "enumerates ids snap \<longleftrightarrow> distinct ids \<and> set ids = dom (cfg_systems snap)"

definition change_of :: "config_snapshot \<Rightarrow> config_snapshot \<Rightarrow> string \<Rightarrow> system_change option" where
  "change_of prev next id' =
     (case (cfg_systems prev id', cfg_systems next id') of
        (Some p, Some n) \<Rightarrow>
          if changed_fields p n = [] then None
          else Some \<lparr>ch_system_id = id', ch_class = classify_change p n, ch_fields = changed_fields p n\<rparr>
      | _ \<Rightarrow> None)"

lemma diff_fold:
  assumes "\<forall>i \<in> set ids. cfg_systems next i \<noteq> None"
  shows "foldl (diff_step prev next) (cs, as) ids =
    (cs @ List.map_filter (change_of prev next) ids,
     as @ filter (\<lambda>i. cfg_systems prev i = None) ids)"
  using assms
proof (induction ids arbitrary: cs as)
  case (Cons i ids)
  then show ?case
    by (auto simp: diff_step_def system_def change_of_def Let_def map_filter_simps split: option.splits)
qed (simp add: map_filter_simps)

lemma change_of_eq_Some:
  "change_of prev next i = Some c \<longleftrightarrow>
    (\<exists>p n. cfg_systems prev i = Some p \<and> cfg_systems next i = Some n \<and> changed_fields p n \<noteq> [] \<and>
      c = \<lparr>ch_system_id = i, ch_class = classify_change p n, ch_fields = changed_fields p n\<rparr>)"
  by (auto simp: change_of_def split: option.splits)

lemma system_change_eq:
  "c = \<lparr>ch_system_id = i, ch_class = k, ch_fields = f\<rparr> \<longleftrightarrow>
    ch_system_id c = i \<and> ch_class c = k \<and> ch_fields (c :: system_change) = f"
  by (cases c) auto

lemma change_of_id: "change_of prev next i = Some c \<Longrightarrow> ch_system_id c = i"
  by (auto simp: change_of_def split: option.splits if_splits)

lemma routes_differ_on_map:
  "routes_differ_on p n f \<longleftrightarrow> map f (sc_routes p) \<noteq> map f (sc_routes n)"
proof (cases "length (sc_routes p) = length (sc_routes n)")
  case True
  have "list_ex (\<lambda>(a, b). f a \<noteq> f b) (zip xs ys) \<longleftrightarrow> map f xs \<noteq> map f ys"
    if "length xs = length ys" for xs ys
    using that by (induction xs ys rule: list_induct2) auto
  then show ?thesis using True by (simp add: routes_differ_on_def)
next
  case False
  then show ?thesis by (metis length_map routes_differ_on_def)
qed

lemma changed_fields_Nil:
  "changed_fields p n = [] \<longleftrightarrow>
    map rt_model_id (sc_routes p) = map rt_model_id (sc_routes n) \<and>
    map rt_model_version (sc_routes p) = map rt_model_version (sc_routes n) \<and>
    map rt_prompt_version (sc_routes p) = map rt_prompt_version (sc_routes n) \<and>
    sc_system_version p = sc_system_version n \<and> sc_policy_version p = sc_policy_version n \<and>
    sc_ifu_version p = sc_ifu_version n \<and> sc_risk_class p = sc_risk_class n"
proof -
  have "length (sc_routes p) = length (sc_routes n)" if "map rt_model_id (sc_routes p) = map rt_model_id (sc_routes n)"
    using that by (metis length_map)
  then show ?thesis
    by (auto simp: changed_fields_def push_if_def Let_def routes_differ_on_map)
qed

text \<open>Sorting by id makes the report independent of the order of the tables.\<close>

lemma map_filter_perm:
  assumes "mset xs = mset ys"
  shows "mset (List.map_filter f xs) = mset (List.map_filter f ys)"
  using assms by (simp add: List.map_filter_def)

lemma sort_perm: "mset xs = mset ys \<Longrightarrow> sort xs = sort (ys :: 'a::linorder list)"
  by (metis mset_sort properties_for_sort sorted_sort)

lemma diff_order_independent:
  assumes "enumerates po prev" "enumerates po' prev" "enumerates no next" "enumerates no' next"
  shows "diff prev next po no clock = diff prev next po' no' clock"
proof -
  have m: "mset po = mset po'" "mset no = mset no'"
    using assms by (auto simp: enumerates_def set_eq_iff_mset_eq_distinct [symmetric])
  have some: "\<forall>i \<in> set no. cfg_systems next i \<noteq> None" "\<forall>i \<in> set no'. cfg_systems next i \<noteq> None"
    using assms by (auto simp: enumerates_def)
  have "sort_by (by_key ch_system_id) (List.map_filter (change_of prev next) no) =
      sort_by (by_key ch_system_id) (List.map_filter (change_of prev next) no')"
  proof (rule by_key.sort_by_perm [OF map_filter_perm [OF m(2)]])
    fix c d
    assume "c \<in> set (List.map_filter (change_of prev next) no)"
      "d \<in> set (List.map_filter (change_of prev next) no)"
    then obtain i j where "change_of prev next i = Some c" "change_of prev next j = Some d"
      by (auto simp: List.map_filter_def)
    moreover assume "by_key ch_system_id c d" "by_key ch_system_id d c"
    then have "ch_system_id c = ch_system_id d" by (simp add: by_key_def)
    ultimately show "c = d" using change_of_id by (metis option.inject)
  qed
  moreover have "sort (filter (\<lambda>i. cfg_systems prev i = None) no) =
      sort (filter (\<lambda>i. cfg_systems prev i = None) no')"
    using m(2) by (intro sort_perm) (simp add: mset_filter)
  moreover have "sort (filter (\<lambda>i. system next i = None) po) = sort (filter (\<lambda>i. system next i = None) po')"
    using m(1) by (intro sort_perm) (simp add: mset_filter)
  ultimately show ?thesis
    by (simp add: diff_def diff_fold [OF some(1)] diff_fold [OF some(2)])
qed

lemma diff_changes:
  assumes "enumerates no next"
  shows "set (out_changes (diff prev next po no clock)) = {c. \<exists>i. change_of prev next i = Some c}"
proof -
  have some: "\<forall>i \<in> set no. cfg_systems next i \<noteq> None" using assms by (auto simp: enumerates_def)
  have "i \<in> set no" if "change_of prev next i = Some c" for i c
    using that assms by (auto simp: change_of_def enumerates_def split: option.splits if_splits)
  then show ?thesis
    by (auto simp: diff_def diff_fold [OF some] List.map_filter_def) force
qed

text \<open>The fields of a system the diff looks at.\<close>

definition tracked ::
    "system_config \<Rightarrow> (string \<times> string \<times> string) list \<times> string \<times> string \<times> string \<times> risk_class" where
  "tracked sys =
     (map (\<lambda>r. (rt_model_id r, rt_model_version r, rt_prompt_version r)) (sc_routes sys),
      sc_system_version sys, sc_policy_version sys, sc_ifu_version sys, sc_risk_class sys)"

lemma changed_fields_tracked: "changed_fields p n = [] \<longleftrightarrow> tracked p = tracked n"
proof -
  have "map f xs = map f ys \<and> map g xs = map g ys \<and> map h xs = map h ys \<longleftrightarrow>
      map (\<lambda>r. (f r, g r, h r)) xs = map (\<lambda>r. (f r, g r, h r)) ys"
    for f g h :: "route \<Rightarrow> string" and xs ys
  proof (induction xs arbitrary: ys)
    case (Cons x xs)
    then show ?case by (cases ys) auto
  qed auto
  from this [of rt_model_id _ _ rt_model_version rt_prompt_version] show ?thesis
    unfolding changed_fields_Nil tracked_def by auto
qed

lemma diff_added_removed:
  assumes "enumerates no next" "enumerates po prev"
  shows "set (out_systems_added (diff prev next po no clock)) = dom (cfg_systems next) - dom (cfg_systems prev)"
    and "set (out_systems_removed (diff prev next po no clock)) = dom (cfg_systems prev) - dom (cfg_systems next)"
proof -
  have some: "\<forall>i \<in> set no. cfg_systems next i \<noteq> None" using assms by (auto simp: enumerates_def)
  show "set (out_systems_added (diff prev next po no clock)) = dom (cfg_systems next) - dom (cfg_systems prev)"
    using assms by (auto simp: diff_def diff_fold [OF some] enumerates_def)
  show "set (out_systems_removed (diff prev next po no clock)) = dom (cfg_systems prev) - dom (cfg_systems next)"
    using assms by (auto simp: diff_def diff_fold [OF some] enumerates_def system_def)
qed

section \<open>Properties\<close>

text \<open>
  Two nodes applying the same generation report the same thing: the outcome of a reload does
  not depend on the order in which the hash tables of the two snapshots are iterated.
\<close>

theorem reload_report_deterministic:
  assumes "enumerates po (ld_snap (pr_current r))" "enumerates po' (ld_snap (pr_current r))"
    and "enumerates no next" "enumerates no' next"
  shows "reload r next po no clock now = reload r next po' no' clock now"
  using diff_order_independent [OF assms] by (simp add: reload_def Let_def)

theorem reload_report_deterministic_witness:
  "let next = (demo_snapshot 42 0)\<lparr>cfg_systems := [''a'' \<mapsto> build_system (demo_system ''n''),
         ''b'' \<mapsto> build_system (demo_system ''m'')]\<rparr> in
   reload demo_resolver next [''a''] [''a'', ''b''] 0 7 = reload demo_resolver next [''a''] [''b'', ''a''] 0 7"
  unfolding Let_def by (rule reload_report_deterministic) (auto simp: enumerates_def)

text \<open>
  What a reload reports, exactly: the systems added and removed are those in one snapshot and
  not the other; a system in both is reported changed exactly when a tracked field differs, once,
  with the class its fields give it; it is a substantial candidate exactly when the list of its
  routes' models or the major part of its version differs.
\<close>

theorem reload_reports_exactly:
  assumes "enumerates po prev" "enumerates no next"
  shows "set (out_systems_added (diff prev next po no clock)) = dom (cfg_systems next) - dom (cfg_systems prev) \<and>
    set (out_systems_removed (diff prev next po no clock)) = dom (cfg_systems prev) - dom (cfg_systems next) \<and>
    set (out_changes (diff prev next po no clock)) =
      {c. \<exists>p n. cfg_systems prev (ch_system_id c) = Some p \<and> cfg_systems next (ch_system_id c) = Some n \<and>
        tracked p \<noteq> tracked n \<and> ch_class c = classify_change p n \<and> ch_fields c = changed_fields p n} \<and>
    (\<forall>p n. classify_change p n = Substantial \<longleftrightarrow>
      map rt_model_id (sc_routes p) \<noteq> map rt_model_id (sc_routes n) \<or>
      major (sc_system_version p) \<noteq> major (sc_system_version n))"
proof (intro conjI allI)
  show "set (out_changes (diff prev next po no clock)) =
      {c. \<exists>p n. cfg_systems prev (ch_system_id c) = Some p \<and> cfg_systems next (ch_system_id c) = Some n \<and>
        tracked p \<noteq> tracked n \<and> ch_class c = classify_change p n \<and> ch_fields c = changed_fields p n}"
    unfolding diff_changes [OF assms(2)] changed_fields_tracked [symmetric]
    unfolding change_of_eq_Some
    by (auto simp: system_change_eq)
  show "classify_change p n = Substantial \<longleftrightarrow>
      map rt_model_id (sc_routes p) \<noteq> map rt_model_id (sc_routes n) \<or>
      major (sc_system_version p) \<noteq> major (sc_system_version n)" for p n
    by (auto simp: classify_change_def routes_differ_on_map)
qed (use diff_added_removed [OF assms(2,1)] in simp_all)

theorem reload_reports_exactly_witness:
  "out_changes (diff (demo_snapshot 1 0) (demo_snapshot 2 0) [''a''] [''a''] 0) = []"
proof -
  have "set (out_changes (diff (demo_snapshot 1 0) (demo_snapshot 2 0) [''a''] [''a''] 0)) = {}"
    using reload_reports_exactly [of "[''a'']" "demo_snapshot 1 0" "[''a'']" "demo_snapshot 2 0" 0]
    by (auto simp: enumerates_def split: if_splits)
  then show ?thesis by simp
qed

text \<open>
  Some configuration changes are reported by nothing: when every system keeps its tracked
  fields, the outcome of the diff is empty, although matchers, the default route, prompt ids or
  policy ids (all of them part of the content hash) may have changed, and with them the route a
  request takes.
\<close>

theorem untracked_change_unreported:
  assumes "enumerates po prev" "enumerates no next"
    and "map_option tracked \<circ> cfg_systems prev = map_option tracked \<circ> cfg_systems next"
  shows "outcome_is_empty (diff prev next po no clock)"
proof -
  have same: "map_option tracked (cfg_systems prev i) = map_option tracked (cfg_systems next i)" for i
    using assms(3) by (metis comp_apply)
  have dom: "dom (cfg_systems prev) = dom (cfg_systems next)"
    using same unfolding dom_def by (metis map_option_is_None)
  have "change_of prev next i = None" for i
    using same [of i] by (auto simp: change_of_def changed_fields_tracked split: option.splits)
  then have "set (out_changes (diff prev next po no clock)) = {}"
    unfolding diff_changes [OF assms(2)] by simp
  then show ?thesis
    using diff_added_removed [OF assms(2,1), of clock] dom by (simp add: outcome_is_empty_def)
qed

theorem untracked_change_unreported_witness:
  "let route = (\<lambda>a m. \<lparr>rt_matcher = ModelAlias a, rt_model_id = m, rt_model_version = m, rt_prompt_id = ''q'',
         rt_prompt_version = ''w'', rt_prompt_body = Lazy GENESIS\<rparr>);
       sys = (\<lambda>d. (build_system (demo_system ''m''))
         \<lparr>sc_routes := [route ''x'' ''m1'', route ''y'' ''m2''], sc_default_route := d\<rparr>);
       snap = (\<lambda>d. (demo_snapshot 1 0)\<lparr>cfg_systems := [''a'' \<mapsto> sys d]\<rparr>) in
   outcome_is_empty (diff (snap 0) (snap 1) [''a''] [''a''] 0) \<and>
   map_option rt_model_id (pick_route (sys 0) demo_request) = Some ''m1'' \<and>
   map_option rt_model_id (pick_route (sys 1) demo_request) = Some ''m2''"
proof -
  let ?route = "\<lambda>a m. \<lparr>rt_matcher = ModelAlias a, rt_model_id = m, rt_model_version = m, rt_prompt_id = ''q'',
         rt_prompt_version = ''w'', rt_prompt_body = Lazy GENESIS\<rparr>"
  let ?sys = "\<lambda>d. (build_system (demo_system ''m''))
         \<lparr>sc_routes := [?route ''x'' ''m1'', ?route ''y'' ''m2''], sc_default_route := d\<rparr>"
  let ?snap = "\<lambda>d. (demo_snapshot 1 0)\<lparr>cfg_systems := [''a'' \<mapsto> ?sys d]\<rparr>"
  have "outcome_is_empty (diff (?snap 0) (?snap 1) [''a''] [''a''] 0)"
    by (rule untracked_change_unreported) (auto simp: enumerates_def tracked_def fun_eq_iff)
  then show ?thesis by (simp add: pick_route_def demo_request_def)
qed

end
