(* ===== verification/Format.thy ===== *)
theory Format
  imports Prelude
begin

text \<open>
  What the sources print with \<open>format!\<close> and \<open>to_string\<close>: integers in decimal. How \<open>{:?}\<close> quotes
  a string is the standard library's Unicode table and stays a parameter where it occurs.
\<close>

definition digit :: "nat \<Rightarrow> char" where
  "digit d = char_of (48 + d)"

function dec_nat :: "nat \<Rightarrow> string" where
  "dec_nat n = (if n < 10 then [digit n] else dec_nat (n div 10) @ [digit (n mod 10)])"
  by pat_completeness auto
termination by (relation "measure id") auto

declare dec_nat.simps [simp del]

definition dec_u64 :: "u64 \<Rightarrow> string" where
  "dec_u64 w = dec_nat (unat w)"

definition dec_int :: "int \<Rightarrow> string" where
  "dec_int i = (if i < 0 then CHR ''-'' # dec_nat (nat (- i)) else dec_nat (nat i))"

lemma of_char_digit: "d < 10 \<Longrightarrow> of_char (digit d) = (48 + d :: nat)"
  by (simp add: digit_def)

lemma digit_eq_iff: "d < 10 \<Longrightarrow> e < 10 \<Longrightarrow> digit d = digit e \<longleftrightarrow> d = e"
  by (metis add_left_cancel of_char_digit)

lemma dec_nat_snoc: "dec_nat n = (if n < 10 then [] else dec_nat (n div 10)) @ [digit (n mod 10)]"
  by (cases "n < 10") (simp_all add: dec_nat.simps [of n])

lemma dec_nat_Nil [simp]: "dec_nat n \<noteq> []" "[] \<noteq> dec_nat n"
  by (metis dec_nat_snoc snoc_eq_iff_butlast)+

lemma dec_nat_inj: "dec_nat m = dec_nat n \<Longrightarrow> m = n"
proof (induction m arbitrary: n rule: dec_nat.induct)
  case (1 m)
  have eq: "(if m < 10 then [] else dec_nat (m div 10)) = (if n < 10 then [] else dec_nat (n div 10))"
    "m mod 10 = n mod 10"
    using 1(2) unfolding dec_nat_snoc [of m] dec_nat_snoc [of n] by (simp_all add: digit_eq_iff)
  show ?case
  proof (cases "m < 10")
    case True
    then show ?thesis using eq by (simp split: if_splits)
  next
    case False
    then have "m div 10 = n div 10" using eq 1(1) [of "n div 10"] by (simp split: if_splits)
    then show ?thesis using eq(2) by (metis div_mult_mod_eq)
  qed
qed

lemma digits_dec_nat: "c \<in> set (dec_nat n) \<Longrightarrow> 48 \<le> (of_char c :: nat) \<and> of_char c < (58 :: nat)"
proof (induction n rule: dec_nat.induct)
  case (1 n)
  show ?case
  proof (cases "n < 10")
    case True
    then have "c = digit n" using 1(2) by (simp add: dec_nat.simps [of n])
    then show ?thesis using True by (simp add: of_char_digit)
  next
    case False
    then have "c \<in> set (dec_nat (n div 10)) \<or> c = digit (n mod 10)"
      using 1(2) unfolding dec_nat_snoc [of n] by auto
    then show ?thesis using 1(1) [OF False] by (auto simp: of_char_digit)
  qed
qed

lemma dec_int_inj:
  assumes "dec_int i = dec_int j"
  shows "i = j"
proof -
  have minus: "CHR ''-'' # xs \<noteq> dec_nat n" for n xs
  proof
    assume "CHR ''-'' # xs = dec_nat n"
    then have "CHR ''-'' \<in> set (dec_nat n)" by (metis list.set_intros(1))
    then show False by (auto dest: digits_dec_nat)
  qed
  from assms show ?thesis
    using minus dec_nat_inj [of "nat i" "nat j"] dec_nat_inj [of "nat (- i)" "nat (- j)"]
    by (simp add: dec_int_def split: if_splits) (metis minus)+
qed

text \<open>The UTF-8 bytes of the dashes and the ellipsis in messages.\<close>

definition en_dash :: string where
  "en_dash = map char_of [226, 128, 147 :: nat]"

definition em_dash :: string where
  "em_dash = map char_of [226, 128, 148 :: nat]"

definition ellipsis :: string where
  "ellipsis = map char_of [226, 128, 166 :: nat]"

section \<open>Trimming and lines\<close>

text \<open>
  The characters \<open>trim\<close> removes: the White\_Space code points, in UTF-8.
\<close>

definition white_space :: "string list" where
  "white_space = map (map char_of)
     [[9], [10], [11], [12], [13], [32], [194, 133], [194, 160 :: nat], [225, 154, 128],
      [226, 128, 128], [226, 128, 129], [226, 128, 130], [226, 128, 131], [226, 128, 132],
      [226, 128, 133], [226, 128, 134], [226, 128, 135], [226, 128, 136], [226, 128, 137],
      [226, 128, 138], [226, 128, 168], [226, 128, 169], [226, 128, 175], [226, 129, 159],
      [227, 128, 128]]"

function trim_with :: "string list \<Rightarrow> string \<Rightarrow> string" where
  "trim_with ws s =
     (case find (\<lambda>w. w \<noteq> [] \<and> starts_with s w) ws of
        None \<Rightarrow> s
      | Some w \<Rightarrow> trim_with ws (drop (length w) s))"
  by pat_completeness auto
termination
  by (relation "measure (\<lambda>(ws, s). length s)")
    (auto simp: find_Some_iff starts_with_conv)

declare trim_with.simps [simp del]

definition trim :: "string \<Rightarrow> string" where
  "trim s = rev (trim_with (map rev white_space) (rev (trim_with white_space s)))"

text \<open>\<open>lines\<close>: split at newlines, a carriage return before one belongs to it.\<close>

function lines :: "string \<Rightarrow> string list" where
  "lines s =
     (if s = [] then []
      else let line = takeWhile (\<lambda>c. c \<noteq> CHR 0x0A) s;
               rest = dropWhile (\<lambda>c. c \<noteq> CHR 0x0A) s
           in if rest = [] then [line]
              else (if line \<noteq> [] \<and> last line = CHR 0x0D then butlast line else line) # lines (tl rest))"
  by pat_completeness auto
termination
proof (relation "measure length")
  fix s :: string and line rest :: string
  assume "s \<noteq> []" "rest = dropWhile (\<lambda>c. c \<noteq> CHR 0x0A) s" "rest \<noteq> []"
  then have "length rest \<le> length s" "0 < length rest" by (simp_all add: length_dropWhile_le)
  then show "(tl rest, s) \<in> measure length" by (cases rest) simp_all
qed simp

declare lines.simps [simp del]

section \<open>Splitting and tokens\<close>

fun split_on :: "char \<Rightarrow> string \<Rightarrow> string list" where
  "split_on c [] = [[]]"
| "split_on c (x # xs) =
     (if x = c then [] # split_on c xs
      else (case split_on c xs of [] \<Rightarrow> [[x]] | y # ys \<Rightarrow> (x # y) # ys))"

lemma split_on_no: "c \<notin> set s \<Longrightarrow> split_on c s = [s]"
  by (induction s) auto

lemma split_on_first: "c \<notin> set s \<Longrightarrow> split_on c (s @ c # r) = s # split_on c r"
  by (induction s) auto

lemma split_on_ne [simp]: "split_on c s \<noteq> []"
  by (cases s) (auto split: list.splits)

lemma hd_split_on: "hd (split_on c s) = takeWhile (\<lambda>x. x \<noteq> c) s"
proof (induction s)
  case (Cons x s)
  obtain y ys where "split_on c s = y # ys" by (meson neq_Nil_conv split_on_ne)
  then show ?case using Cons.IH by simp
qed simp

text \<open>
  A character kept in a file name or a subject: a letter or a digit of ASCII, a dash, an underscore,
  or an underscore for any other character (whose further bytes are dropped).
\<close>

definition token_char :: "char \<Rightarrow> char" where
  "token_char c = (let n = (of_char c :: nat) in
     if 48 \<le> n \<and> n \<le> 57 \<or> 65 \<le> n \<and> n \<le> 90 \<or> 97 \<le> n \<and> n \<le> 122 \<or> c = CHR ''-'' \<or> c = CHR ''_''
     then c else CHR ''_'')"

definition token_text :: "string \<Rightarrow> string" where
  "token_text s = map token_char (filter (\<lambda>c. \<not> (128 \<le> (of_char c :: nat) \<and> of_char c < (192 :: nat))) s)"

lemma token_char_kept: "token_char (token_char c) = token_char c"
  by (simp add: token_char_def Let_def)

lemma token_text_chars: "c \<in> set (token_text s) \<Longrightarrow> token_char c = c"
  by (auto simp: token_text_def token_char_kept)

end
