(* ===== verification/Writer.thy ===== *)
theory Writer
  imports Chain Format
begin

text \<open>
  \<open>crates/ancre-ingester/src/chain_writer.rs\<close>: the cursor of one chain. It allocates positions,
  links and seals events, and refuses the ids it remembers.

  The clock \<open>Timestamp::now()\<close> reads for \<open>ingested_at\<close> is an argument of \<open>append\<close>, here \<open>writer_append\<close>. A method that
  changes the writer returns the new writer first.
\<close>

section \<open>Operations\<close>

definition DEDUPE_WINDOW :: usize where
  "DEDUPE_WINDOW = 100000"

record chain_writer =
  cw_chain :: chain_id
  cw_next_seq :: u64
  cw_head_hash :: hash32
  cw_node_id :: string
  cw_seen :: "uuid \<rightharpoonup> u64"
  cw_seen_order :: "uuid list"
  cw_last_heartbeat_day :: "i64 option"

datatype ingest_error =
    IngestStore string
  | IngestChain chain_error
  | Duplicate uuid u64

definition resume_from :: "chain_id \<Rightarrow> string \<Rightarrow> u64 \<Rightarrow> hash32 \<Rightarrow> chain_writer" where
  "resume_from chain node_id last_seq head_hash =
     \<lparr>cw_chain = chain, cw_next_seq = last_seq + 1, cw_head_hash = head_hash, cw_node_id = node_id,
      cw_seen = Map.empty, cw_seen_order = [], cw_last_heartbeat_day = None\<rparr>"

definition writer_new :: "chain_id \<Rightarrow> string \<Rightarrow> chain_writer" where
  "writer_new chain node_id = resume_from chain node_id 0 GENESIS"

text \<open>The \<open>while\<close> loop of \<open>remember\<close>.\<close>

fun trim_seen :: "(uuid \<rightharpoonup> u64) \<Rightarrow> uuid list \<Rightarrow> (uuid \<rightharpoonup> u64) \<times> uuid list" where
  "trim_seen seen [] = (seen, [])"
| "trim_seen seen (old # rest) =
     (if length (old # rest) > DEDUPE_WINDOW then trim_seen (seen(old := None)) rest
      else (seen, old # rest))"

definition remember :: "chain_writer \<Rightarrow> uuid \<Rightarrow> u64 \<Rightarrow> chain_writer" where
  "remember w event_id s =
     (let (seen, order) = trim_seen ((cw_seen w)(event_id \<mapsto> s)) (cw_seen_order w @ [event_id])
      in w\<lparr>cw_seen := seen, cw_seen_order := order\<rparr>)"

definition chain_event ::
    "canon_prims \<Rightarrow> chain_writer \<Rightarrow> emitted_event \<Rightarrow> timestamp \<Rightarrow>
      chain_writer \<times> (audit_event, ingest_error) result" where
  "chain_event P w emitted now =
     (let event_id = e_event_id emitted;
          s = cw_next_seq w;
          event = \<lparr>ae_seq = s, ae_prev_hash = cw_head_hash w, ae_event_hash = GENESIS,
                   ae_canon_version = CANON_VERSION, ae_ingested_at = now, ae_emitted = emitted,
                   ae_payload_ref = '''', ae_subject_key_id = ''''\<rparr>
      in case seal P event of
           Inl e \<Rightarrow> (w, Err (IngestChain e))
         | Inr (h, event) \<Rightarrow>
             let w = w\<lparr>cw_head_hash := h\<rparr>;
                 w = w\<lparr>cw_next_seq := cw_next_seq w + 1\<rparr>
             in (remember w event_id s, Ok event))"

definition writer_append ::
    "canon_prims \<Rightarrow> chain_writer \<Rightarrow> emitted_event \<Rightarrow> timestamp \<Rightarrow>
      chain_writer \<times> (audit_event, ingest_error) result" where
  "writer_append P w event now =
     (case cw_seen w (e_event_id event) of
        Some s \<Rightarrow> (w, Err (Duplicate (e_event_id event) s))
      | None \<Rightarrow> chain_event P w event now)"

definition forget_after :: "chain_writer \<Rightarrow> u64 \<Rightarrow> chain_writer" where
  "forget_after w s =
     (let seen = (\<lambda>i. case cw_seen w i of Some at \<Rightarrow> if at < s then Some at else None | None \<Rightarrow> None)
      in w\<lparr>cw_seen := seen, cw_seen_order := filter (\<lambda>i. i \<in> dom seen) (cw_seen_order w)\<rparr>)"

definition rewind_to :: "chain_writer \<Rightarrow> u64 \<Rightarrow> hash32 \<Rightarrow> chain_writer" where
  "rewind_to w next_seq head_hash =
     forget_after (w\<lparr>cw_next_seq := next_seq, cw_head_hash := head_hash\<rparr>) next_seq"

text \<open>\<open>Uuid::from_bytes\<close>: 16 bytes, most significant first.\<close>

definition uuid_from_bytes :: "u8 list \<Rightarrow> uuid" where
  "uuid_from_bytes bs = foldl (\<lambda>u b. push_bit 8 u OR ucast b) 0 bs"

definition heartbeat_id :: "canon_prims \<Rightarrow> chain_id \<Rightarrow> i64 \<Rightarrow> uuid" where
  "heartbeat_id P chain day =
     (let h = hash_bytes (digest P) (str_bytes (''ancre-heartbeat/1|'' @ cid_tenant_id chain @ ''|'' @
                cid_system_id chain @ ''|'' @ dec_int day))
      in uuid_from_bytes (take 16 (as_bytes h)))"

definition heartbeat_event :: "canon_prims \<Rightarrow> chain_writer \<Rightarrow> timestamp \<Rightarrow> i64 \<Rightarrow> emitted_event" where
  "heartbeat_event P w now day =
     \<lparr>e_tenant_id = cid_tenant_id (cw_chain w), e_system_id = cid_system_id (cw_chain w),
      e_event_id = heartbeat_id P (cw_chain w) day, e_trace_id = '''', e_attempt_seq = 0,
      e_occurred_at = now, e_node_id = cw_node_id w, e_event_type = ChainHeartbeat,
      e_outcome = OutcomeOk, e_pins = null_baseline, e_request_digest = GENESIS,
      e_response_digest = GENESIS,
      e_metrics = \<lparr>m_provider = '''', m_http_status = 0, m_latency_ms = 0, m_ttft_ms = 0,
        m_tokens_in = 0, m_tokens_out = 0, m_error_code = ''''\<rparr>\<rparr>"

definition day_of :: "timestamp \<Rightarrow> i64" where
  "day_of now = now div 86400000000"

definition heartbeat ::
    "canon_prims \<Rightarrow> chain_writer \<Rightarrow> timestamp \<Rightarrow> timestamp \<Rightarrow>
      chain_writer \<times> (audit_event, ingest_error) result option" where
  "heartbeat P w now ingested =
     (let day = day_of now in
      if cw_last_heartbeat_day w = Some day then (w, None)
      else
        let w = w\<lparr>cw_last_heartbeat_day := Some day\<rparr>;
            (w, r) = writer_append P w (heartbeat_event P w now day) ingested
        in (w, Some r))"

text \<open>The events of a sequence of deliveries, in order, that were chained.\<close>

fun append_all ::
    "canon_prims \<Rightarrow> chain_writer \<Rightarrow> (emitted_event \<times> timestamp) list \<Rightarrow> chain_writer \<times> audit_event list" where
  "append_all P w [] = (w, [])"
| "append_all P w ((e, now) # rest) =
     (let (w, r) = writer_append P w e now; (w, out) = append_all P w rest
      in (w, case r of Inl _ \<Rightarrow> out | Inr ev \<Rightarrow> ev # out))"

section \<open>What the writer remembers\<close>

lemma trim_seen_conv:
  "trim_seen seen os =
    (\<lambda>i. if i \<in> set (take (length os - DEDUPE_WINDOW) os) then None else seen i,
     drop (length os - DEDUPE_WINDOW) os)"
proof (induction seen os rule: trim_seen.induct)
  case (2 seen old rest)
  show ?case
  proof (cases "length (old # rest) > DEDUPE_WINDOW")
    case True
    then have "length (old # rest) - DEDUPE_WINDOW = Suc (length rest - DEDUPE_WINDOW)" by simp
    then show ?thesis using True 2 by (simp del: fun_upd_apply) (auto simp: fun_eq_iff)
  qed simp
qed simp

text \<open>The memory of a writer as a function of the ids it has accepted: the last ones.\<close>

definition recent :: "'a list \<Rightarrow> 'a list" where
  "recent h = drop (length h - DEDUPE_WINDOW) h"

definition remembers :: "chain_writer \<Rightarrow> (uuid \<times> u64) list \<Rightarrow> bool" where
  "remembers w h \<longleftrightarrow> distinct (map fst (recent h)) \<and> cw_seen w = map_of (recent h) \<and>
     cw_seen_order w = map fst (recent h)"

lemma recent_Nil [simp]: "recent [] = []"
  by (simp add: recent_def)

lemma length_recent: "length (recent h) = min (length h) DEDUPE_WINDOW"
  by (simp add: recent_def)

lemma recent_short: "length h \<le> DEDUPE_WINDOW \<Longrightarrow> recent h = h"
  by (simp add: recent_def)

lemma recent_snoc: "recent (h @ [x]) = drop (length (recent h @ [x]) - DEDUPE_WINDOW) (recent h @ [x])"
  proof (cases "length h < DEDUPE_WINDOW")
  case False
  then obtain k where "length h = DEDUPE_WINDOW + k" by (metis add.commute le_Suc_ex linorder_not_less)
  then show ?thesis by (simp add: recent_def DEDUPE_WINDOW_def)
qed (simp add: recent_def)

lemma map_of_drop:
  assumes "distinct (map fst l)"
  shows "map_of (drop n l) = (\<lambda>i. if i \<in> set (take n (map fst l)) then None else map_of l i)"
proof -
  have l: "map_of l i = (map_of (drop n l) ++ map_of (take n l)) i" for i
    by (metis append_take_drop_id map_of_append)
  have d: "distinct (map fst (take n l) @ map fst (drop n l))"
    using assms by (simp flip: map_append)
  have "map_of (drop n l) i = map_of l i" if "i \<notin> fst ` set (take n l)" for i
    using that map_of_eq_None_iff [of "take n l" i] unfolding l by (simp add: map_add_def)
  moreover have "map_of (drop n l) i = None" if "i \<in> fst ` set (take n l)" for i
    using that d by (auto simp: map_of_eq_None_iff)
  ultimately show ?thesis by (auto simp: fun_eq_iff take_map)
qed

lemma trim_seen_map_of:
  assumes "distinct (map fst l)"
  shows "trim_seen (map_of l) (map fst l) =
    (map_of (drop (length l - DEDUPE_WINDOW) l), map fst (drop (length l - DEDUPE_WINDOW) l))"
  unfolding trim_seen_conv map_of_drop [OF assms] by (simp add: drop_map)

lemma remembers_step:
  assumes "remembers w h" "cw_seen w i = None"
  shows "remembers (remember w i s) (h @ [(i, s)])"
proof -
  define l where "l = recent h @ [(i, s)]"
  have w: "distinct (map fst (recent h))" "cw_seen w = map_of (recent h)"
    "cw_seen_order w = map fst (recent h)"
    using assms(1) by (simp_all add: remembers_def)
  have new: "map_of (recent h) i = None" using assms(2) w(2) by simp
  then have d: "distinct (map fst l)"
    using w(1) by (simp add: map_of_eq_None_iff l_def)
  have m: "map_of l = (cw_seen w)(i \<mapsto> s)"
    using new by (simp add: map_add_upd_left domIff l_def w)
  have o: "map fst l = cw_seen_order w @ [i]" by (simp add: l_def w)
  have "recent (h @ [(i, s)]) = drop (length l - DEDUPE_WINDOW) l"
    unfolding l_def by (rule recent_snoc)
  moreover have "distinct (map fst (drop n l))" for n using d by (metis distinct_drop drop_map)
  ultimately show ?thesis
    unfolding remembers_def remember_def Let_def m [symmetric] o [symmetric] trim_seen_map_of [OF d]
    by simp
qed

lemma remember_sel [simp]:
  "cw_chain (remember w i s) = cw_chain w" "cw_next_seq (remember w i s) = cw_next_seq w"
  "cw_head_hash (remember w i s) = cw_head_hash w" "cw_node_id (remember w i s) = cw_node_id w"
  "cw_last_heartbeat_day (remember w i s) = cw_last_heartbeat_day w"
  by (simp_all add: remember_def split: prod.splits)

lemma event_hash_unsealed: "event_hash P (e\<lparr>ae_event_hash := h\<rparr>) = event_hash P e"
  by (simp add: event_hash_def event_hashed_body_def hashed_view_def)

text \<open>What an accepted event is, and how it moves the cursor.\<close>

definition follows :: "canon_prims \<Rightarrow> chain_writer \<Rightarrow> emitted_event \<Rightarrow> audit_event \<Rightarrow> chain_writer \<Rightarrow> bool" where
  "follows P w e ev w' \<longleftrightarrow>
     cw_seen w (e_event_id e) = None \<and>
     ae_emitted ev = e \<and> ae_seq ev = cw_next_seq w \<and> ae_prev_hash ev = cw_head_hash w \<and>
     ae_canon_version ev = CANON_VERSION \<and> event_hash P ev = Ok (ae_event_hash ev) \<and>
     w' = remember (w\<lparr>cw_head_hash := ae_event_hash ev, cw_next_seq := cw_next_seq w + 1\<rparr>)
            (e_event_id e) (cw_next_seq w)"

lemma writer_append_cases:
  obtains (duplicate) s where "cw_seen w (e_event_id e) = Some s"
      "writer_append P w e now = (w, Err (Duplicate (e_event_id e) s))"
  | (failed) err where "cw_seen w (e_event_id e) = None" "writer_append P w e now = (w, Err (IngestChain err))"
  | (chained) ev w' where "writer_append P w e now = (w', Ok ev)" "follows P w e ev w'"
proof (cases "cw_seen w (e_event_id e)")
  case None
  let ?ev = "\<lparr>ae_seq = cw_next_seq w, ae_prev_hash = cw_head_hash w, ae_event_hash = GENESIS,
     ae_canon_version = CANON_VERSION, ae_ingested_at = now, ae_emitted = e, ae_payload_ref = '''',
     ae_subject_key_id = ''''\<rparr>"
  show ?thesis
  proof (cases "event_hash P ?ev")
    case (Inl err)
    then have "writer_append P w e now = (w, Err (IngestChain err))"
      using None by (simp add: writer_append_def chain_event_def seal_def)
    then show ?thesis using failed None by blast
  next
    case (Inr h)
    let ?w = "remember (w\<lparr>cw_head_hash := h, cw_next_seq := cw_next_seq w + 1\<rparr>) (e_event_id e) (cw_next_seq w)"
    have "writer_append P w e now = (?w, Ok (?ev\<lparr>ae_event_hash := h\<rparr>))"
      using None Inr by (simp add: writer_append_def chain_event_def seal_def Let_def)
    moreover have "follows P w e (?ev\<lparr>ae_event_hash := h\<rparr>) ?w"
      using None Inr event_hash_unsealed [of P h ?ev] by (simp add: follows_def)
    ultimately show ?thesis using chained by blast
  qed
qed (use duplicate in \<open>simp add: writer_append_def\<close>)

section \<open>Sequences of deliveries\<close>

abbreviation event_key :: "audit_event \<Rightarrow> uuid \<times> u64" where
  "event_key ev \<equiv> (e_event_id (ae_emitted ev), ae_seq ev)"

lemma follows_sel:
  assumes "follows P w e ev w'"
  shows "cw_next_seq w' = cw_next_seq w + 1" "cw_head_hash w' = ae_event_hash ev"
    "cw_chain w' = cw_chain w" "cw_node_id w' = cw_node_id w"
    "cw_last_heartbeat_day w' = cw_last_heartbeat_day w"
    "ae_seq ev = cw_next_seq w" "ae_prev_hash ev = cw_head_hash w" "ae_emitted ev = e"
    "ae_canon_version ev = CANON_VERSION" "event_hash P ev = Ok (ae_event_hash ev)"
    "cw_seen w (e_event_id e) = None"
  using assms by (auto simp: follows_def)

lemma follows_remembers:
  assumes "follows P w e ev w'" "remembers w h"
  shows "remembers w' (h @ [event_key ev])"
proof -
  let ?w = "w\<lparr>cw_head_hash := ae_event_hash ev, cw_next_seq := cw_next_seq w + 1\<rparr>"
  have "remembers ?w h" "cw_seen ?w (e_event_id e) = None"
    using assms by (simp_all add: remembers_def follows_def)
  then show ?thesis using assms(1) remembers_step by (simp add: follows_def)
qed

lemma append_all_induct [consumes 1, case_names Nil refused accepted]:
  assumes "append_all P w items = (w', evs)"
    and "\<And>w. Q w [] w []"
    and "\<And>w e now items w' evs. cw_seen w (e_event_id e) \<noteq> None \<or> fst (writer_append P w e now) = w \<Longrightarrow>
      append_all P w items = (w', evs) \<Longrightarrow>
      Q w items w' evs \<Longrightarrow> Q w ((e, now) # items) w' evs"
    and "\<And>w e now items w' evs w'' ev. follows P w e ev w'' \<Longrightarrow> append_all P w'' items = (w', evs) \<Longrightarrow>
      Q w'' items w' evs \<Longrightarrow> Q w ((e, now) # items) w' (ev # evs)"
  shows "Q w items w' evs"
  using assms(1)
proof (induction items arbitrary: w w' evs)
  case (Cons x items)
  obtain e now where x: "x = (e, now)" by fastforce
  show ?case
  proof (cases rule: writer_append_cases [of w e P now])
    case (chained ev w'')
    then obtain es where "append_all P w'' items = (w', es)" "evs = ev # es"
      using Cons.prems x by (auto split: prod.splits)
    then show ?thesis using x chained Cons.IH assms(4) by blast
  qed (use Cons x assms(3) in \<open>auto split: prod.splits\<close>)
qed (use assms(2) in simp)

lemma append_all_chained:
  assumes "append_all P w items = (w', evs)"
  shows "chained P (Some (cw_next_seq w - 1)) (cw_head_hash w) evs \<and>
    cw_head_hash w' = head_of (cw_head_hash w) evs \<and>
    cw_next_seq w' = cw_next_seq w + of_nat (length evs) \<and>
    map ae_seq evs = map (\<lambda>i. cw_next_seq w + of_nat i) [0..<length evs]"
  using assms
proof (induction rule: append_all_induct)
  case (accepted w e now items w' evs w'' ev)
  have "map (\<lambda>i. cw_next_seq w'' + of_nat i) [0..<length evs] =
      map (\<lambda>i. cw_next_seq w + of_nat i) [1..<Suc (length evs)]"
    unfolding map_Suc_upt [symmetric] One_nat_def
    by (simp add: follows_sel [OF accepted(1)] algebra_simps)
  then show ?case using accepted
    by (simp add: follows_sel [OF accepted(1)] upt_conv_Cons del: upt_Suc)
qed simp_all

lemma append_all_fixed:
  assumes "append_all P w items = (w', evs)"
  shows "cw_chain w' = cw_chain w \<and> cw_node_id w' = cw_node_id w \<and>
    cw_last_heartbeat_day w' = cw_last_heartbeat_day w"
  using assms by (induction rule: append_all_induct) (simp_all add: follows_sel)

lemma append_all_length:
  assumes "append_all P w items = (w', evs)"
  shows "length evs \<le> length items"
  using assms by (induction rule: append_all_induct) simp_all

lemma append_all_remembers:
  assumes "append_all P w items = (w', evs)" "remembers w h"
  shows "remembers w' (h @ map event_key evs)"
  using assms
proof (induction arbitrary: h rule: append_all_induct)
  case (accepted w e now items w' evs w'' ev)
  then show ?case using follows_remembers [OF accepted(1), of h] by force
qed simp_all

lemma remembers_resumed [simp]: "remembers (resume_from c n s h) []"
  by (simp add: remembers_def resume_from_def)

lemma resume_from_sel [simp]:
  "cw_next_seq (resume_from c n s h) = s + 1" "cw_head_hash (resume_from c n s h) = h"
  "cw_chain (resume_from c n s h) = c" "cw_node_id (resume_from c n s h) = n"
  "cw_last_heartbeat_day (resume_from c n s h) = None" "cw_seen (resume_from c n s h) i = None"
  by (simp_all add: resume_from_def)

section \<open>The invariant of a writer\<close>

definition writer_ok :: "chain_writer \<Rightarrow> bool" where
  "writer_ok w \<longleftrightarrow> distinct (cw_seen_order w) \<and> set (cw_seen_order w) = dom (cw_seen w) \<and>
     length (cw_seen_order w) \<le> DEDUPE_WINDOW \<and> (\<forall>s \<in> ran (cw_seen w). s < cw_next_seq w)"

lemma writer_ok_remembers:
  assumes "writer_ok w"
  shows "remembers w (map (\<lambda>i. (i, the (cw_seen w i))) (cw_seen_order w))"
proof -
  let ?h = "map (\<lambda>i. (i, the (cw_seen w i))) (cw_seen_order w)"
  have w: "distinct (cw_seen_order w)" "set (cw_seen_order w) = dom (cw_seen w)"
    using assms by (simp_all add: writer_ok_def)
  have "map_of ?h i = cw_seen w i" for i
    using w(2) by (cases "cw_seen w i") (auto simp: map_of_map_restrict restrict_map_def domIff)
  moreover have "recent ?h = ?h" using assms by (simp add: recent_short writer_ok_def)
  ultimately show ?thesis using w by (simp add: remembers_def fun_eq_iff comp_def)
qed

lemma writer_ok_resumed [simp]: "writer_ok (resume_from c n s h)"
  by (simp add: writer_ok_def resume_from_def)

lemma remembers_bounded: "remembers w h \<Longrightarrow> distinct (cw_seen_order w) \<and>
    set (cw_seen_order w) = dom (cw_seen w) \<and> length (cw_seen_order w) \<le> DEDUPE_WINDOW"
  by (simp add: remembers_def dom_map_of_conv_image_fst length_recent)

lemma ran_remember: "ran (cw_seen (remember w i s)) \<subseteq> insert s (ran (cw_seen w))"
  by (auto simp: remember_def trim_seen_conv ran_def split: if_splits)

lemma writer_ok_append:
  assumes "writer_ok w" "cw_next_seq w < - 1" "writer_append P w e now = (w', r)"
  shows "writer_ok w'"
proof (cases rule: writer_append_cases [of w e P now])
  case (chained ev w'')
  then have w': "w' = w''" "follows P w e ev w'" using assms(3) by simp_all
  have less: "cw_next_seq w < cw_next_seq w + 1" using assms(2) by (rule word_less_inc)
  have "\<forall>s \<in> ran (cw_seen w'). s < cw_next_seq w'"
  proof
    fix s assume "s \<in> ran (cw_seen w')"
    then have "s = cw_next_seq w \<or> s \<in> ran (cw_seen w)"
      using w'(2) ran_remember unfolding follows_def by fastforce
    then show "s < cw_next_seq w'"
      using assms(1) less w'(2) by (auto simp: follows_sel writer_ok_def intro: less_trans)
  qed
  then show ?thesis
    using remembers_bounded [OF follows_remembers [OF w'(2) writer_ok_remembers [OF assms(1)]]]
    by (simp add: writer_ok_def)
qed (use assms in simp_all)

lemma rewind_sel [simp]:
  "cw_next_seq (rewind_to w n h) = n" "cw_head_hash (rewind_to w n h) = h"
  "cw_chain (rewind_to w n h) = cw_chain w" "cw_node_id (rewind_to w n h) = cw_node_id w"
  "cw_last_heartbeat_day (rewind_to w n h) = cw_last_heartbeat_day w"
  "cw_seen (rewind_to w n h) i = (case cw_seen w i of Some s \<Rightarrow> if s < n then Some s else None | None \<Rightarrow> None)"
  by (simp_all add: rewind_to_def forget_after_def Let_def)

lemma writer_ok_rewind: "writer_ok w \<Longrightarrow> writer_ok (rewind_to w n h)"
  by (auto simp: writer_ok_def rewind_to_def forget_after_def Let_def ran_def dom_def
      intro: order_trans [OF length_filter_le] split: option.splits if_splits)

text \<open>A batch is remembered beside what was remembered before it, at later positions.\<close>

lemma batch_memory:
  assumes "writer_ok w" "append_all P w items = (w', evs)"
    and "length (cw_seen_order w) + length evs \<le> DEDUPE_WINDOW"
  obtains h where "cw_seen w' = map_of (h @ map event_key evs)"
    "cw_seen_order w' = map fst h @ map fst (map event_key evs)"
    "distinct (map fst h @ map fst (map event_key evs))"
    "cw_seen w = map_of h" "cw_seen_order w = map fst h"
proof -
  define h where "h = map (\<lambda>i. (i, the (cw_seen w i))) (cw_seen_order w)"
  let ?k = "map event_key evs"
  have "remembers w' (h @ ?k)" "remembers w h"
    using append_all_remembers [OF assms(2) writer_ok_remembers] writer_ok_remembers assms(1)
    by (simp_all add: h_def)
  moreover have "recent (h @ ?k) = h @ ?k" "recent h = h"
    using assms(3) by (simp_all add: recent_short h_def)
  ultimately show thesis using that [of h] by (simp add: remembers_def)
qed

lemma batch_positions:
  assumes "append_all P w items = (w', evs)" "unat (cw_next_seq w) + length evs < 2 ^ 64"
    and "(i, s) \<in> set (map event_key evs)"
  shows "\<not> s < cw_next_seq w"
proof -
  have "s \<in> set (map ae_seq evs)" using assms(3) by force
  then obtain n where n: "n < length evs" "s = cw_next_seq w + of_nat n"
    using append_all_chained [OF assms(1)] by auto
  have "unat (word_of_nat k :: u64) = k" if "k < 2 ^ 64" for k
    using that by (simp add: unat_of_nat take_bit_nat_eq_self)
  from this [of "unat (cw_next_seq w) + n"] n(1) assms(2)
  have "unat (cw_next_seq w + of_nat n) = unat (cw_next_seq w) + n" by simp
  then show ?thesis using n(2) by (simp add: not_less word_le_nat_alt)
qed

section \<open>Properties\<close>

text \<open>
  C31. Whatever a writer is given, what it chains verifies: the events of any sequence of
  deliveries are a clean range from the writer's head, at consecutive positions from its next
  one (duplicates and events that cannot be encoded take none), and the writer ends on their
  head.
\<close>

theorem appended_chain_verifies:
  "let (w', evs) = append_all P w items; report = verify_range P evs (cw_head_hash w)
   in is_clean report \<and> cr_head_hash report = cw_head_hash w' \<and>
      map ae_seq evs = map (\<lambda>i. cw_next_seq w + of_nat i) [0..<length evs] \<and>
      cw_next_seq w' = cw_next_seq w + of_nat (length evs)"
proof -
  obtain w' evs where "append_all P w items = (w', evs)" by fastforce
  then show ?thesis using append_all_chained [of P w items w' evs]
    by (simp add: is_clean_iff) (blast dest: chained_None)
qed

text \<open>
  Deduplication is exact over its window: a writer that was resumed and has chained a
  sequence of deliveries refuses an event, unchanged, exactly when its id is among the last
  \<open>DEDUPE_WINDOW\<close> ids it chained (each of them once), and names the position of that event.
\<close>

theorem dedupe_window_exact:
  "let (w', evs) = append_all P (resume_from chain node last_seq head_hash) items;
       window = recent (map event_key evs)
   in distinct (map fst window) \<and> length window \<le> DEDUPE_WINDOW \<and>
      (\<forall>e now s. writer_append P w' e now = (w', Err (Duplicate (e_event_id e) s)) \<longleftrightarrow>
         (e_event_id e, s) \<in> set window)"
proof -
  obtain w' evs where run: "append_all P (resume_from chain node last_seq head_hash) items = (w', evs)"
    by fastforce
  have mem: "remembers w' (map event_key evs)"
    using append_all_remembers [OF run remembers_resumed] by simp
  then have "cw_seen w' i = Some s \<longleftrightarrow> (i, s) \<in> set (recent (map event_key evs))" for i s
    by (simp add: remembers_def)
  moreover have "writer_append P w' e now = (w', Err (Duplicate (e_event_id e) s)) \<longleftrightarrow>
      cw_seen w' (e_event_id e) = Some s" for e now s
    by (cases rule: writer_append_cases [of w' e P now]) (auto simp: follows_sel)
  ultimately show ?thesis using mem unfolding run by (simp add: remembers_def length_recent)
qed

text \<open>
  C38. A batch that was chained and not stored leaves no trace: rewinding the writer to the
  cursor it had before the batch gives that writer back, its memory included, so that every
  event of the batch is chained again when it is delivered again (up to the end of the range of
  positions, and as long as the window holds the ids of both).
\<close>

theorem rewind_undoes_batch:
  assumes "writer_ok w" "append_all P w items = (w', evs)"
    and "length (cw_seen_order w) + length evs \<le> DEDUPE_WINDOW"
    and "unat (cw_next_seq w) + length evs < 2 ^ 64"
  shows "rewind_to w' (cw_next_seq w) (cw_head_hash w) = w"
proof -
  let ?k = "map event_key evs"
  obtain h where mem: "cw_seen w' = map_of (h @ ?k)" "cw_seen_order w' = map fst h @ map fst ?k"
      "distinct (map fst h @ map fst ?k)" "cw_seen w = map_of h" "cw_seen_order w = map fst h"
    by (rule batch_memory [OF assms(1-3)])
  note late = batch_positions [OF assms(2,4)]
  have early: "s < cw_next_seq w" if "cw_seen w i = Some s" for i s
    using that assms(1) by (auto simp: writer_ok_def ran_def)
  have seen: "cw_seen (rewind_to w' (cw_next_seq w) (cw_head_hash w)) = cw_seen w"
  proof
    fix i
    show "cw_seen (rewind_to w' (cw_next_seq w) (cw_head_hash w)) i = cw_seen w i"
    proof (cases "map_of ?k i")
      case None
      then show ?thesis
        using early [of i] unfolding mem(4) by (auto simp: mem(1) map_add_def split: option.splits)
    next
      case (Some s)
      then have "\<not> s < cw_next_seq w" "cw_seen w i = None"
        using late mem(3,4) map_of_SomeD [OF Some] by (auto simp: map_of_eq_None_iff image_iff)
      then show ?thesis using Some mem(4) by (simp add: mem(1) map_add_def)
    qed
  qed
  have order: "cw_seen_order (rewind_to w' (cw_next_seq w) (cw_head_hash w)) =
      filter (\<lambda>i. i \<in> dom (cw_seen w)) (cw_seen_order w')"
    unfolding seen [symmetric] by (simp add: rewind_to_def forget_after_def Let_def dom_def cong: filter_cong)
  have "filter (\<lambda>i. i \<in> dom (map_of h)) (map fst h @ map fst ?k) = map fst h"
    using mem(3) by (auto simp: dom_map_of_conv_image_fst filter_id_conv filter_empty_conv)
  then have "cw_seen_order (rewind_to w' (cw_next_seq w) (cw_head_hash w)) = cw_seen_order w"
    by (simp only: order mem(2,4,5))
  moreover have "cw_chain w' = cw_chain w \<and> cw_node_id w' = cw_node_id w \<and>
      cw_last_heartbeat_day w' = cw_last_heartbeat_day w"
    using assms(2) by (rule append_all_fixed)
  ultimately show ?thesis using seen by (intro chain_writer.equality) simp_all
qed

theorem rewind_undoes_batch_witness:
  "let w = writer_new \<lparr>cid_tenant_id = ''t'', cid_system_id = ''s''\<rparr> ''n'';
       batch = [(demo_emitted 4, 0), (demo_emitted 5, 0), (demo_emitted 4, 0)]
   in rewind_to (fst (append_all chain_prims w batch)) (cw_next_seq w) (cw_head_hash w) = w"
proof -
  let ?w = "writer_new \<lparr>cid_tenant_id = ''t'', cid_system_id = ''s''\<rparr> ''n''"
  let ?batch = "[(demo_emitted 4, 0), (demo_emitted 5, 0), (demo_emitted 4, 0)] :: (emitted_event \<times> timestamp) list"
  obtain w' evs where run: "append_all chain_prims ?w ?batch = (w', evs)" by fastforce
  have len: "length evs \<le> length ?batch" using append_all_length [OF run] .
  have "rewind_to w' (cw_next_seq ?w) (cw_head_hash ?w) = ?w"
    using len by (intro rewind_undoes_batch [OF _ run])
      (simp_all add: writer_new_def, simp_all add: resume_from_def DEDUPE_WINDOW_def)
  then show ?thesis using run by (simp add: Let_def)
qed

end
