(* ===== verification/Row.thy ===== *)
theory Row
  imports Writer
begin

text \<open>
  \<open>crates/ancre-ingester/src/clickhouse.rs\<close>: the flat row an event is stored as, the reading back
  of rows, and the event store over the ClickHouse client.

  The column types are those of the struct; \<open>[u8; 32]\<close> is a list of bytes and \<open>i8\<close> a byte. The
  client is third-party code: a record of its operations on the state \<open>'s\<close> of the outside
  world, with its errors already printed. \<open>dbg\<close> is how \<open>{:?}\<close> prints a string.
\<close>

section \<open>Rows\<close>

record audit_event_row =
  r_tenant_id :: string
  r_system_id :: string
  r_seq :: u64
  r_event_id :: uuid
  r_trace_id :: string
  r_attempt_seq :: u16
  r_prev_hash :: "u8 list"
  r_event_hash :: "u8 list"
  r_canon_version :: string
  r_occurred_at :: i64
  r_ingested_at :: i64
  r_node_id :: string
  r_event_type :: string
  r_outcome :: string
  r_config_generation :: u64
  r_config_hash :: "u8 list"
  r_system_version :: string
  r_ifu_version :: string
  r_model_id :: string
  r_model_version :: string
  r_prompt_id :: string
  r_prompt_version :: string
  r_policy_id :: string
  r_policy_version :: string
  r_gateway_version :: string
  r_risk_class :: "8 word"
  r_resolved_stale :: u8
  r_risk_flags :: "string list"
  r_request_digest :: "u8 list"
  r_response_digest :: "u8 list"
  r_payload_ref :: string
  r_subject_key_id :: string
  r_provider :: string
  r_http_status :: u16
  r_latency_ms :: u32
  r_ttft_ms :: u32
  r_tokens_in :: u32
  r_tokens_out :: u32
  r_error_code :: string

definition row_of :: "audit_event \<Rightarrow> audit_event_row" where
  "row_of ev =
    (let e = ae_emitted ev; m = e_metrics e; p = e_pins e in
     \<lparr>r_tenant_id = e_tenant_id e,
      r_system_id = e_system_id e,
      r_seq = ae_seq ev,
      r_event_id = e_event_id e,
      r_trace_id = e_trace_id e,
      r_attempt_seq = e_attempt_seq e,
      r_prev_hash = as_bytes (ae_prev_hash ev),
      r_event_hash = as_bytes (ae_event_hash ev),
      r_canon_version = ae_canon_version ev,
      r_occurred_at = e_occurred_at e,
      r_ingested_at = ae_ingested_at ev,
      r_node_id = e_node_id e,
      r_event_type = event_type_as_str (e_event_type e),
      r_outcome = outcome_as_str (e_outcome e),
      r_config_generation = p_config_generation p,
      r_config_hash = as_bytes (p_config_hash p),
      r_system_version = p_system_version p,
      r_ifu_version = p_ifu_version p,
      r_model_id = p_model_id p,
      r_model_version = p_model_version p,
      r_prompt_id = p_prompt_id p,
      r_prompt_version = p_prompt_version p,
      r_policy_id = p_policy_id p,
      r_policy_version = p_policy_version p,
      r_gateway_version = p_gateway_version p,
      r_risk_class = as_discriminant (p_risk_class p),
      r_resolved_stale = (if p_resolved_stale p then 1 else 0),
      r_risk_flags = sort (map risk_flag_as_str (p_risk_flags p)),
      r_request_digest = as_bytes (e_request_digest e),
      r_response_digest = as_bytes (e_response_digest e),
      r_payload_ref = ae_payload_ref ev,
      r_subject_key_id = ae_subject_key_id ev,
      r_provider = m_provider m,
      r_http_status = m_http_status m,
      r_latency_ms = m_latency_ms m,
      r_ttft_ms = m_ttft_ms m,
      r_tokens_in = m_tokens_in m,
      r_tokens_out = m_tokens_out m,
      r_error_code = m_error_code m\<rparr>)"

definition unknown_value :: "(string \<Rightarrow> string) \<Rightarrow> audit_event_row \<Rightarrow> string \<Rightarrow> string \<Rightarrow> ingest_error" where
  "unknown_value dbg r field value =
     IngestStore (''row at seq '' @ dec_nat (unat (r_seq r)) @ '': unknown '' @ field @ '' '' @
       dbg value @ '' '' @ em_dash @ '' written under a different rule set (canon_version '' @
       dbg (r_canon_version r) @ '')'')"

definition event_of_row ::
    "(string \<Rightarrow> string) \<Rightarrow> audit_event_row \<Rightarrow> (audit_event, ingest_error) result" where
  "event_of_row dbg r =
     and_then (ok_or (unknown_value dbg r ''event_type'' (r_event_type r))
                 (event_type_from_wire (r_event_type r))) (\<lambda>event_type.
     and_then (ok_or (unknown_value dbg r ''outcome'' (r_outcome r))
                 (outcome_from_wire (r_outcome r))) (\<lambda>outcome.
     and_then (ok_or (unknown_value dbg r ''risk_class'' (dec_int (sint (r_risk_class r))))
                 (from_discriminant (r_risk_class r))) (\<lambda>risk_class.
     and_then (try_map (\<lambda>f. ok_or (unknown_value dbg r ''risk_flag'' f) (risk_flag_from_wire f))
                 (r_risk_flags r)) (\<lambda>risk_flags.
     Ok \<lparr>ae_seq = r_seq r,
         ae_prev_hash = from_bytes (r_prev_hash r),
         ae_event_hash = from_bytes (r_event_hash r),
         ae_canon_version = r_canon_version r,
         ae_ingested_at = r_ingested_at r,
         ae_emitted =
           \<lparr>e_tenant_id = r_tenant_id r,
            e_system_id = r_system_id r,
            e_event_id = r_event_id r,
            e_trace_id = r_trace_id r,
            e_attempt_seq = r_attempt_seq r,
            e_occurred_at = r_occurred_at r,
            e_node_id = r_node_id r,
            e_event_type = event_type,
            e_outcome = outcome,
            e_pins =
              \<lparr>p_config_generation = r_config_generation r,
               p_config_hash = from_bytes (r_config_hash r),
               p_system_id = r_system_id r,
               p_system_version = r_system_version r,
               p_ifu_version = r_ifu_version r,
               p_model_id = r_model_id r,
               p_model_version = r_model_version r,
               p_prompt_id = r_prompt_id r,
               p_prompt_version = r_prompt_version r,
               p_policy_id = r_policy_id r,
               p_policy_version = r_policy_version r,
               p_gateway_version = r_gateway_version r,
               p_risk_class = risk_class,
               p_resolved_stale = (r_resolved_stale r \<noteq> 0),
               p_risk_flags = risk_flags\<rparr>,
            e_request_digest = from_bytes (r_request_digest r),
            e_response_digest = from_bytes (r_response_digest r),
            e_metrics =
              \<lparr>m_provider = r_provider r,
               m_http_status = r_http_status r,
               m_latency_ms = r_latency_ms r,
               m_ttft_ms = r_ttft_ms r,
               m_tokens_in = r_tokens_in r,
               m_tokens_out = r_tokens_out r,
               m_error_code = r_error_code r\<rparr>\<rparr>,
         ae_payload_ref = r_payload_ref r,
         ae_subject_key_id = r_subject_key_id r\<rparr>))))"

section \<open>The store\<close>

text \<open>The row of the head query, named as in its \<open>SELECT\<close>.\<close>

record head_row =
  head_seq :: u64
  head_hash :: "u8 list"

record 's clickhouse =
  ck_insert :: "'s \<Rightarrow> string \<Rightarrow> 's \<times> (unit, string) result"
  ck_write :: "'s \<Rightarrow> audit_event_row \<Rightarrow> 's \<times> (unit, string) result"
  ck_end :: "'s \<Rightarrow> 's \<times> (unit, string) result"
  ck_head_query :: "'s \<Rightarrow> string \<Rightarrow> string \<Rightarrow> 's \<times> (head_row list, string) result"
  ck_get_query :: "'s \<Rightarrow> string \<Rightarrow> string \<Rightarrow> u64 \<Rightarrow> 's \<times> (audit_event_row list, string) result"
  ck_range_query :: "'s \<Rightarrow> string \<Rightarrow> string \<Rightarrow> u64 \<Rightarrow> u64 \<Rightarrow> 's \<times> (audit_event_row list, string) result"

definition TABLE :: string where
  "TABLE = ''audit_events''"

definition store_err :: "string \<Rightarrow> ingest_error" where
  "store_err e = IngestStore e"

primrec write_rows ::
    "'s clickhouse \<Rightarrow> 's \<Rightarrow> audit_event list \<Rightarrow> 's \<times> (unit, ingest_error) result" where
  "write_rows C s [] = (s, Ok ())"
| "write_rows C s (event # events) =
     (case ck_write C s (row_of event) of
        (s, Inl e) \<Rightarrow> (s, Err (store_err e))
      | (s, Inr _) \<Rightarrow> write_rows C s events)"

definition clickhouse_insert ::
    "'s clickhouse \<Rightarrow> 's \<Rightarrow> audit_event list \<Rightarrow> 's \<times> (unit, ingest_error) result" where
  "clickhouse_insert C s batch =
     (if batch = [] then (s, Ok ())
      else case ck_insert C s TABLE of
             (s, Inl e) \<Rightarrow> (s, Err (store_err e))
           | (s, Inr _) \<Rightarrow>
               (case write_rows C s batch of
                  (s, Inl e) \<Rightarrow> (s, Err e)
                | (s, Inr _) \<Rightarrow>
                    (case ck_end C s of (s, r) \<Rightarrow> (s, map_err store_err r))))"

text \<open>\<open>into_iter().next().filter(...).map(...)\<close>.\<close>

definition read_head :: "head_row list \<Rightarrow> (u64 \<times> hash32) option" where
  "read_head rows =
     (case rows of [] \<Rightarrow> None
      | h # _ \<Rightarrow> if head_seq h > 0 then Some (head_seq h, from_bytes (head_hash h)) else None)"

definition clickhouse_head ::
    "'s clickhouse \<Rightarrow> 's \<Rightarrow> chain_id \<Rightarrow> 's \<times> ((u64 \<times> hash32) option, ingest_error) result" where
  "clickhouse_head C s chain =
     (case ck_head_query C s (cid_tenant_id chain) (cid_system_id chain) of
        (s, Inl e) \<Rightarrow> (s, Err (store_err e))
      | (s, Inr rows) \<Rightarrow> (s, Ok (read_head rows)))"

definition clickhouse_get ::
    "'s clickhouse \<Rightarrow> (string \<Rightarrow> string) \<Rightarrow> 's \<Rightarrow> chain_id \<Rightarrow> u64 \<Rightarrow>
      's \<times> (audit_event option, ingest_error) result" where
  "clickhouse_get C dbg s chain seq =
     (case ck_get_query C s (cid_tenant_id chain) (cid_system_id chain) seq of
        (s, Inl e) \<Rightarrow> (s, Err (store_err e))
      | (s, Inr rows) \<Rightarrow>
          (s, case rows of [] \<Rightarrow> Ok None
              | r # _ \<Rightarrow> and_then (event_of_row dbg r) (\<lambda>e. Ok (Some e))))"

definition clickhouse_range ::
    "'s clickhouse \<Rightarrow> (string \<Rightarrow> string) \<Rightarrow> 's \<Rightarrow> chain_id \<Rightarrow> u64 \<Rightarrow> u64 \<Rightarrow>
      's \<times> (audit_event list, ingest_error) result" where
  "clickhouse_range C dbg s chain seq_from seq_to =
     (case ck_range_query C s (cid_tenant_id chain) (cid_system_id chain) seq_from seq_to of
        (s, Inl e) \<Rightarrow> (s, Err (store_err e))
      | (s, Inr rows) \<Rightarrow> (s, try_map (event_of_row dbg) rows))"

section \<open>Reading back what was written\<close>

text \<open>
  The event a row gives back: the pins' system id is the event's, and the risk flags are in the
  order of their names.
\<close>

definition stored_form :: "audit_event \<Rightarrow> audit_event" where
  "stored_form ev =
     (let e = ae_emitted ev; p = e_pins e in
      ev\<lparr>ae_emitted := e\<lparr>e_pins := p\<lparr>p_system_id := e_system_id e,
         p_risk_flags := map (the \<circ> risk_flag_from_wire) (sort (map risk_flag_as_str (p_risk_flags p)))\<rparr>\<rparr>\<rparr>)"

lemma flags_read_back:
  assumes "set fs \<subseteq> range risk_flag_as_str"
  shows "try_map (\<lambda>f. ok_or (g f) (risk_flag_from_wire f)) fs = Inr (map (the \<circ> risk_flag_from_wire) fs)"
  using assms by (intro try_map_Inr_map) (auto simp: risk_flag_wire.read_written)

lemma flag_names_back:
  assumes "set fs \<subseteq> range risk_flag_as_str"
  shows "map risk_flag_as_str (map (the \<circ> risk_flag_from_wire) fs) = fs"
  using assms by (induction fs) (auto simp: risk_flag_wire.read_written)

lemma stored_names [simp]:
  "map risk_flag_as_str (map (the \<circ> risk_flag_from_wire) (sort (map risk_flag_as_str flags))) =
    sort (map risk_flag_as_str flags)"
  by (rule flag_names_back) auto

lemma event_of_row_of: "event_of_row dbg (row_of ev) = Inr (stored_form ev)"
proof -
  have flags: "set (sort (map risk_flag_as_str (p_risk_flags (e_pins (ae_emitted ev))))) \<subseteq>
      range risk_flag_as_str"
    by auto
  have "from_discriminant (as_discriminant c) = Some c" for c
    by (simp add: from_discriminant_eq_Some)
  moreover have "((if b then 1 else 0 :: u8) \<noteq> 0) = b" for b by simp
  ultimately show ?thesis
    by (simp add: event_of_row_def row_of_def Let_def stored_form_def event_type_wire.read_written
        outcome_wire.read_written flags_read_back [OF flags] del: set_sort)
qed

lemma hashed_view_stored [simp]: "hashed_view (stored_form ev) = hashed_view ev"
  using stored_names [of "p_risk_flags (e_pins (ae_emitted ev))"]
  by (simp add: hashed_view_def Let_def stored_form_def sorted_sort_id)

lemma stored_form_sel [simp]:
  "ae_seq (stored_form ev) = ae_seq ev" "ae_prev_hash (stored_form ev) = ae_prev_hash ev"
  "ae_event_hash (stored_form ev) = ae_event_hash ev"
  "ae_canon_version (stored_form ev) = ae_canon_version ev"
  by (simp_all add: stored_form_def Let_def)

lemma event_hash_stored [simp]: "event_hash P (stored_form ev) = event_hash P ev"
  by (simp add: event_hash_def event_hashed_body_def)

lemma chained_stored [simp]: "chained P l h (map stored_form evs) = chained P l h evs"
  by (induction evs arbitrary: l h) (auto split: option.splits)

text \<open>A row that reads back is one whose enumerations are written with known names.\<close>

definition row_known :: "audit_event_row \<Rightarrow> bool" where
  "row_known r \<longleftrightarrow> event_type_from_wire (r_event_type r) \<noteq> None \<and> outcome_from_wire (r_outcome r) \<noteq> None \<and>
     from_discriminant (r_risk_class r) \<noteq> None \<and> list_all (\<lambda>f. risk_flag_from_wire f \<noteq> None) (r_risk_flags r)"

lemma try_map_is_Inr: "(\<exists>ys. try_map f xs = Inr ys) \<longleftrightarrow> list_all (\<lambda>x. \<exists>y. f x = Inr y) xs"
proof (induction xs)
  case (Cons x xs)
  then show ?case by (cases "f x"; cases "try_map f xs") auto
qed auto

lemma event_of_row_Inr: "(\<exists>ev. event_of_row dbg r = Inr ev) \<longleftrightarrow> row_known r"
proof -
  have "(\<exists>ys. try_map (\<lambda>f. ok_or (unknown_value dbg r ''risk_flag'' f) (risk_flag_from_wire f)) (r_risk_flags r) = Inr ys)
      \<longleftrightarrow> list_all (\<lambda>f. risk_flag_from_wire f \<noteq> None) (r_risk_flags r)"
    unfolding try_map_is_Inr by simp
  then show ?thesis
    by (auto simp: event_of_row_def row_known_def and_then_eq_Inr)
qed

section \<open>Properties\<close>

text \<open>
  The store keeps the chain's evidence: an event that is flattened into a row and read back
  has every hashed field unchanged (its event hash is the one it was sealed with, whatever the
  rule set's writer and hash) and comes back equal up to the two things no verifier hashes,
  the order of its risk flags and the pins' copy of the system id; reading it back changes the
  row no further.
\<close>

theorem row_roundtrip:
  "\<exists>ev'. event_of_row dbg (row_of ev) = Ok ev' \<and> hashed_view ev' = hashed_view ev \<and>
     event_hash P ev' = event_hash P ev \<and> ae_event_hash ev' = ae_event_hash ev \<and>
     ae_ingested_at ev' = ae_ingested_at ev \<and>
     mset (p_risk_flags (e_pins (ae_emitted ev'))) = mset (p_risk_flags (e_pins (ae_emitted ev))) \<and>
     row_of ev' = row_of ev"
proof (intro exI conjI)
  show "event_of_row dbg (row_of ev) = Ok (stored_form ev)" by (rule event_of_row_of)
  have "p_risk_flags (e_pins (ae_emitted (stored_form ev))) =
      map (the \<circ> risk_flag_from_wire) (sort (map risk_flag_as_str (p_risk_flags (e_pins (ae_emitted ev)))))"
    by (simp add: stored_form_def Let_def)
  then have "map risk_flag_as_str (p_risk_flags (e_pins (ae_emitted (stored_form ev)))) =
      sort (map risk_flag_as_str (p_risk_flags (e_pins (ae_emitted ev))))"
    by (simp only: stored_names)
  then have "mset (map risk_flag_as_str (p_risk_flags (e_pins (ae_emitted (stored_form ev))))) =
      mset (map risk_flag_as_str (p_risk_flags (e_pins (ae_emitted ev))))"
    by (simp only: mset_sort)
  then show "mset (p_risk_flags (e_pins (ae_emitted (stored_form ev)))) =
      mset (p_risk_flags (e_pins (ae_emitted ev)))"
    by (rule risk_flag_wire.mset_names_eq [THEN iffD1])
  show "row_of (stored_form ev) = row_of ev"
    using stored_names [of "p_risk_flags (e_pins (ae_emitted ev))"]
    by (simp add: row_of_def stored_form_def Let_def sorted_sort_id)
  show "ae_ingested_at (stored_form ev) = ae_ingested_at ev" by (simp add: stored_form_def Let_def)
qed simp_all

text \<open>
  A row written under another rule set is refused, never defaulted: reading succeeds exactly
  when the event type, the outcome, the risk class and every risk flag are known, and what is
  read writes the same row again if its flags are in order and its flag column is a boolean.
\<close>

theorem unknown_row_refused:
  assumes "length (r_prev_hash r) = 32" "length (r_event_hash r) = 32" "length (r_config_hash r) = 32"
    "length (r_request_digest r) = 32" "length (r_response_digest r) = 32"
    and "sorted (r_risk_flags r)" "r_resolved_stale r \<le> 1"
  shows "(case event_of_row dbg r of Inl _ \<Rightarrow> \<not> row_known r | Inr ev \<Rightarrow> row_known r \<and> row_of ev = r)"
proof (cases "event_of_row dbg r")
  case (Inl e)
  then show ?thesis using event_of_row_Inr [of dbg r] by auto
next
  case (Inr ev)
  then have known: "row_known r" using event_of_row_Inr by blast
  have bytes: "as_bytes (from_bytes b) = b" if "length b = 32" for b
    using that by (simp add: as_bytes_from_bytes)
  have flags: "map risk_flag_as_str fs = r_risk_flags r"
    if "try_map (\<lambda>f. ok_or (unknown_value dbg r ''risk_flag'' f) (risk_flag_from_wire f)) (r_risk_flags r) = Inr fs" for fs
    using that unfolding try_map_eq_Inr
    by (auto simp: risk_flag_wire.from_wire_eq_Some intro!: nth_equalityI)
  have stale: "(if r_resolved_stale r = 0 then 0 else 1) = r_resolved_stale r"
    using assms(7) by (auto simp: word_le_nat_alt le_Suc_eq word_unat_eq_iff)
  have "row_of ev = r"
    using Inr assms(1-6) stale
    by (auto simp: event_of_row_def and_then_eq_Inr row_of_def Let_def bytes flags sorted_sort_id
        event_type_wire.from_wire_eq_Some outcome_wire.from_wire_eq_Some from_discriminant_eq_Some)
  then show ?thesis using Inr known by simp
qed

theorem unknown_row_refused_witness:
  "\<exists>e. event_of_row id ((row_of (demo_event 1 2 GENESIS))\<lparr>r_outcome := ''partially-ok''\<rparr>) = Inl e"
proof -
  let ?r = "(row_of (demo_event 1 2 GENESIS))\<lparr>r_outcome := ''partially-ok''\<rparr>"
  have "case event_of_row id ?r of Inl _ \<Rightarrow> \<not> row_known ?r | Inr ev \<Rightarrow> row_known ?r \<and> row_of ev = ?r"
    by (rule unknown_row_refused) (simp_all add: row_of_def Let_def demo_emitted_def null_baseline_def)
  moreover have "\<not> row_known ?r" by (simp add: row_known_def outcome_from_wire_def)
  ultimately show ?thesis by (cases "event_of_row id ?r") simp_all
qed

end
