(* ===== verification/Store.thy ===== *)
theory Store
  imports Row
begin

text \<open>
  \<open>crates/ancre-ingester/src/sink.rs\<close>: the event store as the pipeline sees it, the retry policy,
  and what a store owes the pipeline.

  \<open>'s\<close> is the state of the world outside the process (the database, and whatever makes it fail or
  recover); an asynchronous call is a function on it. A duration is its nanoseconds.
\<close>

section \<open>The interface\<close>

record 's store_ops =
  es_insert :: "'s \<Rightarrow> audit_event list \<Rightarrow> 's \<times> (unit, ingest_error) result"
  es_head :: "'s \<Rightarrow> chain_id \<Rightarrow> 's \<times> ((u64 \<times> hash32) option, ingest_error) result"

text \<open>Time passing while the task sleeps.\<close>

type_synonym 's sleeper = "'s \<Rightarrow> nat \<Rightarrow> 's"

record retry_policy =
  rp_initial :: nat
  rp_max :: nat
  rp_attempts :: u32

definition default_retry :: retry_policy where
  "default_retry = \<lparr>rp_initial = 100 * 10 ^ 6, rp_max = 10 * 10 ^ 9, rp_attempts = 8\<rparr>"

text \<open>The largest \<open>Duration\<close>: \<open>u64::MAX\<close> seconds and 999999999 nanoseconds.\<close>

definition DURATION_MAX :: nat where
  "DURATION_MAX = (2 ^ 64 - 1) * 10 ^ 9 + 999999999"

definition delay_for :: "retry_policy \<Rightarrow> u32 \<Rightarrow> nat" where
  "delay_for p attempt =
     (let shift = min attempt 20 in
      min (min (rp_initial p * unat (push_bit (unat shift) 1 :: u32)) DURATION_MAX) (rp_max p))"

section \<open>What a store owes\<close>

text \<open>
  The rows of a chain, and the contract of the two operations: an insertion stores the whole
  batch after what was there or nothing, reading the head and sleeping store nothing, and the
  head is a row with the largest position, if one is positive.
\<close>

definition of_chain :: "chain_id \<Rightarrow> audit_event_row \<Rightarrow> bool" where
  "of_chain c r \<longleftrightarrow> r_tenant_id r = cid_tenant_id c \<and> r_system_id r = cid_system_id c"

definition head_of_rows :: "audit_event_row list \<Rightarrow> (u64 \<times> hash32) option \<Rightarrow> bool" where
  "head_of_rows rows h \<longleftrightarrow>
     (case h of
        None \<Rightarrow> \<forall>r \<in> set rows. r_seq r = 0
      | Some (q, b) \<Rightarrow> q > 0 \<and> (\<forall>r \<in> set rows. r_seq r \<le> q) \<and>
          (\<exists>r \<in> set rows. r_seq r = q \<and> from_bytes (r_event_hash r) = b))"

locale event_store =
  fixes lawful :: "'c \<Rightarrow> bool"
    and ops :: "'c \<Rightarrow> 's store_ops"
    and sleep :: "'c \<Rightarrow> 's sleeper"
    and content :: "'c \<Rightarrow> 's \<Rightarrow> audit_event_row list"
  assumes insert_all: "lawful c \<Longrightarrow> es_insert (ops c) s batch = (s', Inr u) \<Longrightarrow>
      content c s' = content c s @ map row_of batch"
    and insert_nothing: "lawful c \<Longrightarrow> es_insert (ops c) s batch = (s', Inl e) \<Longrightarrow>
      content c s' = content c s"
    and head_keeps: "lawful c \<Longrightarrow> es_head (ops c) s chain = (s', r) \<Longrightarrow> content c s' = content c s"
    and head_reads: "lawful c \<Longrightarrow> es_head (ops c) s chain = (s', Inr h) \<Longrightarrow>
      head_of_rows (filter (of_chain chain) (content c s)) h"
    and sleep_keeps: "lawful c \<Longrightarrow> content c (sleep c s d) = content c s"

section \<open>ClickHouse\<close>

text \<open>
  What the documentation of the client and of the server promises, as far as the code relies on
  it, for a view \<open>rows\<close> of the table and \<open>buffer\<close> of the insertion in progress: rows are written
  into the buffer and \<open>end\<close> commits all of them or none; queries change nothing; the head query
  aggregates (to zeros over no rows); the range query is sorted.
\<close>

record 's clickhouse_view =
  cv_client :: "'s clickhouse"
  cv_sleep :: "'s sleeper"
  cv_rows :: "'s \<Rightarrow> audit_event_row list"
  cv_buffer :: "'s \<Rightarrow> audit_event_row list"

definition insert_lawful :: "'s clickhouse_view \<Rightarrow> bool" where
  "insert_lawful V \<longleftrightarrow>
     (\<forall>s s' r. ck_insert (cv_client V) s TABLE = (s', r) \<longrightarrow>
        cv_rows V s' = cv_rows V s \<and> (r = Inr () \<longrightarrow> cv_buffer V s' = [])) \<and>
     (\<forall>s s' row r. ck_write (cv_client V) s row = (s', r) \<longrightarrow>
        cv_rows V s' = cv_rows V s \<and> (r = Inr () \<longrightarrow> cv_buffer V s' = cv_buffer V s @ [row])) \<and>
     (\<forall>s s' r. ck_end (cv_client V) s = (s', r) \<longrightarrow>
        cv_rows V s' = (if r = Inr () then cv_rows V s @ cv_buffer V s else cv_rows V s))"

text \<open>\<open>max(seq)\<close> and \<open>argMax(event_hash, seq)\<close> of some rows, as one row.\<close>

definition head_aggregate :: "audit_event_row list \<Rightarrow> head_row list \<Rightarrow> bool" where
  "head_aggregate rows hs \<longleftrightarrow>
     (if rows = [] then hs = [\<lparr>head_seq = 0, head_hash = replicate 32 0\<rparr>]
      else \<exists>r \<in> set rows. (\<forall>r' \<in> set rows. r_seq r' \<le> r_seq r) \<and>
        hs = [\<lparr>head_seq = r_seq r, head_hash = r_event_hash r\<rparr>])"

definition query_lawful :: "'s clickhouse_view \<Rightarrow> bool" where
  "query_lawful V \<longleftrightarrow>
     (\<forall>s s' c r. ck_head_query (cv_client V) s (cid_tenant_id c) (cid_system_id c) = (s', r) \<longrightarrow>
        cv_rows V s' = cv_rows V s \<and>
        (\<forall>hs. r = Inr hs \<longrightarrow> head_aggregate (filter (of_chain c) (cv_rows V s)) hs)) \<and>
     (\<forall>s s' c a b r. ck_range_query (cv_client V) s (cid_tenant_id c) (cid_system_id c) a b = (s', r) \<longrightarrow>
        cv_rows V s' = cv_rows V s \<and>
        (\<forall>rs. r = Inr rs \<longrightarrow>
          rs = sort_key r_seq (filter (\<lambda>x. of_chain c x \<and> a \<le> r_seq x \<and> r_seq x \<le> b) (cv_rows V s)))) \<and>
     (\<forall>s d. cv_rows V (cv_sleep V s d) = cv_rows V s)"

definition clickhouse_lawful :: "'s clickhouse_view \<Rightarrow> bool" where
  "clickhouse_lawful V \<longleftrightarrow> insert_lawful V \<and> query_lawful V"

definition clickhouse_ops :: "'s clickhouse_view \<Rightarrow> 's store_ops" where
  "clickhouse_ops V = \<lparr>es_insert = clickhouse_insert (cv_client V), es_head = clickhouse_head (cv_client V)\<rparr>"

lemma write_rows_lawful:
  assumes "insert_lawful V" "write_rows (cv_client V) s batch = (s', r)"
  shows "cv_rows V s' = cv_rows V s \<and> (\<forall>u. r = Inr u \<longrightarrow> cv_buffer V s' = cv_buffer V s @ map row_of batch)"
  using assms(2)
proof (induction batch arbitrary: s)
  case (Cons ev batch)
  obtain s1 r1 where w: "ck_write (cv_client V) s (row_of ev) = (s1, r1)" by fastforce
  then have s1: "cv_rows V s1 = cv_rows V s" "r1 = Inr () \<Longrightarrow> cv_buffer V s1 = cv_buffer V s @ [row_of ev]"
    using assms(1) unfolding insert_lawful_def by blast+
  show ?case
  proof (cases r1)
    case (Inr u)
    then show ?thesis using Cons.IH [of s1] Cons.prems s1 w by auto
  qed (use Cons.prems s1 w in auto)
qed simp

lemma clickhouse_insert_lawful:
  assumes "insert_lawful V" "clickhouse_insert (cv_client V) s batch = (s', r)"
  shows "cv_rows V s' = (case r of Inl _ \<Rightarrow> cv_rows V s | Inr _ \<Rightarrow> cv_rows V s @ map row_of batch)"
proof (cases "batch = []")
  case False
  obtain s1 r1 where i: "ck_insert (cv_client V) s TABLE = (s1, r1)" by fastforce
  then have s1: "cv_rows V s1 = cv_rows V s" "r1 = Inr () \<Longrightarrow> cv_buffer V s1 = []"
    using assms(1) unfolding insert_lawful_def by blast+
  obtain s2 r2 where w: "write_rows (cv_client V) s1 batch = (s2, r2)" by fastforce
  obtain s3 r3 where e: "ck_end (cv_client V) s2 = (s3, r3)" by fastforce
  then have s3: "cv_rows V s3 = (if r3 = Inr () then cv_rows V s2 @ cv_buffer V s2 else cv_rows V s2)"
    using assms(1) unfolding insert_lawful_def by blast
  show ?thesis
    using assms(2) False i s1 w write_rows_lawful [OF assms(1) w] e s3
    by (cases r1; cases r2; cases r3) (auto simp: clickhouse_insert_def)
qed (use assms(2) in \<open>auto simp: clickhouse_insert_def\<close>)

lemma read_head_aggregate: "head_aggregate rows hs \<Longrightarrow> head_of_rows rows (read_head hs)"
  by (auto simp: head_aggregate_def head_of_rows_def read_head_def word_gt_0 split: if_splits)

interpretation click: event_store clickhouse_lawful clickhouse_ops cv_sleep cv_rows
proof
  fix V :: "'a clickhouse_view" and s s' batch and chain :: chain_id
  assume V: "clickhouse_lawful V"
  show "es_insert (clickhouse_ops V) s batch = (s', Inr u) \<Longrightarrow> cv_rows V s' = cv_rows V s @ map row_of batch" for u
    using V clickhouse_insert_lawful by (fastforce simp: clickhouse_lawful_def clickhouse_ops_def)
  show "es_insert (clickhouse_ops V) s batch = (s', Inl e) \<Longrightarrow> cv_rows V s' = cv_rows V s" for e
    using V clickhouse_insert_lawful by (fastforce simp: clickhouse_lawful_def clickhouse_ops_def)
  show "cv_rows V (cv_sleep V s d) = cv_rows V s" for d
    using V by (simp add: clickhouse_lawful_def query_lawful_def)
  obtain s1 q where h: "ck_head_query (cv_client V) s (cid_tenant_id chain) (cid_system_id chain) = (s1, q)"
    by fastforce
  have laws: "cv_rows V s1 = cv_rows V s"
    "q = Inr hs \<Longrightarrow> head_aggregate (filter (of_chain chain) (cv_rows V s)) hs" for hs
    using V h unfolding clickhouse_lawful_def query_lawful_def by blast+
  show "es_head (clickhouse_ops V) s chain = (s', r) \<Longrightarrow> cv_rows V s' = cv_rows V s" for r
    using h laws(1) by (auto simp: clickhouse_ops_def clickhouse_head_def split: sum.splits)
  show "es_head (clickhouse_ops V) s chain = (s', Inr o') \<Longrightarrow>
      head_of_rows (filter (of_chain chain) (cv_rows V s)) o'" for o'
    using h laws(2) by (auto simp: clickhouse_ops_def clickhouse_head_def intro: read_head_aggregate split: sum.splits)
qed

end
