(* ===== verification/Pipeline.thy ===== *)
theory Pipeline
  imports Store
begin

text \<open>
  \<open>crates/ancre-ingester/src/pipeline.rs\<close> and \<open>bus.rs\<close>: consume, chain, store.

  A batch is a list of events, each with the instant at which it is chained. The store is the
  operations \<open>S\<close> and the sleep \<open>Z\<close> on the state of the outside world; a method that changes the
  ingester returns it and the world first. The hash tables of writers and of rollbacks are maps;
  where the code iterates one and the order could matter, the order is an argument.
\<close>

section \<open>The ingester\<close>

record ingest_report =
  ir_chained :: u64
  ir_inserted :: u64
  ir_duplicates :: u64
  ir_deferred :: u64
  ir_retries :: u64

definition empty_report :: ingest_report where
  "empty_report = \<lparr>ir_chained = 0, ir_inserted = 0, ir_duplicates = 0, ir_deferred = 0, ir_retries = 0\<rparr>"

record ingester =
  ig_node_id :: string
  ig_writers :: "chain_id \<rightharpoonup> chain_writer"
  ig_retry :: retry_policy

definition ingester_new :: "string \<Rightarrow> ingester" where
  "ingester_new node_id = \<lparr>ig_node_id = node_id, ig_writers = Map.empty, ig_retry = default_retry\<rparr>"

definition with_retry :: "ingester \<Rightarrow> retry_policy \<Rightarrow> ingester" where
  "with_retry ing retry = ing\<lparr>ig_retry := retry\<rparr>"

type_synonym rollback = "chain_id \<rightharpoonup> u64 \<times> hash32"

text \<open>The writers are rewound one by one; each entry concerns its own chain.\<close>

definition rewind :: "ingester \<Rightarrow> rollback \<Rightarrow> ingester" where
  "rewind ing rollback =
     ing\<lparr>ig_writers := (\<lambda>c.
       case (rollback c, ig_writers ing c) of
         (Some (s, h), Some w) \<Rightarrow> Some (rewind_to w s h)
       | (_, w) \<Rightarrow> w)\<rparr>"

text \<open>The attempts from the given one on, with the last error.\<close>

function insert_attempts ::
    "'s store_ops \<Rightarrow> 's sleeper \<Rightarrow> retry_policy \<Rightarrow> u32 \<Rightarrow> 's \<Rightarrow> audit_event list \<Rightarrow> ingest_report \<Rightarrow>
      ingest_error option \<Rightarrow> 's \<times> ingest_report \<times> (unit, ingest_error) result" where
  "insert_attempts S Z p attempt s batch report last_error =
     (if attempt < rp_attempts p then
        (case es_insert S s batch of
           (s, Inr _) \<Rightarrow> (s, report, Ok ())
         | (s, Inl e) \<Rightarrow>
             let report = report\<lparr>ir_retries := ir_retries report + 1\<rparr>;
                 s = Z s (delay_for p attempt)
             in insert_attempts S Z p (attempt + 1) s batch report (Some e))
      else (s, report, Err (case last_error of Some e \<Rightarrow> e
                            | None \<Rightarrow> IngestStore ''no attempts configured'')))"
  by pat_completeness auto
termination
  by (relation "measure (\<lambda>(S, Z, p, attempt, _). unat (rp_attempts p) - unat attempt)")
    (simp_all add: unat_inc diff_less_mono2 word_less_nat_alt)

declare insert_attempts.simps [simp del]

definition insert_with_retry ::
    "'s store_ops \<Rightarrow> 's sleeper \<Rightarrow> ingester \<Rightarrow> 's \<Rightarrow> audit_event list \<Rightarrow> ingest_report \<Rightarrow>
      's \<times> ingest_report \<times> (unit, ingest_error) result" where
  "insert_with_retry S Z ing s batch report = insert_attempts S Z (ig_retry ing) 0 s batch report None"

text \<open>The local variables of \<open>ingest\<close>, with the ingester and the world.\<close>

record 's ingest_vars =
  iv_ing :: ingester
  iv_world :: 's
  iv_report :: ingest_report
  iv_chained :: "audit_event list"
  iv_rollback :: rollback

type_synonym 's ingested = "ingester \<times> 's \<times> (ingest_report, ingest_error) result"

definition chain_of :: "emitted_event \<Rightarrow> chain_id" where
  "chain_of e = \<lparr>cid_tenant_id = e_tenant_id e, cid_system_id = e_system_id e\<rparr>"

text \<open>
  One turn of the loop, in its two halves: the writer of the chain exists afterwards (or the
  method has returned), then the event is chained. \<open>Inl\<close> is what an early return returns.
\<close>

definition ensure_writer ::
    "'s store_ops \<Rightarrow> chain_id \<Rightarrow> 's ingest_vars \<Rightarrow> ('s ingest_vars, 's ingested) result" where
  "ensure_writer S chain v =
     (if ig_writers (iv_ing v) chain \<noteq> None then Ok v
      else case es_head S (iv_world v) chain of
        (s, Inl _) \<Rightarrow>
          let report = iv_report v in
          Err (rewind (iv_ing v) (iv_rollback v), s,
               Ok (report\<lparr>ir_deferred := ir_deferred report + 1\<rparr>))
      | (s, Inr resumed) \<Rightarrow>
          let ing = iv_ing v;
              writer = (case resumed of
                 Some (q, h) \<Rightarrow> resume_from chain (ig_node_id ing) q h
               | None \<Rightarrow> writer_new chain (ig_node_id ing))
          in Ok (v\<lparr>iv_world := s, iv_ing := ing\<lparr>ig_writers := (ig_writers ing)(chain \<mapsto> writer)\<rparr>\<rparr>))"

definition chain_one ::
    "canon_prims \<Rightarrow> chain_id \<Rightarrow> emitted_event \<Rightarrow> timestamp \<Rightarrow> 's ingest_vars \<Rightarrow>
      ('s ingest_vars, 's ingested) result" where
  "chain_one P chain emitted now v =
     (let writer = the (ig_writers (iv_ing v) chain);
          rollback = (case iv_rollback v chain of
             Some _ \<Rightarrow> iv_rollback v
           | None \<Rightarrow> (iv_rollback v)(chain \<mapsto> (cw_next_seq writer, cw_head_hash writer)));
          (writer, appended) = writer_append P writer emitted now;
          ing = (iv_ing v)\<lparr>ig_writers := (ig_writers (iv_ing v))(chain \<mapsto> writer)\<rparr>;
          v = v\<lparr>iv_ing := ing, iv_rollback := rollback\<rparr>;
          report = iv_report v
      in case appended of
           Inr event \<Rightarrow>
             Ok (v\<lparr>iv_report := report\<lparr>ir_chained := ir_chained report + 1\<rparr>,
                   iv_chained := iv_chained v @ [event]\<rparr>)
         | Inl (Duplicate _ _) \<Rightarrow>
             Ok (v\<lparr>iv_report := report\<lparr>ir_duplicates := ir_duplicates report + 1\<rparr>\<rparr>)
         | Inl e \<Rightarrow> Err (iv_ing v, iv_world v, Err e))"

definition ingest_one ::
    "canon_prims \<Rightarrow> 's store_ops \<Rightarrow> 's ingest_vars \<Rightarrow> emitted_event \<times> timestamp \<Rightarrow>
      ('s ingest_vars, 's ingested) result" where
  "ingest_one P S v item =
     (case item of (emitted, now) \<Rightarrow>
        let chain = chain_of emitted in
        and_then (ensure_writer S chain v) (chain_one P chain emitted now))"

primrec ingest_loop ::
    "canon_prims \<Rightarrow> 's store_ops \<Rightarrow> 's ingest_vars \<Rightarrow> (emitted_event \<times> timestamp) list \<Rightarrow>
      ('s ingest_vars, 's ingested) result" where
  "ingest_loop P S v [] = Ok v"
| "ingest_loop P S v (item # batch) = and_then (ingest_one P S v item) (\<lambda>v. ingest_loop P S v batch)"

definition ingest ::
    "canon_prims \<Rightarrow> 's store_ops \<Rightarrow> 's sleeper \<Rightarrow> ingester \<Rightarrow> 's \<Rightarrow> (emitted_event \<times> timestamp) list \<Rightarrow>
      's ingested" where
  "ingest P S Z ing s batch =
     (case ingest_loop P S \<lparr>iv_ing = ing, iv_world = s, iv_report = empty_report, iv_chained = [],
              iv_rollback = Map.empty\<rparr> batch of
        Inl returned \<Rightarrow> returned
      | Inr v \<Rightarrow>
          if iv_chained v = [] then (iv_ing v, iv_world v, Ok (iv_report v))
          else case insert_with_retry S Z (iv_ing v) (iv_world v) (iv_chained v) (iv_report v) of
            (s, report, Inr _) \<Rightarrow>
              (iv_ing v, s, Ok (report\<lparr>ir_inserted := ir_inserted report + of_nat (length (iv_chained v))\<rparr>))
          | (s, report, Inl _) \<Rightarrow>
              (rewind (iv_ing v) (iv_rollback v), s, Ok (report\<lparr>ir_deferred := ir_deferred report + 1\<rparr>)))"

text \<open>
  \<open>heartbeats\<close>: \<open>order\<close> is the order in which \<open>values_mut\<close> visits the chains, \<open>now\<close> the instant
  passed in and \<open>ingested\<close> the one the writers read.
\<close>

definition heartbeat_step ::
    "canon_prims \<Rightarrow> timestamp \<Rightarrow> timestamp \<Rightarrow> ingester \<times> audit_event list \<Rightarrow> chain_id \<Rightarrow>
      ingester \<times> audit_event list" where
  "heartbeat_step P now ingested acc chain =
     (case acc of (ing, written) \<Rightarrow>
        case ig_writers ing chain of
          None \<Rightarrow> acc
        | Some writer \<Rightarrow>
            let (writer, beat) = heartbeat P writer now ingested;
                ing = ing\<lparr>ig_writers := (ig_writers ing)(chain \<mapsto> writer)\<rparr>
            in (ing, case beat of Some (Inr event) \<Rightarrow> written @ [event] | _ \<Rightarrow> written))"

definition heartbeats ::
    "canon_prims \<Rightarrow> 's store_ops \<Rightarrow> ingester \<Rightarrow> 's \<Rightarrow> chain_id list \<Rightarrow> timestamp \<Rightarrow> timestamp \<Rightarrow>
      ingester \<times> 's \<times> (u64, ingest_error) result" where
  "heartbeats P S ing s order now ingested =
     (let (ing, written) = foldl (heartbeat_step P now ingested) (ing, []) order in
      if written = [] then (ing, s, Ok 0)
      else case es_insert S s written of
        (s, Inl e) \<Rightarrow> (ing, s, Err e)
      | (s, Inr _) \<Rightarrow> (ing, s, Ok (of_nat (length written))))"

definition chain_count :: "ingester \<Rightarrow> nat" where
  "chain_count ing = card (dom (ig_writers ing))"

section \<open>The abstract store\<close>

text \<open>
  The abstract state of the ingester is one sequence of events per chain: a chain from
  \<open>GENESIS\<close>, at the positions from one on. The rows of the store are those events, and a writer
  is a cursor: the position after the last event and its hash, remembering ids of stored events
  only.
\<close>

definition good :: "canon_prims \<Rightarrow> audit_event list \<Rightarrow> bool" where
  "good P evs \<longleftrightarrow> chained P None GENESIS evs \<and> map ae_seq evs = map of_nat [1..<Suc (length evs)]"

definition cursor :: "audit_event list \<Rightarrow> u64 \<times> hash32" where
  "cursor evs = (of_nat (length evs) + 1, head_of GENESIS evs)"

definition writer_at :: "chain_id \<Rightarrow> audit_event list \<Rightarrow> chain_writer \<Rightarrow> bool" where
  "writer_at c evs w \<longleftrightarrow> cw_chain w = c \<and> (cw_next_seq w, cw_head_hash w) = cursor evs \<and>
     (\<forall>i s. cw_seen w i = Some s \<longrightarrow> (i, s) \<in> event_key ` set evs)"

definition store_holds ::
    "canon_prims \<Rightarrow> (chain_id \<Rightarrow> audit_event list) \<Rightarrow> audit_event_row list \<Rightarrow> bool" where
  "store_holds P base rows \<longleftrightarrow>
     (\<forall>c. filter (of_chain c) rows = map row_of (base c) \<and> good P (base c))"

definition ingester_at :: "(chain_id \<Rightarrow> audit_event list) \<Rightarrow> ingester \<Rightarrow> bool" where
  "ingester_at base ing \<longleftrightarrow> (\<forall>c w. ig_writers ing c = Some w \<longrightarrow> writer_at c (base c) w)"

text \<open>The ingester and the store agree, on some abstract state.\<close>

definition synced :: "canon_prims \<Rightarrow> ingester \<Rightarrow> audit_event_row list \<Rightarrow> bool" where
  "synced P ing rows \<longleftrightarrow> (\<exists>base. store_holds P base rows \<and> ingester_at base ing)"

definition pend_of :: "chain_id \<Rightarrow> audit_event list \<Rightarrow> audit_event list" where
  "pend_of c evs = filter (\<lambda>ev. chain_of (ae_emitted ev) = c) evs"

lemma pend_of_simps [simp]:
  "pend_of c [] = []" "pend_of c (xs @ ys) = pend_of c xs @ pend_of c ys"
  "pend_of c [ev] = (if chain_of (ae_emitted ev) = c then [ev] else [])"
  by (simp_all add: pend_of_def)

lemma of_chain_row_of: "of_chain c (row_of ev) \<longleftrightarrow> chain_of (ae_emitted ev) = c"
  by (cases c) (auto simp: of_chain_def row_of_def Let_def chain_of_def)

lemma filter_rows: "filter (of_chain c) (map row_of evs) = map row_of (pend_of c evs)"
  by (simp add: filter_map comp_def of_chain_row_of pend_of_def)

lemma good_Nil [simp]: "good P []"
  by (simp add: good_def)

lemma good_nth: "good P evs \<Longrightarrow> i < length evs \<Longrightarrow> ae_seq (evs ! i) = of_nat (Suc i)"
proof -
  assume g: "good P evs" "i < length evs"
  then have "map ae_seq evs ! i = map of_nat [1..<Suc (length evs)] ! i" by (simp only: good_def)
  then show ?thesis using g(2) by (simp add: nth_append del: upt_Suc)
qed

lemma good_last: "good P evs \<Longrightarrow> evs \<noteq> [] \<Longrightarrow> ae_seq (last evs) = of_nat (length evs)"
  using good_nth [of P evs "length evs - 1"] by (simp add: last_conv_nth)

lemma good_snoc:
  assumes "good P evs" "(ae_seq ev, ae_prev_hash ev) = cursor evs"
    "ae_canon_version ev = CANON_VERSION" "event_hash P ev = Ok (ae_event_hash ev)"
  shows "good P (evs @ [ev])"
  using assms good_last [OF assms(1)]
  by (auto simp: good_def chained_append cursor_def last_seq_of_def)

lemma good_unat:
  assumes "good P evs" "length evs < 2 ^ 64" "i < length evs"
  shows "unat (ae_seq (evs ! i)) = Suc i"
  using good_nth [OF assms(1,3)] unat_of_nat64 [of "Suc i"] assms(2,3) by simp

text \<open>Resuming from what the store holds puts the cursor behind its last event.\<close>

lemma head_cursor:
  assumes "good P evs" "length evs < 2 ^ 64" "head_of_rows (map row_of evs) h"
  shows "(case h of None \<Rightarrow> (0 + 1, GENESIS) | Some (q, b) \<Rightarrow> (q + 1, b)) = cursor evs"
proof (cases h)
  case None
  have "evs = []"
  proof (rule ccontr)
    assume "evs \<noteq> []"
    then have "unat (ae_seq (evs ! 0)) = 1" using good_unat [OF assms(1,2), of 0] by simp
    moreover have "ae_seq (evs ! 0) = 0"
      using assms(3) None \<open>evs \<noteq> []\<close> nth_mem [of 0 evs] by (auto simp: head_of_rows_def row_of_def Let_def)
    ultimately show False by simp
  qed
  then show ?thesis using None by (simp add: cursor_def)
next
  case (Some qb)
  obtain q b where qb: "qb = (q, b)" by fastforce
  obtain i where i: "i < length evs" "q = ae_seq (evs ! i)" "b = ae_event_hash (evs ! i)"
    using assms(3) Some qb by (auto simp: head_of_rows_def row_of_def Let_def in_set_conv_nth)
  have "evs ! j \<in> set evs \<Longrightarrow> ae_seq (evs ! j) \<le> q" for j
    using assms(3) Some qb by (auto simp: head_of_rows_def row_of_def Let_def)
  from this [of "length evs - 1"] have "ae_seq (evs ! (length evs - 1)) \<le> q" using i(1) by simp
  then have "length evs \<le> Suc i"
    using good_unat [OF assms(1,2), of "length evs - 1"] good_unat [OF assms(1,2) i(1)] i
    by (simp add: word_le_nat_alt)
  then have "i = length evs - 1" using i(1) by simp
  moreover have ne: "evs \<noteq> []" using i(1) by auto
  ultimately have "evs ! i = last evs" by (simp add: last_conv_nth)
  then show ?thesis using Some qb i good_last [OF assms(1) ne] ne by (simp add: cursor_def head_of_def)
qed

lemma store_holds_length:
  assumes "store_holds P base rows"
  shows "length (base c) \<le> length rows"
proof -
  have "length (base c) = length (filter (of_chain c) rows)"
    using assms by (simp add: store_holds_def)
  then show ?thesis by (simp add: length_filter_le)
qed

section \<open>The invariant of the loop\<close>

text \<open>
  While a batch is chained, with the store at \<open>base\<close>: every writer is behind its chain's stored
  and pending events, every rollback entry is the cursor behind the stored ones, a chain without
  an entry has nothing pending, and each event handled so far is stored or pending under its id.
\<close>

definition rollback_ok :: "(chain_id \<Rightarrow> audit_event list) \<Rightarrow> rollback \<Rightarrow> audit_event list \<Rightarrow> bool" where
  "rollback_ok base rb evs \<longleftrightarrow>
     (\<forall>c. case rb c of None \<Rightarrow> pend_of c evs = [] | Some p \<Rightarrow> p = cursor (base c))"

definition loop_ok ::
    "canon_prims \<Rightarrow> (chain_id \<Rightarrow> audit_event list) \<Rightarrow> 's ingest_vars \<Rightarrow> emitted_event list \<Rightarrow> bool" where
  "loop_ok P base v handled \<longleftrightarrow>
     (\<forall>c. good P (base c @ pend_of c (iv_chained v))) \<and>
     (\<forall>c w. ig_writers (iv_ing v) c = Some w \<longrightarrow> writer_at c (base c @ pend_of c (iv_chained v)) w) \<and>
     rollback_ok base (iv_rollback v) (iv_chained v) \<and>
     dom (iv_rollback v) \<subseteq> dom (ig_writers (iv_ing v)) \<and>
     (\<forall>e \<in> set handled. \<exists>ev \<in> set (base (chain_of e) @ pend_of (chain_of e) (iv_chained v)).
        e_event_id (ae_emitted ev) = e_event_id e) \<and>
     length (iv_chained v) \<le> length handled \<and> ir_deferred (iv_report v) = 0"

lemma loop_okD:
  assumes "loop_ok P base v handled"
  shows "good P (base c @ pend_of c (iv_chained v))"
    and "ig_writers (iv_ing v) c = Some w \<Longrightarrow> writer_at c (base c @ pend_of c (iv_chained v)) w"
    and "iv_rollback v c = None \<Longrightarrow> pend_of c (iv_chained v) = []"
    and "iv_rollback v c = Some p \<Longrightarrow> p = cursor (base c)"
proof -
  have rb: "case iv_rollback v c of None \<Rightarrow> pend_of c (iv_chained v) = [] | Some p \<Rightarrow> p = cursor (base c)"
    using assms unfolding loop_ok_def rollback_ok_def by blast
  show "good P (base c @ pend_of c (iv_chained v))"
    and "ig_writers (iv_ing v) c = Some w \<Longrightarrow> writer_at c (base c @ pend_of c (iv_chained v)) w"
    using assms unfolding loop_ok_def by blast+
  show "iv_rollback v c = None \<Longrightarrow> pend_of c (iv_chained v) = []"
    and "iv_rollback v c = Some p \<Longrightarrow> p = cursor (base c)"
    using rb by simp_all
qed

text \<open>A writer that is rewound behind the stored events forgets exactly the pending ones.\<close>

lemma unat_next: "n < 2 ^ 64 - 1 \<Longrightarrow> unat (of_nat n + 1 :: u64) = Suc n"
proof -
  assume "n < 2 ^ 64 - 1"
  then have "unat (of_nat (Suc n) :: u64) = Suc n" by (intro unat_of_nat64) simp
  moreover have "of_nat n + 1 = (of_nat (Suc n) :: u64)" by simp
  ultimately show ?thesis by (simp only:)
qed

lemma writer_at_rewind:
  assumes "good P (base @ pend)" "writer_at c (base @ pend) w" "length (base @ pend) < 2 ^ 64 - 1"
  shows "writer_at c base (rewind_to w (fst (cursor base)) (snd (cursor base)))"
proof -
  have stored: "(i, s) \<in> event_key ` set base"
    if "cw_seen w i = Some s" "s < of_nat (length base) + 1" for i s
  proof -
    have "(i, s) \<in> event_key ` set (base @ pend)" using assms(2) that(1) by (simp only: writer_at_def)
    then obtain ev where ev: "ev \<in> set (base @ pend)" "event_key ev = (i, s)" by force
    then obtain n where n: "n < length (base @ pend)" "(base @ pend) ! n = ev"
      unfolding in_set_conv_nth by blast
    have "unat s = Suc n"
      using good_unat [OF assms(1) _ n(1)] assms(3) n(2) ev(2) by simp
    moreover have "unat (of_nat (length base) + 1 :: u64) = Suc (length base)"
      using assms(3) by (intro unat_next) simp
    ultimately have "n < length base" using that(2) unfolding word_less_nat_alt by linarith
    then have "ev \<in> set base" using n(2) nth_mem [of n base] by (simp add: nth_append)
    then show ?thesis using ev(2) by force
  qed
  show ?thesis
    using assms(2) unfolding writer_at_def
    by (auto simp: cursor_def intro: stored split: option.splits if_splits)
qed

lemma loop_ok_rewind:
  assumes "loop_ok P base v handled" "\<And>c. length (base c) + length handled < 2 ^ 64 - 1"
  shows "ingester_at base (rewind (iv_ing v) (iv_rollback v))"
  unfolding ingester_at_def
proof (intro allI impI)
  fix c w
  assume w: "ig_writers (rewind (iv_ing v) (iv_rollback v)) c = Some w"
  then obtain w0 where w0: "ig_writers (iv_ing v) c = Some w0"
    by (auto simp: rewind_def split: option.splits)
  note at = loop_okD(2) [OF assms(1) w0]
  show "writer_at c (base c) w"
  proof (cases "iv_rollback v c")
    case None
    then show ?thesis using w w0 at loop_okD(3) [OF assms(1) None] by (simp add: rewind_def)
  next
    case (Some p)
    have "length (pend_of c (iv_chained v)) \<le> length handled"
      using assms(1) by (auto simp: loop_ok_def pend_of_def intro: order_trans [OF length_filter_le])
    then have "length (base c @ pend_of c (iv_chained v)) < 2 ^ 64 - 1"
      using assms(2) [of c] by simp
    from writer_at_rewind [OF loop_okD(1) [OF assms(1)] at this]
    show ?thesis using w w0 Some loop_okD(4) [OF assms(1) Some]
      by (auto simp: rewind_def split: prod.splits)
  qed
qed

text \<open>Chaining one event.\<close>

lemma seen_remember: "cw_seen (remember w i s) j = Some t \<Longrightarrow> (j, t) = (i, s) \<or> cw_seen w j = Some t"
  by (auto simp: remember_def trim_seen_conv split: if_splits)

lemma writer_at_follows:
  assumes "writer_at c evs w" "follows P w e ev w'"
  shows "writer_at c (evs @ [ev]) w'"
  unfolding writer_at_def
proof (intro conjI allI impI)
  show "cw_chain w' = c" using assms by (simp add: follows_sel writer_at_def)
  show "(cw_next_seq w', cw_head_hash w') = cursor (evs @ [ev])"
    using assms by (simp add: follows_sel writer_at_def cursor_def head_of_def)
  fix i s assume "cw_seen w' i = Some s"
  then have "(i, s) = (e_event_id e, cw_next_seq w) \<or> cw_seen w i = Some s"
    using assms(2) seen_remember unfolding follows_def by fastforce
  then show "(i, s) \<in> event_key ` set (evs @ [ev])"
    using assms follows_sel [OF assms(2)] by (auto simp: writer_at_def)
qed

lemma good_follows:
  "good P evs \<Longrightarrow> writer_at c evs w \<Longrightarrow> follows P w e ev w' \<Longrightarrow> good P (evs @ [ev])"
  by (rule good_snoc) (simp_all add: follows_sel writer_at_def)

lemma rollback_entry:
  assumes "loop_ok P base v handled" "ig_writers (iv_ing v) d = Some w"
    and "rb = (case iv_rollback v d of Some _ \<Rightarrow> iv_rollback v
      | None \<Rightarrow> (iv_rollback v)(d \<mapsto> (cw_next_seq w, cw_head_hash w)))"
  shows "rollback_ok base rb (iv_chained v)"
    and "chain_of (ae_emitted ev) = d \<Longrightarrow> rollback_ok base rb (iv_chained v @ [ev])"
proof -
  have "rollback_ok base rb (iv_chained v) \<and> rb d \<noteq> None"
  proof (cases "iv_rollback v d")
    case None
    then have "(cw_next_seq w, cw_head_hash w) = cursor (base d)"
      using loop_okD(2) [OF assms(1,2)] loop_okD(3) [OF assms(1) None] by (simp add: writer_at_def)
    then show ?thesis
      using assms(1,3) None by (simp add: loop_ok_def rollback_ok_def)
  qed (use assms in \<open>simp add: loop_ok_def\<close>)
  then have rb: "rollback_ok base rb (iv_chained v)" "rb d \<noteq> None" by simp_all
  show "rollback_ok base rb (iv_chained v)" by (rule rb(1))
  assume d: "chain_of (ae_emitted ev) = d"
  show "rollback_ok base rb (iv_chained v @ [ev])"
    unfolding rollback_ok_def
  proof
    fix c
    show "case rb c of None \<Rightarrow> pend_of c (iv_chained v @ [ev]) = [] | Some p \<Rightarrow> p = cursor (base c)"
      using rb(2) d spec [OF rb(1) [unfolded rollback_ok_def], of c] by (cases "rb c") auto
  qed
qed

lemma chain_one_ok:
  assumes "loop_ok P base v handled" "ig_writers (iv_ing v) (chain_of e) = Some w"
  shows "case chain_one P (chain_of e) e now v of
      Inr v' \<Rightarrow> loop_ok P base v' (handled @ [e]) \<and> iv_world v' = iv_world v
    | Inl (ing, s, r) \<Rightarrow> s = iv_world v \<and> (\<exists>err. r = Inl (IngestChain err))"
proof -
  let ?c = "chain_of e"
  let ?all = "base ?c @ pend_of ?c (iv_chained v)"
  note at = loop_okD(2) [OF assms]
  define rb where "rb = (case iv_rollback v ?c of Some _ \<Rightarrow> iv_rollback v
    | None \<Rightarrow> (iv_rollback v)(?c \<mapsto> (cw_next_seq w, cw_head_hash w)))"
  note entry = rollback_entry [OF assms rb_def]
  have dom_rb: "dom rb \<subseteq> dom (ig_writers (iv_ing v))"
    using assms unfolding rb_def loop_ok_def by (auto split: option.splits)
  have unchanged: "(ig_writers (iv_ing v))(?c \<mapsto> w) = ig_writers (iv_ing v)"
    using assms(2) by (simp add: fun_upd_idem_iff)
  show ?thesis
  proof (cases rule: writer_append_cases [of w e P now])
    case (duplicate s)
    then have "(e_event_id e, s) \<in> event_key ` set ?all" using at by (simp add: writer_at_def)
    then have "\<exists>ev \<in> set ?all. e_event_id (ae_emitted ev) = e_event_id e" by auto
    then show ?thesis
      using duplicate(2) assms entry(1) unchanged dom_rb unfolding loop_ok_def
      by (simp add: chain_one_def Let_def rb_def [symmetric])
  next
    case (failed err)
    then show ?thesis using assms(2) by (simp add: chain_one_def Let_def)
  next
    case (chained ev w')
    have ev: "chain_of (ae_emitted ev) = ?c" "ae_emitted ev = e"
      using follows_sel [OF chained(2)] by simp_all
    have "good P (?all @ [ev])" "writer_at ?c (?all @ [ev]) w'"
      using good_follows [OF loop_okD(1) [OF assms(1)] at chained(2)] writer_at_follows [OF at chained(2)]
      by blast+
    then show ?thesis
      using chained(1) assms entry(2) [OF ev(1)] ev dom_rb unfolding loop_ok_def
      by (simp add: chain_one_def Let_def rb_def [symmetric]) blast
  qed
qed

section \<open>Ingesting over a lawful store\<close>

text \<open>The heartbeats that are written so far, with the writers behind them.\<close>

definition beats_ok ::
    "canon_prims \<Rightarrow> (chain_id \<Rightarrow> audit_event list) \<Rightarrow> ingester \<Rightarrow> audit_event list \<Rightarrow> bool" where
  "beats_ok P base ing written \<longleftrightarrow>
     (\<forall>c. good P (base c @ pend_of c written)) \<and>
     (\<forall>c w. ig_writers ing c = Some w \<longrightarrow> writer_at c (base c @ pend_of c written) w)"

lemma heartbeat_cases:
  obtains (none) w' where "heartbeat P w now ing = (w', None)"
      "w' = w"
  | (refused) err where "heartbeat P w now ing = (w\<lparr>cw_last_heartbeat_day := Some (day_of now)\<rparr>, Some (Inl err))"
  | (beat) ev w' where "heartbeat P w now ing = (w', Some (Inr ev))"
      "follows P (w\<lparr>cw_last_heartbeat_day := Some (day_of now)\<rparr>) (heartbeat_event P w now (day_of now)) ev w'"
proof (cases "cw_last_heartbeat_day w = Some (day_of now)")
  case False
  let ?w = "w\<lparr>cw_last_heartbeat_day := Some (day_of now)\<rparr>"
  have e: "heartbeat_event P ?w now d = heartbeat_event P w now d" for d
    by (simp add: heartbeat_event_def)
  have h: "heartbeat P w now ing = (case writer_append P ?w (heartbeat_event P w now (day_of now)) ing of
      (w, r) \<Rightarrow> (w, Some r))"
    using False e by (simp add: heartbeat_def Let_def)
  show ?thesis
    by (cases rule: writer_append_cases [of ?w "heartbeat_event P w now (day_of now)" P ing])
      (use h refused beat in auto)
qed (use none in \<open>simp add: heartbeat_def\<close>)

lemma writer_at_day [simp]: "writer_at c evs (w\<lparr>cw_last_heartbeat_day := d\<rparr>) = writer_at c evs w"
  by (simp add: writer_at_def)

lemma heartbeat_step_ok:
  assumes "beats_ok P base ing written" "heartbeat_step P now ingested (ing, written) d = (ing', written')"
  shows "beats_ok P base ing' written'"
proof (cases "ig_writers ing d")
  case (Some w)
  have at: "writer_at d (base d @ pend_of d written) w" and g: "good P (base d @ pend_of d written)"
    using assms(1) Some by (auto simp: beats_ok_def)
  show ?thesis
  proof (cases rule: heartbeat_cases [of P w now ingested])
    case (beat ev w')
    let ?w = "w\<lparr>cw_last_heartbeat_day := Some (day_of now)\<rparr>"
    have at': "writer_at d (base d @ pend_of d written) ?w" using at by simp
    have "chain_of (ae_emitted ev) = d"
      using at follows_sel(8) [OF beat(2)] by (simp add: chain_of_def heartbeat_event_def writer_at_def)
    then show ?thesis
      using assms Some beat(1) good_follows [OF g at' beat(2)] writer_at_follows [OF at' beat(2)]
      unfolding beats_ok_def by (auto simp: heartbeat_step_def)
  qed (use assms Some at in \<open>auto simp: heartbeat_step_def beats_ok_def split: if_splits\<close>)
qed (use assms in \<open>auto simp: heartbeat_step_def\<close>)

lemma heartbeat_fold_ok:
  assumes "beats_ok P base ing written"
  shows "case foldl (heartbeat_step P now ingested) (ing, written) order of
    (ing', written') \<Rightarrow> beats_ok P base ing' written'"
  using assms
proof (induction order arbitrary: ing written)
  case (Cons d order)
  obtain ing1 written1 where "heartbeat_step P now ingested (ing, written) d = (ing1, written1)" by fastforce
  then show ?case using Cons heartbeat_step_ok by fastforce
qed simp

text \<open>What a batch does to the abstract state, whichever way the store answers.\<close>

definition ingest_effect ::
    "canon_prims \<Rightarrow> (chain_id \<Rightarrow> audit_event list) \<Rightarrow> audit_event_row list \<Rightarrow> emitted_event list \<Rightarrow>
      ingester \<Rightarrow> audit_event_row list \<Rightarrow> (ingest_report, ingest_error) result \<Rightarrow> bool" where
  "ingest_effect P base rows batch ing' rows' res \<longleftrightarrow>
     (case res of
        Inl e \<Rightarrow> rows' = rows \<and> (\<exists>err. e = IngestChain err)
      | Inr report \<Rightarrow>
          if ir_deferred report \<noteq> 0 then rows' = rows \<and> ingester_at base ing'
          else \<exists>new. rows' = rows @ map row_of new \<and> length new \<le> length batch \<and>
            store_holds P (\<lambda>c. base c @ pend_of c new) rows' \<and>
            ingester_at (\<lambda>c. base c @ pend_of c new) ing' \<and>
            (\<forall>e \<in> set batch. \<exists>ev \<in> set (base (chain_of e) @ pend_of (chain_of e) new).
               e_event_id (ae_emitted ev) = e_event_id e))"

context event_store
begin

lemma ensure_writer_ok:
  assumes "lawful c" "loop_ok P base v handled" "store_holds P base (content c (iv_world v))"
    and "length (content c (iv_world v)) + length handled < 2 ^ 64 - 1"
  shows "case ensure_writer (ops c) chain v of
      Inr v' \<Rightarrow> loop_ok P base v' handled \<and> content c (iv_world v') = content c (iv_world v) \<and>
        (\<exists>w. ig_writers (iv_ing v') chain = Some w)
    | Inl (ing, s, r) \<Rightarrow> content c s = content c (iv_world v) \<and> ingester_at base ing \<and>
        (\<exists>report. r = Inr report \<and> ir_deferred report \<noteq> 0)"
proof (cases "ig_writers (iv_ing v) chain")
  case None
  have len: "length (base d) + length handled < 2 ^ 64 - 1" for d
    using store_holds_length [OF assms(3), of d] assms(4) by linarith
  obtain s h where h: "es_head (ops c) (iv_world v) chain = (s, h)" by fastforce
  note keeps = head_keeps [OF assms(1) h]
  show ?thesis
  proof (cases h)
    case (Inl e)
    then show ?thesis
      using None h keeps loop_ok_rewind [OF assms(2) len] assms(2)
      by (simp add: ensure_writer_def loop_ok_def Let_def)
  next
    case (Inr resumed)
    have g: "good P (base chain)" using assms(3) by (simp add: store_holds_def)
    have "head_of_rows (map row_of (base chain)) resumed"
      using head_reads [OF assms(1) h [unfolded Inr]] assms(3) by (simp add: store_holds_def)
    from head_cursor [OF g _ this] len [of chain]
    have cur: "(case resumed of None \<Rightarrow> (0 + 1, GENESIS) | Some (q, b) \<Rightarrow> (q + 1, b)) = cursor (base chain)"
      by simp
    define w where "w = (case resumed of
       Some (q, h) \<Rightarrow> resume_from chain (ig_node_id (iv_ing v)) q h
     | None \<Rightarrow> writer_new chain (ig_node_id (iv_ing v)))"
    have "iv_rollback v chain = None" using assms(2) None by (auto simp: loop_ok_def)
    then have pend: "pend_of chain (iv_chained v) = []" by (rule loop_okD(3) [OF assms(2)])
    have "writer_at chain (base chain) w"
      using cur by (auto simp: w_def writer_at_def writer_new_def split: option.splits)
    then show ?thesis
      using None h Inr keeps assms(2) pend unfolding loop_ok_def
      by (simp add: ensure_writer_def Let_def w_def [symmetric]) blast
  qed
qed (use assms in \<open>simp add: ensure_writer_def\<close>)

lemma ingest_one_ok:
  assumes "lawful c" "loop_ok P base v handled" "store_holds P base (content c (iv_world v))"
    and "length (content c (iv_world v)) + length handled < 2 ^ 64 - 1"
  shows "case ingest_one P (ops c) v (e, now) of
      Inr v' \<Rightarrow> loop_ok P base v' (handled @ [e]) \<and> content c (iv_world v') = content c (iv_world v)
    | Inl (ing, s, r) \<Rightarrow> content c s = content c (iv_world v) \<and>
        (case r of Inr report \<Rightarrow> ingester_at base ing \<and> ir_deferred report \<noteq> 0
         | Inl e \<Rightarrow> \<exists>err. e = IngestChain err)"
proof (cases "ensure_writer (ops c) (chain_of e) v")
  case (Inl r)
  then show ?thesis using ensure_writer_ok [OF assms, of "chain_of e"]
    by (auto simp: ingest_one_def Let_def)
next
  case (Inr v')
  then obtain w where v': "loop_ok P base v' handled" "content c (iv_world v') = content c (iv_world v)"
      "ig_writers (iv_ing v') (chain_of e) = Some w"
    using ensure_writer_ok [OF assms, of "chain_of e"] by auto
  show ?thesis
    using Inr chain_one_ok [OF v'(1,3), of now] v'(2)
    by (cases "chain_one P (chain_of e) e now v'") (auto simp: ingest_one_def Let_def)
qed

lemma ingest_loop_ok:
  assumes "lawful c" "loop_ok P base v handled" "store_holds P base (content c (iv_world v))"
    and "length (content c (iv_world v)) + length handled + length batch < 2 ^ 64 - 1"
  shows "case ingest_loop P (ops c) v batch of
      Inr v' \<Rightarrow> loop_ok P base v' (handled @ map fst batch) \<and> content c (iv_world v') = content c (iv_world v)
    | Inl (ing, s, r) \<Rightarrow> content c s = content c (iv_world v) \<and>
        (case r of Inr report \<Rightarrow> ingester_at base ing \<and> ir_deferred report \<noteq> 0
         | Inl e \<Rightarrow> \<exists>err. e = IngestChain err)"
  using assms(2-4)
proof (induction batch arbitrary: v handled)
  case (Cons item batch)
  obtain e now where item: "item = (e, now)" by fastforce
  have "length (content c (iv_world v)) + length handled < 2 ^ 64 - 1" using Cons.prems(3) by simp
  note step = ingest_one_ok [OF assms(1) Cons.prems(1,2) this, of e now]
  show ?case
  proof (cases "ingest_one P (ops c) v (e, now)")
    case (Inl r)
    then show ?thesis using step item by simp
  next
    case (Inr v')
    then have v': "loop_ok P base v' (handled @ [e])" "content c (iv_world v') = content c (iv_world v)"
      using step by simp_all
    show ?thesis using Cons.IH [OF v'(1), unfolded v'(2)] Cons.prems Inr item
      by (cases "ingest_loop P (ops c) v' batch") auto
  qed
qed simp

lemma insert_attempts_ok:
  assumes "lawful c" "insert_attempts (ops c) (sleep c) p attempt s batch report last_error = (s', report', r)"
  shows "content c s' = (case r of Inr _ \<Rightarrow> content c s @ map row_of batch | Inl _ \<Rightarrow> content c s) \<and>
    ir_deferred report' = ir_deferred report"
  using assms(2)
proof (induction "ops c" "sleep c" p attempt s batch report last_error rule: insert_attempts.induct)
  case (1 p attempt s batch report last_error)
  show ?case
  proof (cases "attempt < rp_attempts p")
    case True
    obtain s1 r1 where i: "es_insert (ops c) s batch = (s1, r1)" by fastforce
    show ?thesis
    proof (cases r1)
      case (Inl e)
      then show ?thesis
        using 1(1) [OF True i [symmetric, unfolded Inl] refl refl refl] 1(2) True i insert_nothing [OF assms(1) i [unfolded Inl]]
        by (subst (asm) insert_attempts.simps) (cases r; auto simp: Let_def sleep_keeps [OF assms(1)])
    next
      case (Inr u)
      then show ?thesis
        using 1(2) True i insert_all [OF assms(1) i [unfolded Inr]]
        by (subst (asm) insert_attempts.simps) auto
    qed
  next
    case False
    then show ?thesis using 1(2) by (subst (asm) insert_attempts.simps) auto
  qed
qed

lemma ingest_ok:
  assumes "lawful c" "store_holds P base (content c s)" "ingester_at base ing"
    and "length (content c s) + length batch < 2 ^ 64 - 1"
    and "ingest P (ops c) (sleep c) ing s batch = (ing', s', res)"
  shows "ingest_effect P base (content c s) (map fst batch) ing' (content c s') res"
proof -
  let ?v = "\<lparr>iv_ing = ing, iv_world = s, iv_report = empty_report, iv_chained = [], iv_rollback = Map.empty\<rparr>"
  have start: "loop_ok P base ?v []"
    using assms(2,3) by (simp add: loop_ok_def store_holds_def ingester_at_def rollback_ok_def empty_report_def)
  have "length (content c s) + length [] + length batch < 2 ^ 64 - 1" using assms(4) by simp
  note loop = ingest_loop_ok [OF assms(1) start, simplified, OF assms(2) this [simplified]]
  show ?thesis
  proof (cases "ingest_loop P (ops c) ?v batch")
    case (Inl r)
    then show ?thesis using loop assms(5) by (auto simp: ingest_def ingest_effect_def split: sum.splits)
  next
    case (Inr v)
    then have v: "loop_ok P base v (map fst batch)" "content c (iv_world v) = content c s"
      using loop by simp_all
    let ?base = "\<lambda>d. base d @ pend_of d (iv_chained v)"
    have at: "ingester_at ?base (iv_ing v)" and zero: "ir_deferred (iv_report v) = 0"
      and len: "length (iv_chained v) \<le> length batch"
      and found: "\<forall>e \<in> set (map fst batch). \<exists>ev \<in> set (?base (chain_of e)). e_event_id (ae_emitted ev) = e_event_id e"
      using v(1) unfolding loop_ok_def ingester_at_def by simp_all
    have holds: "store_holds P ?base (content c s @ map row_of (iv_chained v))"
      using v(1) assms(2) unfolding store_holds_def loop_ok_def by (simp add: filter_rows)
    show ?thesis
    proof (cases "iv_chained v = []")
      case True
      then show ?thesis
        using assms(5) Inr v(2) zero at found holds
        by (auto simp: ingest_def ingest_effect_def intro: exI [of _ "[]"])
    next
      case False
      obtain s1 report r where
        i: "insert_with_retry (ops c) (sleep c) (iv_ing v) (iv_world v) (iv_chained v) (iv_report v) = (s1, report, r)"
        by (metis prod_cases3)
      note stored = insert_attempts_ok [OF assms(1) i [unfolded insert_with_retry_def]]
      have "length (base d) + length (map fst batch) < 2 ^ 64 - 1" for d
        using store_holds_length [OF assms(2), of d] assms(4) by simp
      note rewound = loop_ok_rewind [OF v(1) this]
      show ?thesis
      proof (cases r)
        case (Inl e)
        then show ?thesis
          using assms(5) Inr v(2) zero stored rewound False i by (auto simp: ingest_def ingest_effect_def)
      next
        case (Inr u)
        then have "ing' = iv_ing v" "s' = s1" "content c s' = content c s @ map row_of (iv_chained v)"
            "\<exists>report'. res = Inr report' \<and> ir_deferred report' = 0"
          using assms(5) \<open>ingest_loop P (ops c) ?v batch = Inr v\<close> v(2) zero stored False i
          by (auto simp: ingest_def)
        then show ?thesis using at found holds len
          by (auto simp: ingest_effect_def intro!: exI [of _ "iv_chained v"])
      qed
    qed
  qed
qed

lemma heartbeats_ok:
  assumes "lawful c" "store_holds P base (content c s)" "ingester_at base ing"
    and "heartbeats P (ops c) ing s order now ingested = (ing', s', Inr n)"
  shows "\<exists>new. store_holds P (\<lambda>d. base d @ pend_of d new) (content c s') \<and>
    ingester_at (\<lambda>d. base d @ pend_of d new) ing'"
proof -
  obtain ing1 written where f: "foldl (heartbeat_step P now ingested) (ing, []) order = (ing1, written)"
    by fastforce
  have beats: "beats_ok P base ing1 written"
    using heartbeat_fold_ok [of P base ing "[]" now ingested order] assms(2,3) f
    by (simp add: beats_ok_def store_holds_def ingester_at_def)
  let ?base = "\<lambda>d. base d @ pend_of d written"
  have holds: "store_holds P ?base (content c s @ map row_of written)" and at: "ingester_at ?base ing1"
    using beats assms(2) unfolding store_holds_def beats_ok_def ingester_at_def by (simp_all add: filter_rows)
  show ?thesis
  proof (cases "written = []")
    case True
    then have "ing' = ing1" "s' = s" using assms(4) f by (simp_all add: heartbeats_def)
    then show ?thesis using holds at True by (intro exI [of _ "[]"]) simp
  next
    case False
    obtain s1 r where i: "es_insert (ops c) s written = (s1, r)" by fastforce
    then have "ing' = ing1" "s' = s1" "\<exists>u. r = Inr u"
      using assms(4) f False by (auto simp: heartbeats_def split: sum.splits)
    then show ?thesis using holds at insert_all [OF assms(1)] i by (intro exI [of _ written]) auto
  qed
qed

end

end
