(* ===== verification/Bus.thy ===== *)
theory Bus
  imports Pipeline
begin

text \<open>
  \<open>crates/ancre-ingester/src/bus.rs\<close>: the consumer that pulls a batch, ingests it and decides its
  fate in one move.

  The messages are \<open>'m\<close>; what a fetch returned, the decoder of a payload (\<open>serde_json\<close>) and
  whether an acknowledgement reached the server are arguments. The acknowledgements that were
  sent are an output, in order.
\<close>

section \<open>Operations\<close>

definition STREAM :: string where
  "STREAM = ''ANCRE_EVENTS''"

definition SUBJECT_ROOT :: string where
  "SUBJECT_ROOT = ''ancre.events''"

definition CONSUMER :: string where
  "CONSUMER = ''ancre-ingester''"

definition HEARTBEAT_TICK :: nat where
  "HEARTBEAT_TICK = 3600 * 10 ^ 9"

record consumer_config =
  cc_durable_name :: string
  cc_filter_subject :: string
  cc_max_messages :: nat
  cc_max_wait :: nat
  cc_redelivery_delay :: nat

definition default_consumer :: consumer_config where
  "default_consumer =
     \<lparr>cc_durable_name = CONSUMER, cc_filter_subject = SUBJECT_ROOT @ ''.>'', cc_max_messages = 512,
      cc_max_wait = 500 * 10 ^ 6, cc_redelivery_delay = 2 * 10 ^ 9\<rparr>"

record consume_report =
  co_batches :: u64
  co_messages :: u64
  co_inserted :: u64
  co_duplicates :: u64
  co_redelivered :: u64
  co_undecodable :: u64

definition empty_consume :: consume_report where
  "empty_consume =
     \<lparr>co_batches = 0, co_messages = 0, co_inserted = 0, co_duplicates = 0, co_redelivered = 0,
      co_undecodable = 0\<rparr>"

datatype 'm reply = Ack 'm | Nak 'm nat

text \<open>The loop over the fetched messages: the decoded batch, its messages, the undecodable ones.\<close>

fun sort_messages ::
    "('m \<Rightarrow> emitted_event option) \<Rightarrow> ('m, string) result list \<Rightarrow>
      (emitted_event list \<times> 'm list \<times> 'm list, ingest_error) result" where
  "sort_messages dec [] = Ok ([], [], [])"
| "sort_messages dec (Inl e # _) = Err (IngestStore (''nats message: '' @ e))"
| "sort_messages dec (Inr m # ms) =
     and_then (sort_messages dec ms) (\<lambda>(batch, pending, undecodable).
       case dec m of
         Some event \<Rightarrow> Ok (event # batch, m # pending, undecodable)
       | None \<Rightarrow> Ok (batch, pending, m # undecodable))"

text \<open>Acknowledging the batch stops at the first acknowledgement that fails.\<close>

fun ack_all ::
    "('m \<Rightarrow> (unit, string) result) \<Rightarrow> 'm list \<Rightarrow> 'm reply list \<times> (unit, ingest_error) result" where
  "ack_all ack [] = ([], Ok ())"
| "ack_all ack (m # ms) =
     (case ack m of
        Inl e \<Rightarrow> ([Ack m], Err (IngestStore (''nats ack: '' @ e)))
      | Inr _ \<Rightarrow> (case ack_all ack ms of (sent, r) \<Rightarrow> (Ack m # sent, r)))"

definition pull_once ::
    "canon_prims \<Rightarrow> 's store_ops \<Rightarrow> 's sleeper \<Rightarrow> consumer_config \<Rightarrow> ('m \<Rightarrow> emitted_event option) \<Rightarrow>
      ('m \<Rightarrow> (unit, string) result) \<Rightarrow> (emitted_event \<Rightarrow> timestamp) \<Rightarrow>
      (('m, string) result list, string) result \<Rightarrow> ingester \<Rightarrow> 's \<Rightarrow>
      ingester \<times> 's \<times> 'm reply list \<times> (consume_report, ingest_error) result" where
  "pull_once P S Z config dec ack clock fetched ing s =
     (case fetched of
        Inl e \<Rightarrow> (ing, s, [], Err (IngestStore (''nats fetch: '' @ e)))
      | Inr messages \<Rightarrow>
          case sort_messages dec messages of
            Inl e \<Rightarrow> (ing, s, [], Err e)
          | Inr (batch, pending, undecodable) \<Rightarrow>
              let report = empty_consume\<lparr>co_undecodable := of_nat (length undecodable)\<rparr>;
                  sent = map Ack undecodable
              in if batch = [] then (ing, s, sent, Ok report)
                 else
                   let report = report\<lparr>co_batches := 1, co_messages := of_nat (length pending)\<rparr> in
                   case ingest P S Z ing s (map (\<lambda>e. (e, clock e)) batch) of
                     (ing, s, Inl e) \<Rightarrow> (ing, s, sent, Err e)
                   | (ing, s, Inr ingested) \<Rightarrow>
                       let report = report\<lparr>co_inserted := ir_inserted ingested,
                                           co_duplicates := ir_duplicates ingested\<rparr>
                       in if ir_deferred ingested > 0
                          then (ing, s, sent @ map (\<lambda>m. Nak m (cc_redelivery_delay config)) pending,
                                Ok (report\<lparr>co_redelivered := 1\<rparr>))
                          else case ack_all ack pending of
                            (acks, r) \<Rightarrow> (ing, s, sent @ acks, and_then r (\<lambda>_. Ok report)))"

text \<open>What \<open>run\<close> adds to its totals after a pull.\<close>

definition add_report :: "consume_report \<Rightarrow> consume_report \<Rightarrow> consume_report" where
  "add_report tot r =
     \<lparr>co_batches = co_batches tot + co_batches r, co_messages = co_messages tot + co_messages r,
      co_inserted = co_inserted tot + co_inserted r,
      co_duplicates = co_duplicates tot + co_duplicates r,
      co_redelivered = co_redelivered tot + co_redelivered r,
      co_undecodable = co_undecodable tot + co_undecodable r\<rparr>"

section \<open>The consumer as a state machine\<close>

text \<open>
  What \<open>run\<close> does, from an empty table on: pulls with any outcome, pulls dropped by the other
  branches of \<open>select!\<close>, heartbeats with any outcome, restarts of the process, and a world that
  changes around it without touching the table. The state carries the events whose messages were
  acknowledged, and how the ingester stands to the store.

  \<open>tokio::select!\<close> drops the future of every branch but the one that completed. The pull holds the
  ingester by reference and chains its batch event by event before it awaits the insertion, so a
  pull that is dropped there leaves the ingester behind events that nobody stores; so do a batch of
  heartbeats the store refused and an event that cannot be encoded, after the events before it
  were chained. From then on the ingester is \<open>Ahead\<close> of the store, until the process restarts or
  it writes or acknowledges something in that state: then what it stands on is \<open>Lost\<close>.
\<close>

datatype standing = Sound | Ahead | Lost

text \<open>
  A turn of the loop that may leave the writers ahead (\<open>behind\<close>), and that neither changed the table
  nor acknowledged an event (\<open>quiet\<close>).
\<close>

fun after_turn :: "standing \<Rightarrow> bool \<Rightarrow> bool \<Rightarrow> standing" where
  "after_turn Sound behind quiet = (if behind then Ahead else Sound)"
| "after_turn Ahead behind quiet = (if quiet then Ahead else Lost)"
| "after_turn Lost behind quiet = Lost"

fun after_restart :: "standing \<Rightarrow> standing" where
  "after_restart Lost = Lost"
| "after_restart _ = Sound"

definition acked_events :: "('m \<Rightarrow> emitted_event option) \<Rightarrow> 'm reply list \<Rightarrow> emitted_event list" where
  "acked_events dec sent =
     List.map_filter (\<lambda>a. case a of Ack m \<Rightarrow> dec m | Nak _ _ \<Rightarrow> None) sent"

definition fetched_count :: "(('m, string) result list, string) result \<Rightarrow> nat" where
  "fetched_count fetched = (case fetched of Inl _ \<Rightarrow> 0 | Inr ms \<Rightarrow> length ms)"

definition chain_failed :: "('a, ingest_error) result \<Rightarrow> bool" where
  "chain_failed r \<longleftrightarrow> (case r of Inl (IngestChain _) \<Rightarrow> True | _ \<Rightarrow> False)"

text \<open>
  The locals of \<open>ingest\<close> in a pull that has chained the first \<open>n\<close> events of its batch; \<open>None\<close> is a
  pull that has returned before.
\<close>

definition pull_chaining ::
    "canon_prims \<Rightarrow> 's store_ops \<Rightarrow> ('m \<Rightarrow> emitted_event option) \<Rightarrow> (emitted_event \<Rightarrow> timestamp) \<Rightarrow>
      nat \<Rightarrow> (('m, string) result list, string) result \<Rightarrow> ingester \<Rightarrow> 's \<Rightarrow> 's ingest_vars option" where
  "pull_chaining P S dec clock n fetched ing s =
     (case fetched of
        Inl _ \<Rightarrow> None
      | Inr messages \<Rightarrow>
          case sort_messages dec messages of
            Inl _ \<Rightarrow> None
          | Inr (batch, pending, undecodable) \<Rightarrow>
              case ingest_loop P S \<lparr>iv_ing = ing, iv_world = s, iv_report = empty_report, iv_chained = [],
                     iv_rollback = Map.empty\<rparr> (map (\<lambda>e. (e, clock e)) (take n batch)) of
                Inl _ \<Rightarrow> None
              | Inr v \<Rightarrow> Some v)"

text \<open>
  A pull sends the first \<open>k\<close> of its replies: all of them when it completes, fewer when it is dropped
  while it acknowledges. A pull dropped before that has chained \<open>n\<close> events and stored none, or it
  has chained its batch and the store has taken it without the answer being heard.
\<close>

inductive consumer_run ::
    "canon_prims \<Rightarrow> 's clickhouse_view \<Rightarrow> consumer_config \<Rightarrow> ('m \<Rightarrow> emitted_event option) \<Rightarrow>
      ingester \<Rightarrow> 's \<Rightarrow> emitted_event list \<Rightarrow> standing \<Rightarrow> bool"
  for P V config dec where
  run_start: "cv_rows V s = [] \<Longrightarrow> consumer_run P V config dec (ingester_new node) s [] Sound"
| run_restart: "consumer_run P V config dec ing s acked st \<Longrightarrow>
    consumer_run P V config dec (with_retry (ingester_new node) retry) s acked (after_restart st)"
| run_world: "consumer_run P V config dec ing s acked st \<Longrightarrow> cv_rows V s' = cv_rows V s \<Longrightarrow>
    consumer_run P V config dec ing s' acked st"
| run_pull: "consumer_run P V config dec ing s acked st \<Longrightarrow>
    length (cv_rows V s) + fetched_count fetched < 2 ^ 64 - 1 \<Longrightarrow>
    pull_once P (clickhouse_ops V) (cv_sleep V) config dec ack clock fetched ing s = (ing', s', sent, r) \<Longrightarrow>
    new = acked_events dec (take k sent) \<Longrightarrow>
    consumer_run P V config dec ing' s' (acked @ new)
      (after_turn st (chain_failed r) (cv_rows V s' = cv_rows V s \<and> new = []))"
| run_dropped: "consumer_run P V config dec ing s acked st \<Longrightarrow>
    length (cv_rows V s) + fetched_count fetched < 2 ^ 64 - 1 \<Longrightarrow>
    pull_chaining P (clickhouse_ops V) dec clock n fetched ing s = Some v \<Longrightarrow>
    cv_rows V s' = cv_rows V s \<Longrightarrow>
    consumer_run P V config dec (iv_ing v) s' acked (after_turn st (iv_chained v \<noteq> []) True)"
| run_dropped_stored: "consumer_run P V config dec ing s acked st \<Longrightarrow>
    length (cv_rows V s) + fetched_count fetched < 2 ^ 64 - 1 \<Longrightarrow>
    pull_chaining P (clickhouse_ops V) dec clock (fetched_count fetched) fetched ing s = Some v \<Longrightarrow>
    cv_rows V s' = cv_rows V s @ map row_of (iv_chained v) \<Longrightarrow>
    consumer_run P V config dec (iv_ing v) s' acked (after_turn st False (iv_chained v = []))"
| run_heartbeats: "consumer_run P V config dec ing s acked st \<Longrightarrow>
    heartbeats P (clickhouse_ops V) ing s order now ingested = (ing', s', r) \<Longrightarrow>
    length (cv_rows V s') < 2 ^ 64 - 1 \<Longrightarrow>
    consumer_run P V config dec ing' s' acked
      (after_turn st (\<exists>e. r = Inl e) (cv_rows V s' = cv_rows V s))"

lemma sort_messages_ok:
  assumes "sort_messages dec ms = Inr (batch, pending, undecodable)"
  shows "map dec pending = map Some batch \<and> list_all (\<lambda>m. dec m = None) undecodable \<and>
    length batch \<le> length ms"
  using assms
proof (induction ms arbitrary: batch pending undecodable rule: list.induct)
  case (Cons x ms)
  show ?case
  proof (cases x)
    case (Inr m)
    then obtain b p u where r: "sort_messages dec ms = Inr (b, p, u)"
      using Cons.prems by (auto simp: and_then_eq_Inr)
    show ?thesis using Cons.IH [OF r] Cons.prems Inr r by (auto split: option.splits)
  qed (use Cons.prems in simp)
qed simp

lemma ack_all_acks: "\<exists>k. fst (ack_all ack ms) = map Ack (take k ms)"
proof (induction ms)
  case (Cons m ms)
  then obtain k where "fst (ack_all ack ms) = map Ack (take k ms)" by blast
  then have "fst (ack_all ack (m # ms)) = map Ack (take 1 (m # ms)) \<or>
      fst (ack_all ack (m # ms)) = map Ack (take (Suc k) (m # ms))"
    by (auto split: sum.splits prod.splits)
  then show ?case by blast
qed simp

lemma acked_events_simps [simp]:
  "acked_events dec [] = []"
  "acked_events dec (xs @ ys) = acked_events dec xs @ acked_events dec ys"
  by (simp_all add: acked_events_def List.map_filter_def)

lemma acked_Nak [simp]: "acked_events dec (map (\<lambda>m. Nak m d) ms) = []"
  by (induction ms) (simp_all add: acked_events_def map_filter_simps)

lemma acked_undecodable: "list_all (\<lambda>m. dec m = None) ms \<Longrightarrow> acked_events dec (map Ack ms) = []"
  by (induction ms) (simp_all add: acked_events_def map_filter_simps)

lemma acked_undecodable_take:
  "list_all (\<lambda>m. dec m = None) ms \<Longrightarrow> acked_events dec (map Ack (take k ms)) = []"
  by (rule acked_undecodable) (auto simp: list_all_iff dest: in_set_takeD)

lemma acked_pending:
  "map dec ms = map Some batch \<Longrightarrow> acked_events dec (map Ack (take k ms)) = take k batch"
proof (induction ms arbitrary: batch k)
  case (Cons m ms)
  then obtain e es where b: "batch = e # es" by (cases batch) auto
  show ?case
  proof (cases k)
    case (Suc j)
    then show ?thesis using Cons.IH [of es j] Cons.prems b
      by (simp add: acked_events_def map_filter_simps)
  qed simp
qed simp

section \<open>The invariant of the consumer\<close>

definition stored_in :: "(chain_id \<Rightarrow> audit_event list) \<Rightarrow> emitted_event \<Rightarrow> bool" where
  "stored_in base e \<longleftrightarrow> (\<exists>ev \<in> set (base (chain_of e)). e_event_id (ae_emitted ev) = e_event_id e)"

definition table_ok ::
    "canon_prims \<Rightarrow> (chain_id \<Rightarrow> audit_event list) \<Rightarrow> audit_event_row list \<Rightarrow> emitted_event list \<Rightarrow> bool"
where
  "table_ok P base rows acked \<longleftrightarrow> store_holds P base rows \<and> length rows < 2 ^ 64 - 1 \<and>
     list_all (stored_in base) acked"

lemma stored_in_mono: "set (base (chain_of e)) \<subseteq> set (base' (chain_of e)) \<Longrightarrow> stored_in base e \<Longrightarrow> stored_in base' e"
  by (auto simp: stored_in_def)

lemma pull_ok:
  assumes "clickhouse_lawful V" "table_ok P base (cv_rows V s) acked" "ingester_at base ing"
    and "length (cv_rows V s) + fetched_count fetched < 2 ^ 64 - 1"
    and "pull_once P (clickhouse_ops V) (cv_sleep V) config dec ack clock fetched ing s = (ing', s', sent, r)"
  shows "\<exists>base'. table_ok P base' (cv_rows V s') (acked @ acked_events dec (take k sent)) \<and>
    (\<not> chain_failed r \<longrightarrow> ingester_at base' ing')"
proof (cases "\<exists>ms batch pending undecodable. fetched = Inr ms \<and>
    sort_messages dec ms = Inr (batch, pending, undecodable) \<and> batch \<noteq> []")
  case True
  then obtain ms batch pending undecodable where f: "fetched = Inr ms"
      "sort_messages dec ms = Inr (batch, pending, undecodable)" "batch \<noteq> []"
    by blast
  note sorted = sort_messages_ok [OF f(2)]
  let ?items = "map (\<lambda>e. (e, clock e)) batch"
  obtain ing1 s1 res where i: "ingest P (clickhouse_ops V) (cv_sleep V) ing s ?items = (ing1, s1, res)"
    by (metis prod_cases3)
  have "length (cv_rows V s) + length ?items < 2 ^ 64 - 1"
    using assms(4) f(1) sorted by (simp add: fetched_count_def)
  with assms(2,3) have effect: "ingest_effect P base (cv_rows V s) batch ing1 (cv_rows V s1) res"
    using click.ingest_ok [OF assms(1) _ _ _ i, of base] by (simp add: table_ok_def comp_def)
  have out: "ing' = ing1" "s' = s1"
    using assms(5) f i by (auto simp: pull_once_def Let_def split: if_splits prod.splits sum.splits)
  show ?thesis
  proof (cases res)
    case (Inl e)
    then have "sent = map Ack undecodable" "r = Inl e" "chain_failed r" "cv_rows V s1 = cv_rows V s"
      using assms(5) f i effect by (auto simp: pull_once_def Let_def ingest_effect_def chain_failed_def)
    then show ?thesis
      using out assms(2) sorted by (auto simp: take_map acked_undecodable_take)
  next
    case res: (Inr report)
    show ?thesis
    proof (cases "ir_deferred report = 0")
      case True
      obtain j where j: "fst (ack_all ack pending) = map Ack (take j pending)"
        using ack_all_acks [of ack pending] by blast
      have "sent = map Ack undecodable @ map Ack (take j pending)"
        using assms(5) f i res True j by (auto simp: pull_once_def Let_def split: prod.splits)
      then have "acked_events dec (take k sent) = take (min (k - length undecodable) j) batch"
        using sorted by (simp add: take_map acked_undecodable_take acked_pending)
      moreover obtain new where new: "cv_rows V s1 = cv_rows V s @ map row_of new" "length new \<le> length batch"
          "store_holds P (\<lambda>c. base c @ pend_of c new) (cv_rows V s1)"
          "ingester_at (\<lambda>c. base c @ pend_of c new) ing1"
          "\<forall>e \<in> set batch. stored_in (\<lambda>c. base c @ pend_of c new) e"
        using effect res True unfolding ingest_effect_def stored_in_def by auto
      moreover have "list_all (stored_in (\<lambda>c. base c @ pend_of c new)) (acked @ take l batch)" for l
        using assms(2) new(5) by (auto simp: table_ok_def list_all_iff stored_in_def dest: in_set_takeD)
      moreover have "length (cv_rows V s1) < 2 ^ 64 - 1"
        using new(1,2) assms(4) f(1) sorted by (simp add: fetched_count_def)
      ultimately show ?thesis using out unfolding table_ok_def by auto
    next
      case False
      have "sent = map Ack undecodable @ map (\<lambda>m. Nak m (cc_redelivery_delay config)) pending"
        using assms(5) f i res False by (auto simp: pull_once_def Let_def word_gt_0 split: prod.splits)
      then have "acked_events dec (take k sent) = []" using sorted by (simp add: take_map acked_undecodable_take)
      then show ?thesis
        using effect res False out assms(2) by (auto simp: ingest_effect_def table_ok_def)
    qed
  qed
next
  case False
  then have "ing' = ing \<and> s' = s \<and> (\<exists>ms. list_all (\<lambda>m. dec m = None) ms \<and> sent = map Ack ms)"
    using assms(5) sort_messages_ok
    by (fastforce simp: pull_once_def Let_def split: sum.splits prod.splits if_splits)
  then have "ing' = ing \<and> s' = s \<and> acked_events dec (take k sent) = []"
    by (auto simp: take_map acked_undecodable_take)
  then show ?thesis using assms(2,3) by auto
qed

lemma chaining_ok:
  assumes "clickhouse_lawful V" "table_ok P base (cv_rows V s) acked" "ingester_at base ing"
    and "length (cv_rows V s) + fetched_count fetched < 2 ^ 64 - 1"
    and "pull_chaining P (clickhouse_ops V) dec clock n fetched ing s = Some v"
  shows "store_holds P (\<lambda>c. base c @ pend_of c (iv_chained v)) (cv_rows V s @ map row_of (iv_chained v)) \<and>
    ingester_at (\<lambda>c. base c @ pend_of c (iv_chained v)) (iv_ing v) \<and>
    length (iv_chained v) \<le> fetched_count fetched"
proof -
  let ?v = "\<lparr>iv_ing = ing, iv_world = s, iv_report = empty_report, iv_chained = [], iv_rollback = Map.empty\<rparr>"
  obtain ms batch pending undecodable where f: "fetched = Inr ms"
      "sort_messages dec ms = Inr (batch, pending, undecodable)"
      "ingest_loop P (clickhouse_ops V) ?v (map (\<lambda>e. (e, clock e)) (take n batch)) = Inr v"
    using assms(5) by (auto simp: pull_chaining_def split: sum.splits)
  have len: "length batch \<le> fetched_count fetched"
    using sort_messages_ok [OF f(2)] f(1) by (simp add: fetched_count_def)
  have start: "loop_ok P base ?v []"
    using assms(2,3) by (simp add: loop_ok_def table_ok_def store_holds_def ingester_at_def rollback_ok_def
        empty_report_def)
  have "loop_ok P base v (take n batch)"
    using click.ingest_loop_ok [OF assms(1) start, of "map (\<lambda>e. (e, clock e)) (take n batch)"] f(3) assms(2,4) len
    by (simp add: table_ok_def comp_def)
  then show ?thesis
    using assms(2) len unfolding loop_ok_def table_ok_def store_holds_def ingester_at_def
    by (simp add: filter_rows)
qed

lemma heartbeats_refused_rows:
  assumes "clickhouse_lawful V" "heartbeats P (clickhouse_ops V) ing s order now ingested = (ing', s', Inl e)"
  shows "cv_rows V s' = cv_rows V s"
  using assms(2) click.insert_nothing [OF assms(1)]
  by (auto simp: heartbeats_def split: prod.splits sum.splits if_splits)

text \<open>As long as the run is not \<open>Lost\<close> the table is right, and while it is \<open>Sound\<close> the writers are.\<close>

lemma consumer_run_ok:
  assumes "consumer_run P V config dec ing s acked st" "clickhouse_lawful V"
  shows "st \<noteq> Lost \<longrightarrow> (\<exists>base. table_ok P base (cv_rows V s) acked \<and> (st = Sound \<longrightarrow> ingester_at base ing))"
  using assms(1)
proof (induction rule: consumer_run.induct)
  case (run_start s node)
  then show ?case
    by (intro impI exI [of _ "\<lambda>_. []"]) (simp add: table_ok_def store_holds_def ingester_at_def ingester_new_def)
next
  case (run_restart ing s acked st node retry)
  then show ?case
    by (cases st) (auto simp: ingester_at_def ingester_new_def with_retry_def)
next
  case (run_world ing s acked st s')
  then show ?case by simp
next
  case (run_pull ing s acked st fetched ack clock ing' s' sent r new k)
  show ?case
  proof (cases st)
    case Sound
    then obtain base where "table_ok P base (cv_rows V s) acked" "ingester_at base ing"
      using run_pull.IH by auto
    from pull_ok [OF assms(2) this run_pull.hyps(2,3), of k] show ?thesis
      using Sound run_pull.hyps(4) by auto
  qed (use run_pull in auto)
next
  case (run_dropped ing s acked st fetched clock n v s')
  show ?case
  proof (cases st)
    case Sound
    then obtain base where b: "table_ok P base (cv_rows V s) acked" "ingester_at base ing"
      using run_dropped.IH by auto
    from chaining_ok [OF assms(2) this run_dropped.hyps(2,3)] show ?thesis
      using Sound b run_dropped.hyps(4) by auto
  qed (use run_dropped in auto)
next
  case (run_dropped_stored ing s acked st fetched clock v s')
  show ?case
  proof (cases st)
    case Sound
    then obtain base where b: "table_ok P base (cv_rows V s) acked" "ingester_at base ing"
      using run_dropped_stored.IH by auto
    note c = chaining_ok [OF assms(2) this run_dropped_stored.hyps(2,3)]
    have "list_all (stored_in (\<lambda>c. base c @ pend_of c (iv_chained v))) acked"
      using b(1) by (auto simp: table_ok_def list_all_iff stored_in_def)
    moreover have "length (cv_rows V s') < 2 ^ 64 - 1"
      using c run_dropped_stored.hyps(2,4) by simp
    ultimately show ?thesis
      using Sound c run_dropped_stored.hyps(4) unfolding table_ok_def by auto
  qed (use run_dropped_stored in auto)
next
  case (run_heartbeats ing s acked st order now ingested ing' s' r)
  show ?case
  proof (cases st)
    case Sound
    then obtain base where b: "table_ok P base (cv_rows V s) acked" "ingester_at base ing"
      using run_heartbeats.IH by auto
    show ?thesis
    proof (cases r)
      case (Inl e)
      then show ?thesis
        using Sound b heartbeats_refused_rows [OF assms(2)] run_heartbeats.hyps(2) by auto
    next
      case (Inr n)
      from click.heartbeats_ok [OF assms(2) _ b(2)] b(1) run_heartbeats.hyps(2) Inr
      obtain new where n: "store_holds P (\<lambda>d. base d @ pend_of d new) (cv_rows V s')"
          "ingester_at (\<lambda>d. base d @ pend_of d new) ing'"
        unfolding table_ok_def by blast
      have "list_all (stored_in (\<lambda>d. base d @ pend_of d new)) acked"
        using b(1) by (auto simp: table_ok_def list_all_iff stored_in_def)
      then show ?thesis using Sound Inr n run_heartbeats.hyps(3) unfolding table_ok_def by auto
    qed
  qed (use run_heartbeats in auto)
qed

section \<open>A database for examples\<close>

text \<open>A table, the insertion in progress, and a schedule that says which operations fail.\<close>

type_synonym demo_db = "audit_event_row list \<times> audit_event_row list \<times> bool list"

definition demo_op :: "demo_db \<Rightarrow> demo_db \<times> (unit, string) result" where
  "demo_op s = (case s of (rows, buf, down # rest) \<Rightarrow>
       ((rows, buf, rest), if down then Err ''refused'' else Ok ())
     | (rows, buf, []) \<Rightarrow> (s, Ok ()))"

definition demo_head :: "audit_event_row list \<Rightarrow> head_row list" where
  "demo_head rs =
     (case sort_key r_seq rs of
        [] \<Rightarrow> [\<lparr>head_seq = 0, head_hash = replicate 32 0\<rparr>]
      | x # xs \<Rightarrow> [\<lparr>head_seq = r_seq (last (x # xs)), head_hash = r_event_hash (last (x # xs))\<rparr>])"

definition demo_clickhouse :: "demo_db clickhouse" where
  "demo_clickhouse =
     \<lparr>ck_insert = (\<lambda>s table. case demo_op s of ((rows, buf, sched), r) \<Rightarrow> ((rows, [], sched), r)),
      ck_write = (\<lambda>s row. case s of (rows, buf, sched) \<Rightarrow> ((rows, buf @ [row], sched), Ok ())),
      ck_end = (\<lambda>s. case demo_op s of ((rows, buf, sched), r) \<Rightarrow>
         ((if r = Ok () then rows @ buf else rows, [], sched), r)),
      ck_head_query = (\<lambda>s t y. case demo_op s of (s, r) \<Rightarrow>
         (s, and_then r (\<lambda>_. Ok (demo_head
           (filter (of_chain \<lparr>cid_tenant_id = t, cid_system_id = y\<rparr>) (fst s)))))),
      ck_get_query = (\<lambda>s t y q. (s, Ok (filter (\<lambda>x. of_chain \<lparr>cid_tenant_id = t, cid_system_id = y\<rparr> x \<and> r_seq x = q) (fst s)))),
      ck_range_query = (\<lambda>s t y a b. (s, Ok (sort_key r_seq
         (filter (\<lambda>x. of_chain \<lparr>cid_tenant_id = t, cid_system_id = y\<rparr> x \<and> a \<le> r_seq x \<and> r_seq x \<le> b) (fst s)))))\<rparr>"

definition demo_view :: "demo_db clickhouse_view" where
  "demo_view = \<lparr>cv_client = demo_clickhouse, cv_sleep = (\<lambda>s d. s), cv_rows = fst, cv_buffer = fst \<circ> snd\<rparr>"

lemma demo_op_rows: "demo_op s = (s', r) \<Longrightarrow> fst s' = fst s \<and> fst (snd s') = fst (snd s)"
  by (auto simp: demo_op_def split: prod.splits list.splits)

lemma sorted_last_max: "sorted (map f xs) \<Longrightarrow> x \<in> set xs \<Longrightarrow> f x \<le> f (last xs)"
  by (induction xs) auto

lemma demo_head_aggregate: "head_aggregate rs (demo_head rs)"
proof (cases "sort_key r_seq rs")
  case Nil
  then have "rs = []" by (metis length_0_conv length_sort)
  then show ?thesis by (simp add: head_aggregate_def demo_head_def)
next
  case (Cons x xs)
  let ?l = "last (x # xs)"
  have set: "set rs = set (x # xs)" using Cons by (metis set_sort)
  have sorted: "sorted (map r_seq (x # xs))" using sorted_sort_key [of r_seq rs] Cons by simp
  have "\<forall>r \<in> set rs. r_seq r \<le> r_seq ?l" unfolding set using sorted_last_max [OF sorted] by blast
  moreover have "?l \<in> set rs" "rs \<noteq> []" unfolding set using last_in_set [of "x # xs"] Cons by auto
  ultimately show ?thesis using Cons unfolding head_aggregate_def demo_head_def by auto
qed

lemma demo_insert_lawful: "insert_lawful demo_view"
  by (auto simp: insert_lawful_def demo_view_def demo_clickhouse_def dest: demo_op_rows split: prod.splits)

lemma chain_id_eta [simp]: "\<lparr>cid_tenant_id = cid_tenant_id c, cid_system_id = cid_system_id c\<rparr> = c"
  by simp

lemma demo_head_query:
  "ck_head_query (cv_client demo_view) s (cid_tenant_id c) (cid_system_id c) = (case demo_op s of
     (s, r) \<Rightarrow> (s, and_then r (\<lambda>_. Inr (demo_head (filter (of_chain c) (fst s))))))"
  for c :: chain_id
  by (simp add: demo_view_def demo_clickhouse_def split: prod.splits)

lemma demo_range_query:
  "ck_range_query (cv_client demo_view) s (cid_tenant_id c) (cid_system_id c) a b =
     (s, Inr (sort_key r_seq (filter (\<lambda>x. of_chain c x \<and> a \<le> r_seq x \<and> r_seq x \<le> b) (fst s))))"
  for c :: chain_id
  by (simp add: demo_view_def demo_clickhouse_def)

lemma demo_rows_sel [simp]: "cv_rows demo_view = fst" "cv_sleep demo_view s d = s"
  by (simp_all add: demo_view_def)

lemma demo_query_lawful: "query_lawful demo_view"
  unfolding query_lawful_def demo_head_query demo_range_query
  by (auto simp: and_then_eq_Inr demo_head_aggregate dest!: demo_op_rows split: prod.splits)

lemma demo_lawful: "clickhouse_lawful demo_view"
  by (simp add: clickhouse_lawful_def demo_insert_lawful demo_query_lawful)

text \<open>Two messages: refused once with the head query, stored when they are delivered again.\<close>

definition demo_pull :: "ingester \<Rightarrow> demo_db \<Rightarrow>
    ingester \<times> demo_db \<times> u64 reply list \<times> (consume_report, ingest_error) result" where
  "demo_pull ing s = pull_once chain_prims (clickhouse_ops demo_view) (cv_sleep demo_view)
     default_consumer (\<lambda>m. Some (demo_emitted m)) (\<lambda>_. Ok ()) (\<lambda>_. 0) (Ok [Ok 4, Ok 5]) ing s"

definition demo_rows :: "audit_event_row list" where
  "demo_rows = map row_of [demo_event 1 4 GENESIS, demo_event 2 5 (demo_hash 1 4)]"

lemma demo_append:
  assumes "cw_seen w (ucast g) = None"
  shows "writer_append chain_prims w (demo_emitted g) 0 =
    (remember (w\<lparr>cw_head_hash := demo_hash (cw_next_seq w) g, cw_next_seq := cw_next_seq w + 1\<rparr>)
       (ucast g) (cw_next_seq w), Inr (demo_event (cw_next_seq w) g (cw_head_hash w)))"
proof -
  let ?ev = "\<lparr>ae_seq = cw_next_seq w, ae_prev_hash = cw_head_hash w, ae_event_hash = GENESIS,
     ae_canon_version = CANON_VERSION, ae_ingested_at = 0, ae_emitted = demo_emitted g,
     ae_payload_ref = '''', ae_subject_key_id = ''''\<rparr>"
  have id: "e_event_id (demo_emitted g) = ucast g" by (simp add: demo_emitted_def)
  have "event_hash chain_prims ?ev = Inr (demo_hash (cw_next_seq w) g)"
    by (simp add: demo_event_hash) (simp add: demo_emitted_def)
  then show ?thesis
    using assms by (simp add: writer_append_def chain_event_def seal_def Let_def id demo_event_def)
qed

lemma rewind_nothing [simp]: "rewind ing Map.empty = ing"
  by (simp add: rewind_def)

lemmas demo_ingest_simps = demo_pull_def pull_once_def default_consumer_def ingest_def ingest_one_def
  Let_def ensure_writer_def ingester_new_def clickhouse_ops_def clickhouse_head_def demo_view_def
  demo_clickhouse_def demo_op_def empty_report_def

lemma demo_pull_refused:
  "\<exists>r. demo_pull (ingester_new ''n'') ([], [], [True]) =
     (ingester_new ''n'', ([], [], []), [Nak 4 (2 * 10 ^ 9), Nak 5 (2 * 10 ^ 9)], Inr r)"
  by (simp add: demo_ingest_simps)

lemma demo_pull_stored:
  "\<exists>ing r. demo_pull (ingester_new ''n'') ([], [], []) =
     (ing, (demo_rows, [], []), [Ack 4, Ack 5], Inr r)"
proof -
  have c: "chain_of (demo_emitted g) = \<lparr>cid_tenant_id = ''t'', cid_system_id = ''s''\<rparr>"
    "e_event_id (demo_emitted g) = ucast g" for g
    by (simp_all add: chain_of_def demo_emitted_def)
  show ?thesis
    by (simp add: demo_ingest_simps c read_head_def demo_head_def chain_one_def demo_append
        writer_new_def insert_with_retry_def insert_attempts.simps default_retry_def
        clickhouse_insert_def demo_rows_def remember_def trim_seen_conv)
qed

lemma demo_chaining:
  "\<exists>v. pull_chaining chain_prims (clickhouse_ops demo_view) (\<lambda>m. Some (demo_emitted m)) (\<lambda>_. 0) 1
      (Ok [Ok 4]) (ingester_new ''n'') ([], [], []) = Some v \<and> iv_chained v \<noteq> []"
proof -
  have c: "chain_of (demo_emitted g) = \<lparr>cid_tenant_id = ''t'', cid_system_id = ''s''\<rparr>"
    "e_event_id (demo_emitted g) = ucast g" for g
    by (simp_all add: chain_of_def demo_emitted_def)
  show ?thesis
    by (simp add: pull_chaining_def demo_ingest_simps c read_head_def demo_head_def chain_one_def demo_append
      writer_new_def)
qed

lemma good_sorted:
  assumes "good P evs" "length evs < 2 ^ 64"
  shows "sorted (map ae_seq evs)"
  unfolding sorted_iff_nth_mono
proof (intro allI impI)
  fix i j assume "i \<le> j" "j < length (map ae_seq evs)"
  then show "map ae_seq evs ! i \<le> map ae_seq evs ! j"
    using good_unat [OF assms, of i] good_unat [OF assms, of j] by (simp add: word_le_nat_alt)
qed

text \<open>Reading a whole chain back.\<close>

lemma range_reads_chain:
  assumes "clickhouse_lawful V" "store_holds P base (cv_rows V s)" "length (cv_rows V s) < 2 ^ 64"
    and "clickhouse_range (cv_client V) dbg s c 0 (- 1) = (s', Inr evs)"
  shows "evs = map stored_form (base c)"
proof -
  obtain s1 q where q: "ck_range_query (cv_client V) s (cid_tenant_id c) (cid_system_id c) 0 (- 1) = (s1, q)"
    by fastforce
  then obtain rs where rs: "q = Inr rs" "try_map (event_of_row dbg) rs = Inr evs"
    using assms(4) by (auto simp: clickhouse_range_def split: sum.splits)
  have g: "good P (base c)" "filter (of_chain c) (cv_rows V s) = map row_of (base c)"
    using assms(2) by (auto simp: store_holds_def)
  have seqs: "r_seq \<circ> row_of = ae_seq" by (simp add: row_of_def Let_def fun_eq_iff)
  have "rs = sort_key r_seq (filter (\<lambda>x. of_chain c x \<and> 0 \<le> r_seq x \<and> r_seq x \<le> - 1) (cv_rows V s))"
    using assms(1) q rs(1) unfolding clickhouse_lawful_def query_lawful_def by blast
  then have "rs = sort_key r_seq (map row_of (base c))" using g(2) by simp
  also have "\<dots> = map row_of (base c)"
    using good_sorted [OF g(1)] store_holds_length [OF assms(2), of c] assms(3) seqs
    by (intro sort_key_id_if_sorted) simp
  finally show ?thesis
    using rs(2) try_map_Inr_map [of "map row_of (base c)" "event_of_row dbg"]
    by (simp add: try_map_list_all2 list_all2_map1 event_of_row_of list_all2_eq [symmetric])
      (simp add: list_all2_conv_all_nth list_eq_iff_nth_eq)
qed

section \<open>Properties\<close>

text \<open>
  C4. What the ingester acknowledges is evidence that verifies. Over a store that keeps its
  contract, in every run of the loop (pulls that succeed, are deferred, fail or are dropped,
  heartbeats, restarts, redelivery), the whole chain of every system reads back as a clean range
  from \<open>GENESIS\<close> at the positions from one on without a gap, and it holds an event with the id of
  every event that was acknowledged, unless the run is \<open>Lost\<close>: unless, after a refused batch of
  heartbeats, an event that cannot be encoded or a pull dropped behind chained events, the process
  went on to store or acknowledge something before it was restarted.
\<close>

theorem acked_history_verifies:
  assumes "clickhouse_lawful V" "consumer_run P V config dec ing s acked standing" "standing \<noteq> Lost"
    and "clickhouse_range (cv_client V) dbg s chain 0 (- 1) = (s', Ok evs)"
  shows "is_clean (verify_range P evs GENESIS) \<and> map ae_seq evs = map of_nat [1..<Suc (length evs)] \<and>
    (\<forall>e \<in> set acked. chain_of e = chain \<longrightarrow>
       e_event_id e \<in> set (map (e_event_id \<circ> ae_emitted) evs))"
proof -
  obtain base where ok: "table_ok P base (cv_rows V s) acked"
    using consumer_run_ok [OF assms(2,1)] assms(3) by blast
  then have holds: "store_holds P base (cv_rows V s)" and len: "length (cv_rows V s) < 2 ^ 64"
    by (simp_all add: table_ok_def)
  note evs = range_reads_chain [OF assms(1) holds len assms(4)]
  have "good P (base chain)" using holds by (simp add: store_holds_def)
  moreover have "ae_seq \<circ> stored_form = ae_seq" by (simp add: fun_eq_iff)
  moreover have "e_event_id e \<in> e_event_id ` ae_emitted ` set evs" if "e \<in> set acked" "chain_of e = chain" for e
  proof -
    note e = that
    have "stored_in base e" using ok e(1) by (simp add: table_ok_def list_all_iff)
    then obtain ev where "ev \<in> set (base chain)" "e_event_id (ae_emitted ev) = e_event_id e"
      using e(2) by (auto simp: stored_in_def)
    moreover have "e_event_id (ae_emitted (stored_form ev)) = e_event_id (ae_emitted ev)"
      by (simp add: stored_form_def Let_def)
    ultimately show ?thesis unfolding evs set_map by (metis imageI)
  qed
  ultimately show ?thesis by (auto simp: evs is_clean_iff good_def image_comp)
qed

theorem acked_history_verifies_witness:
  "is_clean (verify_range chain_prims [stored_form (demo_event 1 4 GENESIS),
      stored_form (demo_event 2 5 (demo_hash 1 4))] GENESIS)"
proof -
  let ?dec = "\<lambda>m. Some (demo_emitted m)" and ?chain = "\<lparr>cid_tenant_id = ''t'', cid_system_id = ''s''\<rparr>"
  let ?run = "consumer_run chain_prims demo_view default_consumer ?dec"
  have start: "?run (ingester_new ''n'') ([], [], [True]) [] Sound" by (rule run_start) simp
  obtain r where "demo_pull (ingester_new ''n'') ([], [], [True]) =
      (ingester_new ''n'', ([], [], []), [Nak 4 (2 * 10 ^ 9), Nak 5 (2 * 10 ^ 9)], Inr r)"
    using demo_pull_refused by blast
  from run_pull [OF start _ this [unfolded demo_pull_def] refl, of 2]
  have again: "?run (ingester_new ''n'') ([], [], []) [] Sound"
    by (simp add: fetched_count_def acked_events_def map_filter_simps chain_failed_def)
  obtain v where "pull_chaining chain_prims (clickhouse_ops demo_view) ?dec (\<lambda>_. 0) 1 (Ok [Ok 4])
      (ingester_new ''n'') ([], [], []) = Some v" "iv_chained v \<noteq> []"
    using demo_chaining by blast
  from run_dropped [OF again _ this(1), of "([], [], [])"] this(2)
  have "?run (iv_ing v) ([], [], []) [] Ahead" by (simp add: fetched_count_def)
  from run_restart [OF this, of "''n''" default_retry]
  have again: "?run (ingester_new ''n'') ([], [], []) [] Sound"
    by (simp add: ingester_new_def with_retry_def)
  obtain ing r' where "demo_pull (ingester_new ''n'') ([], [], []) =
      (ing, (demo_rows, [], []), [Ack 4, Ack 5], Inr r')"
    using demo_pull_stored by blast
  from run_pull [OF again _ this [unfolded demo_pull_def] refl, of 2]
  have run: "?run ing (demo_rows, [], []) [demo_emitted 4, demo_emitted 5] Sound"
    by (simp add: fetched_count_def acked_events_def map_filter_simps chain_failed_def)
  have "clickhouse_range (cv_client demo_view) id (demo_rows, [], []) ?chain 0 (- 1) =
      ((demo_rows, [], []), Inr [stored_form (demo_event 1 4 GENESIS),
         stored_form (demo_event 2 5 (demo_hash 1 4))])"
  proof -
    have rows: "filter (\<lambda>x. of_chain ?chain x \<and> 0 \<le> r_seq x \<and> r_seq x \<le> - 1) demo_rows = demo_rows"
      by (simp add: demo_rows_def of_chain_row_of chain_of_def demo_emitted_def)
    have "sort_key r_seq demo_rows = demo_rows"
      by (rule sort_key_id_if_sorted) (simp add: demo_rows_def row_of_def Let_def)
    then show ?thesis
      using rows demo_range_query [of "(demo_rows, [], [])" ?chain 0 "- 1"]
      by (simp add: clickhouse_range_def) (simp add: demo_rows_def event_of_row_of)
  qed
  from acked_history_verifies [OF demo_lawful run _ this] show ?thesis by blast
qed
section \<open>A heartbeat the store refuses\<close>

lemma heartbeat_marks:
  "heartbeat P w now ing = (w', r) \<Longrightarrow> cw_last_heartbeat_day w' = Some (day_of now)"
  by (cases rule: heartbeat_cases [of P w now ing])
    (auto simp: follows_sel heartbeat_def Let_def split: if_splits prod.splits)

lemma heartbeat_step_marks:
  assumes "heartbeat_step P now ingested (ing, written) d = (ing', written')"
  shows "(\<forall>w. ig_writers ing' d = Some w \<longrightarrow> cw_last_heartbeat_day w = Some (day_of now)) \<and>
    (\<forall>c w. c \<noteq> d \<longrightarrow> ig_writers ing' c = ig_writers ing c)"
proof (cases "ig_writers ing d")
  case (Some w)
  obtain w' r where h: "heartbeat P w now ingested = (w', r)" by fastforce
  then show ?thesis using assms Some heartbeat_marks [OF h]
    by (auto simp: heartbeat_step_def)
qed (use assms in \<open>simp add: heartbeat_step_def\<close>)

lemma heartbeat_fold_marks:
  assumes "foldl (heartbeat_step P now ingested) (ing, written) order = (ing', written')"
  shows "\<forall>c \<in> set order. \<forall>w. ig_writers ing' c = Some w \<longrightarrow> cw_last_heartbeat_day w = Some (day_of now)"
  using assms
proof (induction order arbitrary: ing' written' rule: rev_induct)
  case (snoc d order)
  obtain ing1 written1 where f: "foldl (heartbeat_step P now ingested) (ing, written) order = (ing1, written1)"
    by fastforce
  with snoc.prems have step: "heartbeat_step P now ingested (ing1, written1) d = (ing', written')" by simp
  show ?case
    using snoc.IH [OF f] heartbeat_step_marks [OF step] by (metis insert_iff list.simps(15) rotate1.simps(2) set_rotate1)
qed simp

lemma heartbeats_marked:
  assumes "\<forall>c \<in> set order. \<forall>w. ig_writers ing c = Some w \<longrightarrow> cw_last_heartbeat_day w = Some (day_of now)"
  shows "heartbeats P S ing s order now ingested = (ing, s, Inr 0)"
proof -
  have "foldl (heartbeat_step P now ingested) (ing, []) order = (ing, [])"
    using assms
  proof (induction order)
    case (Cons d order)
    have "heartbeat_step P now ingested (ing, []) d = (ing, [])"
      using Cons.prems by (cases "ig_writers ing d") (auto simp: heartbeat_step_def heartbeat_def fun_upd_idem)
    then show ?case using Cons by simp
  qed simp
  then show ?thesis by (simp add: heartbeats_def)
qed

lemma not_synced:
  assumes "store_holds P base rows" "writer_at c (base c @ extra) w" "ig_writers ing c = Some w"
    and "extra \<noteq> []" "length (base c) + length extra < 2 ^ 64 - 1"
  shows "\<not> synced P ing rows"
proof
  assume "synced P ing rows"
  then obtain base' where b: "store_holds P base' rows" "ingester_at base' ing"
    by (auto simp: synced_def)
  have "length (base' c) = length (base c)"
    using assms(1) b(1) unfolding store_holds_def by (metis length_map)
  moreover have "writer_at c (base' c) w" using b(2) assms(3) by (simp add: ingester_at_def)
  ultimately have "(of_nat (length (base c)) + 1 :: u64) = of_nat (length (base c @ extra)) + 1"
    using assms(2) by (simp add: writer_at_def cursor_def)
  then have "unat (of_nat (length (base c)) + 1 :: u64) = unat (of_nat (length (base c @ extra)) + 1 :: u64)"
    by (rule arg_cong)
  moreover have "unat (of_nat (length (base c)) + 1 :: u64) = Suc (length (base c))"
    "unat (of_nat (length (base c @ extra)) + 1 :: u64) = Suc (length (base c @ extra))"
    using assms(5) by (intro unat_next; simp)+
  ultimately show False using assms(4) by simp
qed

text \<open>Every heartbeat written is one of a chain that has a writer.\<close>

definition beats_own :: "ingester \<Rightarrow> audit_event list \<Rightarrow> bool" where
  "beats_own ing written \<longleftrightarrow> (\<forall>c w. ig_writers ing c = Some w \<longrightarrow> cw_chain w = c) \<and>
     (\<forall>ev \<in> set written. chain_of (ae_emitted ev) \<in> dom (ig_writers ing))"

lemma beats_own_step:
  assumes "beats_own ing written" "heartbeat_step P now ingested (ing, written) d = (ing', written')"
  shows "beats_own ing' written' \<and> length written' \<le> Suc (length written)"
proof (cases "ig_writers ing d")
  case (Some w)
  then have d: "cw_chain w = d" using assms(1) by (simp add: beats_own_def)
  show ?thesis
  proof (cases rule: heartbeat_cases [of P w now ingested])
    case (beat ev w')
    have "chain_of (ae_emitted ev) = d" "cw_chain w' = d"
      using d follows_sel(3,8) [OF beat(2)] by (simp_all add: chain_of_def heartbeat_event_def)
    then show ?thesis
      using assms Some beat(1) by (auto simp: heartbeat_step_def beats_own_def split: if_splits)
  qed (use assms Some d in \<open>auto simp: heartbeat_step_def beats_own_def split: if_splits\<close>)
qed (use assms in \<open>auto simp: heartbeat_step_def\<close>)

lemma beats_own_fold:
  assumes "beats_own ing written" "foldl (heartbeat_step P now ingested) (ing, written) order = (ing', written')"
  shows "beats_own ing' written' \<and> length written' \<le> length written + length order"
  using assms(2)
proof (induction order arbitrary: ing' written' rule: rev_induct)
  case (snoc d order)
  obtain ing1 written1 where f: "foldl (heartbeat_step P now ingested) (ing, written) order = (ing1, written1)"
    by fastforce
  with snoc.prems have "heartbeat_step P now ingested (ing1, written1) d = (ing', written')" by simp
  then show ?case using snoc.IH [OF f] beats_own_step by fastforce
qed (use assms(1) in simp)

text \<open>
  A heartbeat the store refuses puts the ingester ahead of the store: when the insertion of
  the day's heartbeats fails, the table is unchanged but the writers stay behind the events that
  were never stored, so the ingester no longer agrees with the store on any history, and the
  same day is marked as done, so that a later tick of that day writes nothing.
  (The comment at the call says the day is left unmarked and nothing is chained that is not
  stored.)
\<close>

theorem refused_heartbeat_desyncs:
  assumes "clickhouse_lawful V" "synced P ing (cv_rows V s)"
    and "heartbeats P (clickhouse_ops V) ing s order now ingested = (ing', s', Err e)"
    and "length (cv_rows V s) + length order < 2 ^ 64 - 1"
  shows "cv_rows V s' = cv_rows V s \<and> \<not> synced P ing' (cv_rows V s') \<and>
    (day_of later = day_of now \<longrightarrow>
       heartbeats P (clickhouse_ops V) ing' s' order later ingested' = (ing', s', Ok 0))"
proof -
  obtain base where b: "store_holds P base (cv_rows V s)" "ingester_at base ing"
    using assms(2) by (auto simp: synced_def)
  obtain written where f: "foldl (heartbeat_step P now ingested) (ing, []) order = (ing', written)"
      and w: "written \<noteq> []" and i: "es_insert (clickhouse_ops V) s written = (s', Inl e)"
    using assms(3) by (auto simp: heartbeats_def split: prod.splits sum.splits if_splits)
  have rows: "cv_rows V s' = cv_rows V s" by (rule click.insert_nothing [OF assms(1) i])
  have beats: "beats_ok P base ing' written"
    using heartbeat_fold_ok [of P base ing "[]" now ingested order] b f
    by (simp add: beats_ok_def store_holds_def ingester_at_def)
  have "beats_own ing []" using b(2) by (simp add: beats_own_def ingester_at_def writer_at_def)
  note own = beats_own_fold [OF this f]
  obtain ev where ev: "ev \<in> set written" using w by (cases written) auto
  let ?c = "chain_of (ae_emitted ev)"
  obtain wr where wr: "ig_writers ing' ?c = Some wr" using own ev by (auto simp: beats_own_def)
  have "\<not> synced P ing' (cv_rows V s)"
  proof (rule not_synced [OF b(1) _ wr])
    show "writer_at ?c (base ?c @ pend_of ?c written) wr" using beats wr by (simp add: beats_ok_def)
    show "pend_of ?c written \<noteq> []" using ev by (auto simp: pend_of_def filter_empty_conv)
    have "length (pend_of ?c written) \<le> length order"
      using own by (auto simp: pend_of_def intro: order_trans [OF length_filter_le])
    then show "length (base ?c) + length (pend_of ?c written) < 2 ^ 64 - 1"
      using store_holds_length [OF b(1), of ?c] assms(4) by linarith
  qed
  then show ?thesis
    using rows heartbeats_marked [of order ing' later P "clickhouse_ops V" s' ingested']
      heartbeat_fold_marks [OF f] by simp
qed

theorem refused_heartbeat_desyncs_witness:
  "let c = \<lparr>cid_tenant_id = ''t'', cid_system_id = ''s''\<rparr>;
       ing = (ingester_new ''n'')\<lparr>ig_writers := [c \<mapsto> writer_new c ''n'']\<rparr>;
       beat = heartbeats chain_prims (clickhouse_ops demo_view) ing ([], [], [True]) [c] 0 0
   in snd (snd beat) = Inl (IngestStore ''refused'') \<and> \<not> synced chain_prims (fst beat) [] \<and>
      snd (snd (heartbeats chain_prims (clickhouse_ops demo_view) (fst beat) (fst (snd beat)) [c]
        3600000000 0)) = Inr 0"
proof -
  let ?c = "\<lparr>cid_tenant_id = ''t'', cid_system_id = ''s''\<rparr>"
  let ?ing = "(ingester_new ''n'')\<lparr>ig_writers := [?c \<mapsto> writer_new ?c ''n'']\<rparr>"
  let ?beat = "heartbeats chain_prims (clickhouse_ops demo_view) ?ing ([], [], [True]) [?c] 0 0"
  obtain ing' where b: "?beat = (ing', ([], [], []), Inl (IngestStore ''refused''))"
  proof -
    have "\<exists>ev w'. heartbeat chain_prims (writer_new ?c ''n'') 0 0 = (w', Some (Inr ev))"
      by (simp add: heartbeat_def writer_new_def writer_append_def chain_event_def seal_def
          demo_event_hash Let_def resume_from_def)
    then show ?thesis
      using that by (auto simp: heartbeats_def heartbeat_step_def ingester_new_def clickhouse_ops_def
          clickhouse_insert_def demo_view_def demo_clickhouse_def demo_op_def store_err_def)
  qed
  have "writer_at ?c [] (writer_new ?c ''n'')"
    by (simp add: writer_at_def writer_new_def cursor_def)
  then have "synced chain_prims ?ing []"
    unfolding synced_def by (intro exI [of _ "\<lambda>_. []"])
      (simp add: store_holds_def ingester_at_def ingester_new_def)
  then have "\<not> synced chain_prims ing' [] \<and>
      heartbeats chain_prims (clickhouse_ops demo_view) ing' ([], [], []) [?c] 3600000000 0 = (ing', ([], [], []), Ok 0)"
    using refused_heartbeat_desyncs [OF demo_lawful _ b, of 3600000000 0] by (simp add: day_of_def)
  then show ?thesis using b by (simp add: Let_def)
qed

text \<open>
  C9. One batch against the abstract store: whatever the store answers, \<open>ingest\<close> either defers,
  and then the table is unchanged and every writer is back behind what is stored, or it has
  appended to the table exactly the events it chained, each chain stays a gapless chain from
  \<open>GENESIS\<close>, every writer is behind its chain's last stored event, and each event of the batch is
  stored under its id; the one other outcome is an event that cannot be encoded, and then
  nothing was stored.
\<close>

theorem ingest_refines_chains:
  assumes "clickhouse_lawful V" "store_holds P base (cv_rows V s)" "ingester_at base ing"
    and "length (cv_rows V s) + length batch < 2 ^ 64 - 1"
    and "ingest P (clickhouse_ops V) (cv_sleep V) ing s batch = (ing', s', res)"
  shows "ingest_effect P base (cv_rows V s) (map fst batch) ing' (cv_rows V s') res"
  by (rule click.ingest_ok [OF assms])

theorem ingest_refines_chains_witness:
  "\<exists>ing' report. ingest chain_prims (clickhouse_ops demo_view) (cv_sleep demo_view) (ingester_new ''n'')
       ([], [], [False, True]) [(demo_emitted 4, 0)] = (ing', ([row_of (demo_event 1 4 GENESIS)], [], []), Inr report) \<and>
     ingest_effect chain_prims (\<lambda>_. []) [] [demo_emitted 4] ing' [row_of (demo_event 1 4 GENESIS)] (Inr report)"
proof -
  have c: "chain_of (demo_emitted g) = \<lparr>cid_tenant_id = ''t'', cid_system_id = ''s''\<rparr>"
    "e_event_id (demo_emitted g) = ucast g" for g
    by (simp_all add: chain_of_def demo_emitted_def)
  obtain ing' report where i: "ingest chain_prims (clickhouse_ops demo_view) (cv_sleep demo_view)
      (ingester_new ''n'') ([], [], [False, True]) [(demo_emitted 4, 0)] =
      (ing', ([row_of (demo_event 1 4 GENESIS)], [], []), Inr report)"
    using that by (simp add: demo_ingest_simps c read_head_def demo_head_def chain_one_def demo_append
        writer_new_def insert_with_retry_def insert_attempts.simps default_retry_def
        clickhouse_insert_def remember_def trim_seen_conv)
  have "ingest_effect chain_prims (\<lambda>_. []) (cv_rows demo_view ([], [], [False, True])) (map fst [(demo_emitted 4, 0 :: timestamp)])
      ing' (cv_rows demo_view ([row_of (demo_event 1 4 GENESIS)], [], [])) (Inr report)"
    by (rule ingest_refines_chains [OF demo_lawful _ _ _ i])
      (simp_all add: store_holds_def ingester_at_def ingester_new_def)
  then show ?thesis using i by auto
qed

lemma insert_attempts_count:
  assumes "insert_attempts S Z p a s batch report l = (s', report', r)" "a \<le> rp_attempts p"
  shows "\<exists>k. ir_retries report' = ir_retries report + of_nat k \<and>
    (case r of Inl _ \<Rightarrow> k = unat (rp_attempts p) - unat a | Inr _ \<Rightarrow> k < unat (rp_attempts p) - unat a)"
  using assms
proof (induction S Z p a s batch report l rule: insert_attempts.induct)
  case (1 S Z p a s batch report l)
  show ?case
  proof (cases "a < rp_attempts p")
    case True
    then have a: "unat (a + 1) = Suc (unat a)" "unat a < unat (rp_attempts p)"
      by (simp_all add: unat_inc word_less_nat_alt)
    obtain s1 r1 where i: "es_insert S s batch = (s1, r1)" by fastforce
    show ?thesis
    proof (cases r1)
      case (Inl e)
      let ?report = "report\<lparr>ir_retries := ir_retries report + 1\<rparr>"
      have "insert_attempts S Z p (a + 1) (Z s1 (delay_for p a)) batch ?report (Some e) = (s', report', r)"
        using 1(2) True i Inl by (subst (asm) insert_attempts.simps) (simp add: Let_def)
      moreover have "a + 1 \<le> rp_attempts p" using a by (simp add: word_le_nat_alt)
      ultimately obtain k where "ir_retries report' = ir_retries ?report + of_nat k"
          "case r of Inl _ \<Rightarrow> k = unat (rp_attempts p) - unat (a + 1) | Inr _ \<Rightarrow> k < unat (rp_attempts p) - unat (a + 1)"
        using 1(1) [OF True i [symmetric, unfolded Inl] refl refl refl] by blast
      then show ?thesis using a by (intro exI [of _ "Suc k"]) (auto split: sum.splits)
    next
      case (Inr u)
      then show ?thesis using 1(2) True i a by (subst (asm) insert_attempts.simps) (auto intro: exI [of _ 0])
    qed
  next
    case False
    then show ?thesis using 1(2,3)
      by (subst (asm) insert_attempts.simps) (auto intro!: exI [of _ 0] simp: word_less_nat_alt)
  qed
qed

text \<open>
  Giving up is bounded: with any store, \<open>insert_with_retry\<close> returns; the failures it counts
  are below the configured attempts when it succeeds and exactly the attempts when it does not,
  and it never sleeps longer than the configured maximum between two of them.
\<close>

theorem retries_bounded:
  "(let (s', report', r) = insert_with_retry S Z ing s batch report;
        attempts = unat (rp_attempts (ig_retry ing))
    in \<exists>k. ir_retries report' = ir_retries report + of_nat k \<and>
         (case r of Inl _ \<Rightarrow> k = attempts | Inr _ \<Rightarrow> k < attempts)) \<and>
   delay_for (ig_retry ing) attempt \<le> rp_max (ig_retry ing)"
proof -
  obtain s' report' r where i: "insert_attempts S Z (ig_retry ing) 0 s batch report None = (s', report', r)"
    by (metis prod_cases3)
  from insert_attempts_count [OF i word_zero_le, unfolded unat_0 minus_nat.diff_0] show ?thesis
    unfolding insert_with_retry_def i delay_for_def by (simp add: Let_def)
qed
end
