(* ===== verification/Report.thy ===== *)
theory Report
  imports Chain Format
begin

text \<open>
  What the verifier prints about a chain: \<open>Display\<close> of \<open>ChainError\<close> and \<open>Violation\<close>
  (\<open>crates/ancre-chain\<close>), \<open>thousands\<close> and \<open>print_report\<close> of \<open>crates/ancre-verify/src/main.rs\<close>. The
  report is the list of the lines written.
\<close>

section \<open>Texts\<close>

fun chain_error_to_string :: "chain_error \<Rightarrow> string" where
  "chain_error_to_string (ChainCanon m) = ''canonical encoding failed: '' @ m"
| "chain_error_to_string (ChainUnknownCanonVersion v) =
     ''unknown canon_version '' @ v @ '': this verifier cannot check that rule set''"
| "chain_error_to_string BadSignature = ''signature verification failed''"
| "chain_error_to_string (BadKey m) = ''malformed key: '' @ m"
| "chain_error_to_string BadInclusionProof = ''inclusion proof does not reconstruct the checkpoint root''"
| "chain_error_to_string (SeqOutOfRange s a b) =
     ''seq '' @ dec_u64 s @ '' is outside the checkpointed range '' @ dec_u64 a @ ''..='' @ dec_u64 b"
| "chain_error_to_string LeavesDoNotMatchCheckpoint = ''the supplied leaves do not match the checkpoint'' @ [CHR 0x27] @ ''s root''"
| "chain_error_to_string EmptyRange = ''cannot seal an empty range''"

fun violation_to_string :: "violation \<Rightarrow> string" where
  "violation_to_string (HashMismatch s stored computed) =
     ''event '' @ dec_u64 s @ '' was altered after it was sealed: it records hash '' @ to_hex stored @
     '' but its contents hash to '' @ to_hex computed"
| "violation_to_string (BrokenLink s expected found) =
     ''event '' @ dec_u64 s @ '' does not follow the one before it: it points back to '' @ to_hex found @
     '', but the previous event hashes to '' @ to_hex expected"
| "violation_to_string (Gap after before) =
     ''events '' @ dec_u64 (after + 1) @ '' to '' @ dec_u64 (before - 1) @ '' are missing from the record''"
| "violation_to_string (Fork s) = ''two different events both claim position '' @ dec_u64 s"
| "violation_to_string (UnknownRuleSet s version) =
     ''event '' @ dec_u64 s @ '' was sealed under rule set '' @ [CHR 0x27] @ version @
     [CHR 0x27] @ '', which this verifier does not implement '' @ em_dash @ '' it cannot be checked either way''"
| "violation_to_string (Unencodable s reason) =
     ''event '' @ dec_u64 s @ '' could not be re-encoded for checking: '' @ chain_error_to_string reason"

section \<open>The report\<close>

text \<open>The loop of \<open>thousands\<close> over the remaining characters of the number.\<close>

fun group_digits :: "bool \<Rightarrow> string \<Rightarrow> string" where
  "group_digits first [] = []"
| "group_digits first (c # s) =
     (if \<not> first \<and> 3 dvd length (c # s) then CHR '' '' # c # group_digits False s
      else c # group_digits False s)"

definition thousands :: "u64 \<Rightarrow> string" where
  "thousands n = group_digits True (dec_u64 n)"

definition report_range :: "chain_report \<Rightarrow> string" where
  "report_range r =
     thousands (cr_events_checked r) @ '' event'' @ (if cr_events_checked r = 1 then '''' else ''s'') @
     '', seq '' @ dec_u64 (cr_seq_from r) @ en_dash @ dec_u64 (cr_seq_to r)"

definition SHOWN :: nat where
  "SHOWN = 50"

definition print_report :: "chain_report \<Rightarrow> bool \<Rightarrow> string list" where
  "print_report r quiet =
     (if cr_events_checked r = 0 then [''No events to check.'']
      else if is_clean r then
        [''Chain verified: '' @ report_range r @ '', no violations.'',
         ''  range root: '' @ to_hex (cr_root_hash r),
         ''  chain head: '' @ to_hex (cr_head_hash r)]
      else
        (if is_inconclusive r then
           [''Cannot verify: '' @ report_range r @ ''. Nothing here indicates tampering '' @ em_dash @
            '' this build does not implement the rule set these events were sealed under.'']
         else
           [''VERIFICATION FAILED: '' @ report_range r @ '', '' @ dec_nat (length (cr_violations r)) @
            '' violation'' @ (if length (cr_violations r) = 1 then '''' else ''s'') @ ''.'']) @
        (if quiet then []
         else map (\<lambda>v. ''  - '' @ violation_to_string v) (take SHOWN (cr_violations r)) @
              (if length (cr_violations r) > SHOWN
               then [''  '' @ ellipsis @ '' and '' @
                     thousands (of_nat (length (cr_violations r) - SHOWN)) @ '' more'']
               else [])))"

section \<open>Lemmas\<close>

text \<open>Grouping inserts spaces and changes nothing else, so a count is read back from it.\<close>

lemma group_digits_filter:
  "CHR '' '' \<notin> set s \<Longrightarrow> filter (\<lambda>c. c \<noteq> CHR '' '') (group_digits b s) = s"
  by (induction b s rule: group_digits.induct) auto

lemma thousands_inj: "thousands m = thousands n \<Longrightarrow> m = n"
proof -
  have digits: "CHR '' '' \<notin> set (dec_u64 k)" for k
    using digits_dec_nat [of "CHR '' ''" "unat k"] by (auto simp: dec_u64_def)
  assume "thousands m = thousands n"
  then have "filter (\<lambda>c. c \<noteq> CHR '' '') (thousands m) = filter (\<lambda>c. c \<noteq> CHR '' '') (thousands n)"
    by simp
  then have "dec_u64 m = dec_u64 n" by (simp add: thousands_def group_digits_filter digits)
  then show ?thesis using dec_nat_inj by (simp add: dec_u64_def word_unat_eq_iff)
qed

end
