(* ===== verification/Pack.thy ===== *)
theory Pack
  imports Report Checkpoint
begin

text \<open>
  \<open>crates/ancre-verify/src/pack.rs\<close> and the verdicts of \<open>main.rs\<close>: evidence packs, what their
  signatures attest, and the exit code.

  Reading files and JSON (\<open>serde_json\<close>) are arguments: what a path reads as, what a text parses
  as. A \<open>BTreeMap\<close> is a map; a byte key of 32 bytes is the list of its bytes.
\<close>

section \<open>Data\<close>

definition PACK_VERSION :: string where
  "PACK_VERSION = ''ancre-pack/1''"

record manifest =
  mf_pack_version :: string
  mf_tenant_id :: string
  mf_system_id :: string
  mf_created_at :: string
  mf_produced_by :: string
  mf_source :: string
  mf_seq_from :: "u64 option"
  mf_seq_to :: "u64 option"
  mf_prev_hash :: "string option"

record public_key_record =
  pk_key_id :: string
  pk_public_key :: string
  pk_valid_from :: timestamp
  pk_valid_to :: "timestamp option"

record pack =
  pa_manifest :: manifest
  pa_events :: "audit_event list"
  pa_checkpoints :: "checkpoint list"
  pa_keys :: "public_key_record list"

datatype attestation = Verified string | NotCoveredByPack | AttestationViolation string

record checkpoint_verdict =
  vd_seq_from :: u64
  vd_seq_to :: u64
  vd_root_hash :: hash32
  vd_attestation :: attestation

definition is_violation :: "checkpoint_verdict \<Rightarrow> bool" where
  "is_violation v \<longleftrightarrow> (case vd_attestation v of AttestationViolation _ \<Rightarrow> True | _ \<Rightarrow> False)"

type_synonym trust = "string \<rightharpoonup> u8 list"

section \<open>Reading\<close>

definition read_events ::
    "string \<Rightarrow> (string, string) result \<Rightarrow> (string \<Rightarrow> (audit_event, string) result) \<Rightarrow>
      (audit_event list, string) result" where
  "read_events path text_read parse =
     and_then (map_err (\<lambda>e. ''cannot read '' @ path @ '': '' @ e) text_read) (\<lambda>t.
       try_map (\<lambda>(i, l). map_err (\<lambda>e. path @ '', line '' @ dec_nat (i + 1) @ '': '' @ e) (parse l))
         (filter (\<lambda>(i, l). trim l \<noteq> []) (enumerate 0 (lines t))))"

text \<open>\<open>read_json\<close>, for the value a file's bytes parse as.\<close>

definition read_json ::
    "string \<Rightarrow> ('b, string) result \<Rightarrow> ('b \<Rightarrow> ('t, string) result) \<Rightarrow> ('t, string) result" where
  "read_json path bytes_read parse =
     and_then (map_err (\<lambda>e. ''cannot read '' @ path @ '': '' @ e) bytes_read) (\<lambda>b.
       map_err (\<lambda>e. path @ '' is not readable as JSON: '' @ e) (parse b))"

text \<open>The four files of a pack, as read.\<close>

definition pack_read ::
    "(manifest, string) result \<Rightarrow> (audit_event list, string) result \<Rightarrow>
      (checkpoint list, string) result \<Rightarrow> (public_key_record list, string) result \<Rightarrow>
      (pack, string) result" where
  "pack_read manifest_file events_file checkpoints_file keys_file =
     and_then manifest_file (\<lambda>manifest.
       if mf_pack_version manifest \<noteq> PACK_VERSION
       then Err (''this pack is '' @ mf_pack_version manifest @ '' and this build implements '' @
              PACK_VERSION @ ''. Nothing here indicates tampering '' @ em_dash @
              '' it means you need a verifier that speaks the newer format'')
       else
         and_then events_file (\<lambda>events.
         and_then checkpoints_file (\<lambda>checkpoints.
         and_then keys_file (\<lambda>keys.
           Ok \<lparr>pa_manifest = manifest, pa_events = events, pa_checkpoints = checkpoints,
               pa_keys = keys\<rparr>))))"

section \<open>Keys\<close>

definition hex_digit :: "char \<Rightarrow> u8 option" where
  "hex_digit c =
     (let n = (of_char c :: nat) in
      if 48 \<le> n \<and> n \<le> 57 then Some (word_of_nat (n - 48))
      else if 97 \<le> n \<and> n \<le> 102 then Some (word_of_nat (n - 87))
      else if 65 \<le> n \<and> n \<le> 70 then Some (word_of_nat (n - 55))
      else None)"

text \<open>
  \<open>u8::from_str_radix(s, 16)\<close> on two characters: a leading plus sign is accepted.
\<close>

definition from_str_radix16 :: "string \<Rightarrow> u8 option" where
  "from_str_radix16 s =
     (case s of
        [a, b] \<Rightarrow>
          if a = CHR ''+'' then hex_digit b
          else (case (hex_digit a, hex_digit b) of
                  (Some x, Some y) \<Rightarrow> Some (16 * x + y)
                | _ \<Rightarrow> None)
      | _ \<Rightarrow> None)"

text \<open>The loop of \<open>decode_key\<close> over the pairs.\<close>

fun decode_pairs :: "string \<Rightarrow> u8 list option" where
  "decode_pairs (a # b # s) =
     (case from_str_radix16 [a, b] of
        None \<Rightarrow> None
      | Some x \<Rightarrow> (case decode_pairs s of None \<Rightarrow> None | Some xs \<Rightarrow> Some (x # xs)))"
| "decode_pairs _ = Some []"

definition decode_key :: "string \<Rightarrow> u8 list option" where
  "decode_key hex =
     (let hex = trim hex in if length hex \<noteq> 64 then None else decode_pairs hex)"

definition parse_trusted_key :: "string \<Rightarrow> (string \<times> u8 list, string) result" where
  "parse_trusted_key arg =
     (let (key_id, hex) = (case split_once (CHR ''='') arg of None \<Rightarrow> ('''', arg) | Some p \<Rightarrow> p) in
      and_then (ok_or (''--key: '' @ hex @ '' is not 64 hex characters'') (decode_key hex)) (\<lambda>bytes.
        Ok (key_id, bytes)))"

definition add_pack_key :: "trust \<times> string list \<Rightarrow> public_key_record \<Rightarrow> trust \<times> string list" where
  "add_pack_key acc k =
     (case acc of (trusted, skipped) \<Rightarrow>
        case decode_key (pk_public_key k) of
          Some bytes \<Rightarrow> (trusted(pk_key_id k \<mapsto> bytes), skipped)
        | None \<Rightarrow> (trusted, skipped @
            [''key '' @ pk_key_id k @ '' is not 32 hex-encoded bytes and was ignored'']))"

definition keys_from_pack :: "pack \<Rightarrow> trust \<times> string list" where
  "keys_from_pack p = foldl add_pack_key (Map.empty, []) (pa_keys p)"

section \<open>Attestation\<close>

text \<open>\<open>&h.to_hex()[..16]\<close>.\<close>

definition short :: "hash32 \<Rightarrow> string" where
  "short h = take 16 (to_hex h)"

text \<open>Collecting pairs into a \<open>BTreeMap\<close>: the last pair of a key stays.\<close>

definition leaves_by_seq :: "canon_prims \<Rightarrow> audit_event list \<Rightarrow> u64 \<rightharpoonup> hash32" where
  "leaves_by_seq P events =
     foldl (\<lambda>m e. case event_hash P e of Inl _ \<Rightarrow> m | Inr h \<Rightarrow> m(ae_seq e \<mapsto> h)) Map.empty events"

text \<open>The range \<open>from..=to\<close>.\<close>

definition seq_range :: "u64 \<Rightarrow> u64 \<Rightarrow> u64 list" where
  "seq_range a b = map of_nat [unat a..<Suc (unat b)]"

fun collect_some :: "'a option list \<Rightarrow> 'a list option" where
  "collect_some [] = Some []"
| "collect_some (x # xs) =
     (case x of None \<Rightarrow> None
      | Some y \<Rightarrow> (case collect_some xs of None \<Rightarrow> None | Some ys \<Rightarrow> Some (y # ys)))"

definition range_leaves :: "(u64 \<rightharpoonup> hash32) \<Rightarrow> checkpoint_body \<Rightarrow> hash32 list" where
  "range_leaves by_seq b =
     (case collect_some (map by_seq (seq_range (cb_seq_from b) (cb_seq_to b))) of
        None \<Rightarrow> [] | Some ls \<Rightarrow> ls)"

definition attest_one ::
    "canon_prims \<Rightarrow> ed25519 \<Rightarrow> checkpoint \<Rightarrow> (u64 \<rightharpoonup> hash32) \<Rightarrow> trust \<Rightarrow> attestation" where
  "attest_one P E cp by_seq trusted =
     (let b = cp_body cp;
          range = dec_u64 (cb_seq_from b) @ en_dash @ dec_u64 (cb_seq_to b)
      in case (case trusted (cp_key_id cp) of Some k \<Rightarrow> Some k | None \<Rightarrow> trusted '''') of
           None \<Rightarrow> AttestationViolation
             (''checkpoint over seq '' @ range @ '' is signed by key '' @ cp_key_id cp @
              '', which is not in the key set being trusted. It cannot be attributed to anyone'')
         | Some key \<Rightarrow>
             (case verify_checkpoint P E cp key of
                Inl e \<Rightarrow> AttestationViolation
                  (''the signature on the checkpoint over seq '' @ range @
                   '' does not verify against key '' @ cp_key_id cp @ '': '' @ chain_error_to_string e)
              | Inr _ \<Rightarrow>
                  let leaves = range_leaves by_seq b in
                  if length leaves \<noteq> tree_size b then NotCoveredByPack
                  else if tree_root (digest P) leaves \<noteq> cb_root_hash b
                  then AttestationViolation
                    (''the events for seq '' @ range @
                     '' do not produce the root this checkpoint signed: it attests '' @
                     short (cb_root_hash b) @ '' but these events hash to '' @
                     short (tree_root (digest P) leaves))
                  else Verified (cp_key_id cp)))"

definition attest :: "canon_prims \<Rightarrow> ed25519 \<Rightarrow> pack \<Rightarrow> trust \<Rightarrow> checkpoint_verdict list" where
  "attest P E p trusted =
     (let by_seq = leaves_by_seq P (pa_events p) in
      map (\<lambda>cp. \<lparr>vd_seq_from = cb_seq_from (cp_body cp), vd_seq_to = cb_seq_to (cp_body cp),
                 vd_root_hash = cb_root_hash (cp_body cp),
                 vd_attestation = attest_one P E cp by_seq trusted\<rparr>) (pa_checkpoints p))"

text \<open>Pairs are ordered lexicographically; \<open>runs.last_mut()\<close> is the last run.\<close>

definition pair_le :: "u64 \<times> u64 \<Rightarrow> u64 \<times> u64 \<Rightarrow> bool" where
  "pair_le a b \<longleftrightarrow> fst a < fst b \<or> fst a = fst b \<and> snd a \<le> snd b"

definition saturating_inc :: "u64 \<Rightarrow> u64" where
  "saturating_inc a = (if a = - 1 then - 1 else a + 1)"

definition merge_run :: "(u64 \<times> u64) list \<Rightarrow> u64 \<times> u64 \<Rightarrow> (u64 \<times> u64) list" where
  "merge_run runs r =
     (if runs \<noteq> [] \<and> fst r \<le> saturating_inc (snd (last runs))
      then butlast runs @ [(fst (last runs), max (snd (last runs)) (snd r))]
      else runs @ [r])"

definition is_verified :: "checkpoint_verdict \<Rightarrow> bool" where
  "is_verified v \<longleftrightarrow> (case vd_attestation v of Verified _ \<Rightarrow> True | _ \<Rightarrow> False)"

definition attested_runs :: "checkpoint_verdict list \<Rightarrow> (u64 \<times> u64) list" where
  "attested_runs verdicts =
     foldl merge_run []
       (sort_by pair_le (map (\<lambda>v. (vd_seq_from v, vd_seq_to v)) (filter is_verified verdicts)))"

section \<open>What is printed\<close>

text \<open>
  \<open>to_rfc3339\<close>: the \<open>time\<close> crate's formatting of seconds and microseconds is an argument, \<open>None\<close>
  outside its range.
\<close>

definition to_rfc3339 :: "(int \<Rightarrow> int \<Rightarrow> string option) \<Rightarrow> timestamp \<Rightarrow> string" where
  "to_rfc3339 fmt t =
     (case fmt (t div 1000000) (t mod 1000000) of
        Some s \<Rightarrow> s
      | None \<Rightarrow> dec_int (t))"

definition print_pack_header :: "manifest \<Rightarrow> chain_report \<Rightarrow> bool \<Rightarrow> string list" where
  "print_pack_header m report anchored_from_manifest =
     [''Pack: '' @ mf_tenant_id m @ ''/'' @ mf_system_id m] @
     (if mf_created_at m \<noteq> [] then
        [''  produced '' @ mf_created_at m @ '' by '' @
         (if mf_produced_by m = [] then ''an unnamed build'' else mf_produced_by m)] else []) @
     (if mf_source m \<noteq> [] then [''  source: '' @ mf_source m] else []) @
     (if anchored_from_manifest then
        [''  anchored at the prev_hash this pack declares, which nothing has signed. '' @
         ''Pass --from <HASH> to anchor it independently''] else []) @
     (if cr_events_checked report > 0 then
        (case (mf_seq_from m, mf_seq_to m) of
           (Some f, Some t) \<Rightarrow>
             if f \<noteq> cr_seq_from report \<or> t \<noteq> cr_seq_to report then
               [''  ! the manifest declares seq '' @ dec_u64 f @ en_dash @ dec_u64 t @
                '', and this pack contains seq '' @ dec_u64 (cr_seq_from report) @ en_dash @
                dec_u64 (cr_seq_to report) @ ''. The manifest is not signed, so treat '' @
                ''the events as authoritative and ask why they differ''] else []
         | _ \<Rightarrow> []) else []) @
     ['''']"

definition verdict_line :: "checkpoint_verdict \<Rightarrow> string" where
  "verdict_line v =
     (let range = dec_u64 (vd_seq_from v) @ en_dash @ dec_u64 (vd_seq_to v) in
      case vd_attestation v of
        Verified key_id \<Rightarrow>
          ''  seq '' @ range @ ''  root '' @ short (vd_root_hash v) @ ''  signed by '' @ key_id
      | NotCoveredByPack \<Rightarrow>
          ''  seq '' @ range @ ''  signed, but this pack does not contain that whole range '' @
          em_dash @ '' nothing to check the root against''
      | AttestationViolation msg \<Rightarrow> ''  - '' @ msg)"

fun join_with :: "string \<Rightarrow> string list \<Rightarrow> string" where
  "join_with sep [] = []"
| "join_with sep [x] = x"
| "join_with sep (x # xs) = x @ sep @ join_with sep xs"

definition key_line :: "(timestamp \<Rightarrow> string) \<Rightarrow> public_key_record \<Rightarrow> string" where
  "key_line rfc3339 k =
     ''  '' @ pk_key_id k @ ''  '' @ pk_public_key k @ ''  ('' @
     (case pk_valid_to k of
        None \<Rightarrow> ''active since '' @ rfc3339 (pk_valid_from k)
      | Some t \<Rightarrow> ''valid '' @ rfc3339 (pk_valid_from k) @ '' to '' @ rfc3339 t) @ '')''"

definition attested_line :: "checkpoint_verdict list \<Rightarrow> string" where
  "attested_line verdicts =
     (let runs = attested_runs verdicts in
      if runs = [] then ''Attested range: none.''
      else ''Attested range: seq '' @
        join_with '', '' (map (\<lambda>(a, b). dec_u64 a @ en_dash @ dec_u64 b) runs) @ ''.'')"

definition print_attestation ::
    "(timestamp \<Rightarrow> string) \<Rightarrow> pack \<Rightarrow> checkpoint_verdict list \<Rightarrow> nat \<Rightarrow> bool \<Rightarrow> string list \<Rightarrow>
      string list" where
  "print_attestation rfc3339 p verdicts trusted_len pinned skipped =
     map (\<lambda>s. ''  ! '' @ s) skipped @
     (if verdicts = [] then
        [''NOT ATTESTED: this pack contains no signed checkpoints. The events '' @
         ''are internally consistent and nothing has vouched for them '' @ em_dash @ '' which '' @
         ''is the expected state for a chain younger than one checkpoint '' @
         ''interval, and a finding for one that is not.'']
      else
        (let verified = length (filter is_verified verdicts);
             violations = filter is_violation verdicts in
         [if violations = [] then
            ''Checkpoints: '' @ dec_nat verified @ '' of '' @ dec_nat (length verdicts) @ '' verified.''
          else ''CHECKPOINT VERIFICATION FAILED: '' @ dec_nat (length violations) @ '' of '' @
            dec_nat (length verdicts) @ '' did not verify.''] @
         map verdict_line verdicts @
         [attested_line verdicts, ''''] @
         (if pinned then
            [''Signatures were checked against the '' @ dec_nat trusted_len @ '' key'' @
             (if trusted_len = 1 then '''' else ''s'') @
             '' you pinned on the command line, not against the keys in this pack.'']
          else
            (''Signatures were checked against this pack'' @ [CHR 0x27] @
             ''s own keys. That proves the pack is internally consistent and says nothing about '' @
             ''who made it '' @ em_dash @ '' compare these fingerprints with the ones you were '' @
             ''given separately, or re-run with --key <HEX>:'') #
            map (key_line rfc3339) (pa_keys p))))"

section \<open>The command\<close>

definition EXIT_CLEAN :: u8 where "EXIT_CLEAN = 0"
definition EXIT_VIOLATIONS :: u8 where "EXIT_VIOLATIONS = 1"
definition EXIT_CANNOT_VERIFY :: u8 where "EXIT_CANNOT_VERIFY = 2"

datatype target = TargetChain string | TargetPack string

record args =
  ar_target :: target
  ar_from :: hash32
  ar_quiet :: bool
  ar_trusted :: trust

record arg_vars =
  av_chain :: "string option"
  av_pack :: "string option"
  av_from :: hash32
  av_quiet :: bool
  av_trusted :: trust

text \<open>The loop over the arguments: \<open>None\<close> is \<open>--help\<close>.\<close>

fun parse_loop :: "arg_vars \<Rightarrow> string list \<Rightarrow> (arg_vars option, string) result" where
  "parse_loop v [] = Ok (Some v)"
| "parse_loop v (arg # it) =
     (if arg = ''--help'' \<or> arg = ''-h'' then Ok None
      else if arg = ''--quiet'' \<or> arg = ''-q'' then parse_loop (v\<lparr>av_quiet := True\<rparr>) it
      else if arg = ''--chain'' then
        (case it of [] \<Rightarrow> Err ''--chain needs a file path (or - for stdin)''
         | c # it \<Rightarrow> parse_loop (v\<lparr>av_chain := Some c\<rparr>) it)
      else if arg = ''--pack'' then
        (case it of [] \<Rightarrow> Err ''--pack needs a directory''
         | d # it \<Rightarrow> parse_loop (v\<lparr>av_pack := Some d\<rparr>) it)
      else if arg = ''--key'' then
        (case it of [] \<Rightarrow> Err ''--key needs a 64-character hex key''
         | k # it \<Rightarrow> and_then (parse_trusted_key k) (\<lambda>(i, bytes).
             parse_loop (v\<lparr>av_trusted := (av_trusted v)(i \<mapsto> bytes)\<rparr>) it))
      else if arg = ''--from'' then
        (case it of [] \<Rightarrow> Err ''--from needs a 64-character hex hash''
         | h # it \<Rightarrow> and_then (map_err (\<lambda>_. ''--from: '' @ h @ '' is not 64 hex characters'') (from_hex h))
             (\<lambda>f. parse_loop (v\<lparr>av_from := f\<rparr>) it))
      else Err (''unknown argument: '' @ arg))"

definition parse_args :: "string list \<Rightarrow> (args option, string) result" where
  "parse_args it =
     and_then (parse_loop \<lparr>av_chain = None, av_pack = None, av_from = GENESIS, av_quiet = False,
                 av_trusted = Map.empty\<rparr> it) (\<lambda>vars.
       case vars of None \<Rightarrow> Ok None
       | Some v \<Rightarrow>
           (case (av_chain v, av_pack v) of
              (Some _, Some _) \<Rightarrow>
                Err ''--chain and --pack are alternatives: a pack already contains a chain''
            | (None, None) \<Rightarrow> Err ''nothing to verify: pass --chain <FILE.jsonl> or --pack <DIR>''
            | (Some c, None) \<Rightarrow> Ok (Some \<lparr>ar_target = TargetChain c, ar_from = av_from v,
                 ar_quiet = av_quiet v, ar_trusted = av_trusted v\<rparr>)
            | (None, Some d) \<Rightarrow> Ok (Some \<lparr>ar_target = TargetPack d, ar_from = av_from v,
                 ar_quiet = av_quiet v, ar_trusted = av_trusted v\<rparr>)))"

definition pack_anchor :: "args \<Rightarrow> pack \<Rightarrow> (hash32, string) result" where
  "pack_anchor args p =
     (case mf_prev_hash (pa_manifest p) of
        None \<Rightarrow> Ok (ar_from args)
      | Some s \<Rightarrow>
          (case from_hex s of
             Inl _ \<Rightarrow> Err (''the manifest'' @ [CHR 0x27] @ ''s prev_hash is not 64 hex characters'')
           | Inr h \<Rightarrow> Ok (if ar_from args = GENESIS then h else ar_from args)))"

text \<open>
  \<open>run_pack\<close> after the pack was read, and without what it prints: the report, the verdicts and
  the exit code. Writing to standard output is assumed to succeed.
\<close>

definition run_pack ::
    "canon_prims \<Rightarrow> ed25519 \<Rightarrow> args \<Rightarrow> pack \<Rightarrow>
      (chain_report \<times> checkpoint_verdict list \<times> u8, string) result" where
  "run_pack P E args p =
     (let (pack_keys, skipped) = keys_from_pack p;
          pinned = (ar_trusted args \<noteq> Map.empty);
          trusted = (if pinned then ar_trusted args else pack_keys)
      in and_then (pack_anchor args p) (\<lambda>from.
           let report = verify_range P (pa_events p) from;
               verdicts = attest P E p trusted;
               signature_violations = list_ex is_violation verdicts
           in Ok (report, verdicts,
                if is_inconclusive report then EXIT_CANNOT_VERIFY
                else if \<not> is_clean report \<or> signature_violations then EXIT_VIOLATIONS
                else EXIT_CLEAN)))"

text \<open>The events of a chain file: a line that does not parse ends the reading.\<close>

fun parse_chain :: "(string \<Rightarrow> (audit_event, string) result) \<Rightarrow> nat \<Rightarrow> (string, string) result list \<Rightarrow>
    (audit_event list, string) result" where
  "parse_chain parse i [] = Ok []"
| "parse_chain parse i (line # ls) =
     (case line of
        Inl e \<Rightarrow> Err (''line '' @ dec_nat (i + 1) @ '': '' @ e)
      | Inr l \<Rightarrow>
          if trim l = [] then parse_chain parse (i + 1) ls
          else (case parse l of
                  Inl e \<Rightarrow> Err (''line '' @ dec_nat (i + 1) @ '': '' @ e)
                | Inr ev \<Rightarrow> and_then (parse_chain parse (i + 1) ls) (\<lambda>evs. Ok (ev # evs))))"

definition run_chain ::
    "canon_prims \<Rightarrow> args \<Rightarrow> string \<Rightarrow> (string \<Rightarrow> (audit_event, string) result) \<Rightarrow>
      ((string, string) result list, string) result \<Rightarrow> (string list \<times> u8, string) result" where
  "run_chain P args chain parse opened =
     and_then (map_err (\<lambda>e. ''cannot read '' @ chain @ '': '' @ e) opened) (\<lambda>ls.
     and_then (map_err (\<lambda>e. chain @ '' is not a readable event stream '' @ em_dash @ '' '' @ e)
                (parse_chain parse 0 ls)) (\<lambda>events.
       let report = verify_range P events (ar_from args) in
       Ok (print_report report (ar_quiet args),
           if is_clean report then EXIT_CLEAN
           else if is_inconclusive report then EXIT_CANNOT_VERIFY
           else EXIT_VIOLATIONS)))"

text \<open>\<open>main\<close>: an error is printed and exits with \<open>EXIT_CANNOT_VERIFY\<close>.\<close>

definition exit_code :: "('a \<times> u8, string) result \<Rightarrow> u8" where
  "exit_code r = (case r of Inl _ \<Rightarrow> EXIT_CANNOT_VERIFY | Inr (_, code) \<Rightarrow> code)"

section \<open>Attested runs\<close>

definition within :: "u64 \<Rightarrow> (u64 \<times> u64) list \<Rightarrow> bool" where
  "within s rs \<longleftrightarrow> (\<exists>r \<in> set rs. fst r \<le> s \<and> s \<le> snd r)"

definition separated :: "(u64 \<times> u64) list \<Rightarrow> bool" where
  "separated rs \<longleftrightarrow> sorted_wrt (\<lambda>x y. unat (snd x) + 1 < unat (fst y)) rs \<and>
     list_all (\<lambda>r. fst r \<le> snd r) rs"

lemma within_simps [simp]:
  "\<not> within s []" "within s (r # rs) \<longleftrightarrow> fst r \<le> s \<and> s \<le> snd r \<or> within s rs"
  "within s (xs @ ys) \<longleftrightarrow> within s xs \<or> within s ys"
  by (auto simp: within_def)

lemma unat_saturating_inc: "unat (saturating_inc a) = min (unat a + 1) (2 ^ 64 - 1)"
proof (cases "a = - 1")
  case False
  then have "a < - 1" using word_n1_ge [of a] by (simp add: order_less_le)
  from unat_inc [OF this] show ?thesis
    using False unat_less64 [of "saturating_inc a"] by (simp add: saturating_inc_def)
qed (simp add: saturating_inc_def unsigned_minus_1_eq_mask mask_eq_exp_minus_1)

lemma merge_last:
  fixes a b c d s :: u64
  assumes "a \<le> b" "a \<le> c" "c \<le> d" "c \<le> saturating_inc b"
  shows "a \<le> s \<and> s \<le> max b d \<longleftrightarrow> a \<le> s \<and> s \<le> b \<or> c \<le> s \<and> s \<le> d"
  using assms unat_less64 [of c] unat_less64 [of b]
  unfolding word_le_nat_alt max_def unat_saturating_inc by (auto simp: min_def split: if_splits)

lemma merge_run_ok:
  assumes "separated runs" "fst r \<le> snd r" "runs \<noteq> [] \<Longrightarrow> fst (last runs) \<le> fst r"
  shows "separated (merge_run runs r) \<and> (within s (merge_run runs r) \<longleftrightarrow> within s (runs @ [r])) \<and>
    merge_run runs r \<noteq> [] \<and> fst (last (merge_run runs r)) \<le> fst r"
proof (cases "runs = []")
  case True
  then show ?thesis using assms(2) by (simp add: merge_run_def separated_def)
next
  case False
  then obtain xs a b where runs: "runs = xs @ [(a, b)]" by (metis prod.collapse rev_exhaust)
  obtain c d where r: "r = (c, d)" by fastforce
  have ab: "a \<le> b" "a \<le> c" "c \<le> d" and xs: "separated xs" and
    before: "\<forall>x \<in> set xs. unat (snd x) + 1 < unat a"
    using assms runs r by (auto simp: separated_def sorted_wrt_append list_all_append)
  show ?thesis
  proof (cases "c \<le> saturating_inc b")
    case True
    have "a \<le> max b d" using ab(1) by (simp add: le_max_iff_disj)
    then show ?thesis
      using True runs r xs before ab(2) \<open>a \<le> max b d\<close> merge_last [OF ab True]
      by (auto simp add: merge_run_def separated_def sorted_wrt_append)
  next
    case far: False
    then have "unat b + 1 < unat c"
      using unat_less64 [of c] by (simp add: word_le_nat_alt unat_saturating_inc min_def split: if_splits)
    moreover have "\<forall>x \<in> set xs. unat (snd x) + 1 < unat c"
      using before ab(2) by (auto simp: word_le_nat_alt)
    ultimately show ?thesis
      using far runs r ab xs before by (auto simp: merge_run_def separated_def sorted_wrt_append)
  qed
qed

lemma merge_all_ok:
  assumes "separated runs" "sorted_wrt pair_le rs" "list_all (\<lambda>r. fst r \<le> snd r) rs"
    and "runs \<noteq> [] \<Longrightarrow> rs \<noteq> [] \<Longrightarrow> fst (last runs) \<le> fst (hd rs)"
  shows "separated (foldl merge_run runs rs) \<and>
    (within s (foldl merge_run runs rs) \<longleftrightarrow> within s (runs @ rs))"
  using assms
proof (induction rs arbitrary: runs)
  case (Cons r rs)
  have one: "separated (merge_run runs r)" "within s (merge_run runs r) \<longleftrightarrow> within s (runs @ [r])"
    "fst (last (merge_run runs r)) \<le> fst r"
    using merge_run_ok [of runs r s] Cons.prems by auto
  have "rs \<noteq> [] \<Longrightarrow> fst r \<le> fst (hd rs)" using Cons.prems(2) by (cases rs) (auto simp: pair_le_def)
  then show ?case using Cons.IH [OF one(1)] Cons.prems one(2,3) by (auto intro: order_trans)
qed simp

interpretation pair_le: total_preorder pair_le
  by unfold_locales (auto simp: pair_le_def)

section \<open>Coverage\<close>

lemma collect_some_eq: "collect_some xs = Some ys \<longleftrightarrow> xs = map Some ys"
proof (induction xs arbitrary: ys)
  case (Cons x xs)
  then show ?case by (cases ys; cases x; cases "collect_some xs") auto
qed auto

lemma tree_size_pos: "length (range_leaves m b) = tree_size b \<Longrightarrow> cb_seq_from b \<le> cb_seq_to b"
proof (rule ccontr)
  assume len: "length (range_leaves m b) = tree_size b" and "\<not> cb_seq_from b \<le> cb_seq_to b"
  then have less: "cb_seq_to b < cb_seq_from b" by simp
  then have "seq_range (cb_seq_from b) (cb_seq_to b) = []"
    by (simp add: seq_range_def word_less_nat_alt)
  then have "length (range_leaves m b) = 0" by (simp add: range_leaves_def)
  moreover have "tree_size b = 1" using less by (auto simp: tree_size_def saturating_sub_def)
  ultimately show False using len by simp
qed

lemma attest_one_Verified:
  assumes "attest_one P E cp by_seq trusted = Verified k"
  shows "k = cp_key_id cp \<and>
    (\<exists>key. (trusted (cp_key_id cp) = Some key \<or> trusted '''' = Some key) \<and> verify_checkpoint P E cp key = Inr ()) \<and>
    length (range_leaves by_seq (cp_body cp)) = tree_size (cp_body cp) \<and>
    tree_root (digest P) (range_leaves by_seq (cp_body cp)) = cb_root_hash (cp_body cp)"
  using assms by (auto simp: attest_one_def Let_def split: option.splits sum.splits if_splits)

lemma leaves_by_seq_in:
  "leaves_by_seq P events s = Some h \<Longrightarrow> \<exists>e \<in> set events. ae_seq e = s \<and> event_hash P e = Inr h"
  unfolding leaves_by_seq_def
proof (induction events rule: rev_induct)
  case (snoc e es)
  then show ?case by (auto split: sum.splits if_splits)
qed simp

lemma range_leaves_nth:
  assumes "i < length (range_leaves m b)"
  shows "m (cb_seq_from b + of_nat i) = Some (range_leaves m b ! i)"
proof -
  obtain ls where ls: "collect_some (map m (seq_range (cb_seq_from b) (cb_seq_to b))) = Some ls"
    using assms by (cases "collect_some (map m (seq_range (cb_seq_from b) (cb_seq_to b)))")
      (auto simp: range_leaves_def)
  then have eq: "map m (seq_range (cb_seq_from b) (cb_seq_to b)) = map Some ls"
    by (simp add: collect_some_eq)
  have i: "i < length ls" "range_leaves m b = ls" using assms ls by (simp_all add: range_leaves_def)
  then have "map m (seq_range (cb_seq_from b) (cb_seq_to b)) ! i = Some (ls ! i)" unfolding eq by simp
  moreover have "length ls = Suc (unat (cb_seq_to b)) - unat (cb_seq_from b)"
    using arg_cong [OF eq, of length] by (simp add: seq_range_def del: upt_Suc)
  then have "i < Suc (unat (cb_seq_to b)) - unat (cb_seq_from b)" using i(1) by simp
  ultimately show ?thesis using i by (simp add: seq_range_def del: upt_Suc)
qed

lemma attested_verdict:
  assumes "v \<in> set (attest P E p trusted)" "is_verified v"
  shows "\<exists>cp \<in> set (pa_checkpoints p). vd_seq_from v = cb_seq_from (cp_body cp) \<and>
      vd_seq_to v = cb_seq_to (cp_body cp) \<and>
      attest_one P E cp (leaves_by_seq P (pa_events p)) trusted = Verified (cp_key_id cp)"
proof -
  obtain cp where cp: "cp \<in> set (pa_checkpoints p)" "vd_seq_from v = cb_seq_from (cp_body cp)"
      "vd_seq_to v = cb_seq_to (cp_body cp)"
      "vd_attestation v = attest_one P E cp (leaves_by_seq P (pa_events p)) trusted"
    using assms(1) by (auto simp: attest_def Let_def)
  obtain k where k: "vd_attestation v = Verified k"
    using assms(2) by (auto simp: is_verified_def split: attestation.splits)
  with cp(4) have "attest_one P E cp (leaves_by_seq P (pa_events p)) trusted = Verified k" by simp
  with attest_one_Verified [OF this] cp show ?thesis by auto
qed

lemma verified_bounds:
  assumes "v \<in> set (attest P E p trusted)" "is_verified v"
  shows "vd_seq_from v \<le> vd_seq_to v"
proof -
  obtain cp where cp: "vd_seq_from v = cb_seq_from (cp_body cp)" "vd_seq_to v = cb_seq_to (cp_body cp)"
      "attest_one P E cp (leaves_by_seq P (pa_events p)) trusted = Verified (cp_key_id cp)"
    using attested_verdict [OF assms] by blast
  have "length (range_leaves (leaves_by_seq P (pa_events p)) (cp_body cp)) = tree_size (cp_body cp)"
    using attest_one_Verified [OF cp(3)] by simp
  from tree_size_pos [OF this] show ?thesis using cp by simp
qed

lemma range_leaves_reaches:
  assumes "length (range_leaves m b) = tree_size b" "tree_size b \<noteq> 0"
    and "cb_seq_from b \<le> s" "s \<le> cb_seq_to b"
  shows "m s = Some (range_leaves m b ! unat (s - cb_seq_from b))"
proof -
  let ?d = "cb_seq_to b - cb_seq_from b"
  have le: "cb_seq_from b \<le> cb_seq_to b" using assms(3,4) by (rule order_trans)
  then have "saturating_sub (cb_seq_to b) (cb_seq_from b) = ?d"
    by (simp add: saturating_sub_def)
  then have size_eq: "tree_size b = unat (?d + 1)" by (simp add: tree_size_def)
  with assms(2) have "?d + 1 \<noteq> 0" by auto
  then have "tree_size b = Suc (unat ?d)" using size_eq by (metis unatSuc add.commute)
  moreover have "unat (s - cb_seq_from b) \<le> unat ?d"
    using assms(3,4) le by (simp add: unat_sub word_le_nat_alt)
  ultimately have "unat (s - cb_seq_from b) < length (range_leaves m b)" using assms(1) by simp
  from range_leaves_nth [OF this] show ?thesis by simp
qed

lemma attested_runs_ok:
  assumes "vs = attest P E p trusted"
  shows "separated (attested_runs vs) \<and>
    (within s (attested_runs vs) \<longleftrightarrow>
      list_ex (\<lambda>v. is_verified v \<and> vd_seq_from v \<le> s \<and> s \<le> vd_seq_to v) vs)"
proof -
  let ?rs = "map (\<lambda>v. (vd_seq_from v, vd_seq_to v)) (filter is_verified vs)"
  have "list_all (\<lambda>r. fst r \<le> snd r) (sort_by pair_le ?rs)"
    using verified_bounds assms by (auto simp: list_all_iff)
  from merge_all_ok [OF _ pair_le.sorted_sort_by this, of "[]"]
  have "separated (attested_runs vs) \<and> (within s (attested_runs vs) \<longleftrightarrow> within s (sort_by pair_le ?rs))"
    by (simp add: attested_runs_def separated_def)
  moreover have "within s (sort_by pair_le ?rs) \<longleftrightarrow>
      list_ex (\<lambda>v. is_verified v \<and> vd_seq_from v \<le> s \<and> s \<le> vd_seq_to v) vs"
    by (auto simp: within_def list_ex_iff)
  ultimately show ?thesis by blast
qed

text \<open>The keys a pack is checked against.\<close>

definition trusted_keys :: "args \<Rightarrow> pack \<Rightarrow> trust" where
  "trusted_keys args p =
     (if ar_trusted args \<noteq> Map.empty then ar_trusted args else fst (keys_from_pack p))"

lemma run_pack_eq_Inr:
  "run_pack P E args p = Inr (report, verdicts, code) \<longleftrightarrow>
    (\<exists>from. pack_anchor args p = Inr from \<and> report = verify_range P (pa_events p) from \<and>
      verdicts = attest P E p (trusted_keys args p) \<and>
      code = (if is_inconclusive report then EXIT_CANNOT_VERIFY
              else if \<not> is_clean report \<or> list_ex is_violation verdicts then EXIT_VIOLATIONS
              else EXIT_CLEAN))"
  by (auto simp: run_pack_def trusted_keys_def Let_def and_then_eq_Inr split: prod.splits)

text \<open>What a clean run says of a position it lists as attested.\<close>

lemma clean_run_attested:
  assumes "run_pack P E args p = Ok (report, verdicts, EXIT_CLEAN)" "within s (attested_runs verdicts)"
  shows "\<exists>cp \<in> set (pa_checkpoints p). cb_seq_from (cp_body cp) \<le> s \<and> s \<le> cb_seq_to (cp_body cp) \<and>
    attest_one P E cp (leaves_by_seq P (pa_events p)) (trusted_keys args p) = Verified (cp_key_id cp)"
proof -
  have v: "verdicts = attest P E p (trusted_keys args p)"
    using assms(1) unfolding run_pack_eq_Inr by blast
  then obtain w where w: "w \<in> set verdicts" "is_verified w" "vd_seq_from w \<le> s" "s \<le> vd_seq_to w"
    using attested_runs_ok [OF v] assms(2) by (auto simp: list_ex_iff)
  then show ?thesis using attested_verdict [of w P E p] v by metis
qed

lemma leaves_by_seq_present:
  "e \<in> set events \<Longrightarrow> event_hash P e = Inr h \<Longrightarrow> leaves_by_seq P events (ae_seq e) \<noteq> None"
  unfolding leaves_by_seq_def
proof (induction events rule: rev_induct)
  case (snoc x xs)
  then show ?case by (auto split: sum.splits)
qed simp

lemma range_leaves_grow:
  assumes "length (range_leaves m b) = tree_size b" "tree_size b \<noteq> 0" "dom m \<subseteq> dom m'"
  shows "length (range_leaves m' b) = tree_size b"
proof -
  let ?qs = "seq_range (cb_seq_from b) (cb_seq_to b)"
  obtain ls where ls: "collect_some (map m ?qs) = Some ls"
    using assms(1,2) by (cases "collect_some (map m ?qs)") (auto simp: range_leaves_def)
  then have m: "map m ?qs = map Some ls" by (simp add: collect_some_eq)
  have "q \<in> dom m" if "q \<in> set ?qs" for q
    using that arg_cong [OF m, of set] by force
  then have "map m' ?qs = map Some (map (\<lambda>q. the (m' q)) ?qs)" using assms(3) by (force simp: dom_def)
  then have "collect_some (map m' ?qs) = Some (map (\<lambda>q. the (m' q)) ?qs)" by (simp only: collect_some_eq)
  moreover have "length ls = length ?qs" using arg_cong [OF m, of length] by simp
  ultimately show ?thesis using assms(1) ls by (simp add: range_leaves_def)
qed

lemma replaced_leaf_violates:
  assumes "attest_one P E cp m trusted = Verified k" "dom m \<subseteq> dom m'" "tree_size (cp_body cp) \<noteq> 0"
    and "cb_seq_from (cp_body cp) \<le> s" "s \<le> cb_seq_to (cp_body cp)" "m' s \<noteq> m s"
    and "collision_free (digest P) (tree_inputs (digest P) (range_leaves m (cp_body cp)) @
      tree_inputs (digest P) (range_leaves m' (cp_body cp)))"
  shows "\<exists>why. attest_one P E cp m' trusted = AttestationViolation why"
proof -
  let ?b = "cp_body cp"
  note one = attest_one_Verified [OF assms(1)]
  have len: "length (range_leaves m' ?b) = tree_size ?b" using range_leaves_grow one assms(2,3) by blast
  have "range_leaves m ?b \<noteq> range_leaves m' ?b"
    using range_leaves_reaches [OF _ assms(3-5)] one len assms(6) by metis
  then have "tree_root (digest P) (range_leaves m' ?b) \<noteq> cb_root_hash ?b"
    using tree_binding [OF assms(7)] one by metis
  then show ?thesis using assms(1) len by (auto simp: attest_one_def Let_def split: option.splits sum.splits if_splits)
qed

section \<open>Properties\<close>

text \<open>
  C27. What a clean verdict attests: when a pack verifies (exit code zero), its events are a clean
  range, and every position the report lists as attested lies in a checkpoint of the pack that
  carries a valid signature of a trusted key, and the pack holds an event at that position whose
  recomputed hash is the leaf that was signed there, whatever leaves the signer made the root
  from (unless the hash collides on the two trees, or the range is the whole of the 64 bits, whose
  size wraps to zero). Keys pinned on the command line are the only
  ones trusted.
\<close>

theorem clean_pack_attests:
  assumes "run_pack P E args p = Ok (report, verdicts, EXIT_CLEAN)"
    and "within s (attested_runs verdicts)"
  shows "is_clean report \<and>
    (\<exists>cp \<in> set (pa_checkpoints p). cb_seq_from (cp_body cp) \<le> s \<and> s \<le> cb_seq_to (cp_body cp) \<and>
      (\<exists>key. (trusted_keys args p (cp_key_id cp) = Some key \<or> trusted_keys args p '''' = Some key) \<and>
        verify_checkpoint P E cp key = Ok ()) \<and>
      (\<forall>signed. tree_size (cp_body cp) \<noteq> 0 \<and>
         tree_root (digest P) signed = cb_root_hash (cp_body cp) \<and>
         collision_free (digest P) (tree_inputs (digest P) signed @ tree_inputs (digest P)
           (range_leaves (leaves_by_seq P (pa_events p)) (cp_body cp))) \<longrightarrow>
         length signed = tree_size (cp_body cp) \<and>
         (\<exists>e \<in> set (pa_events p). ae_seq e = s \<and>
            event_hash P e = Ok (signed ! unat (s - cb_seq_from (cp_body cp))))))"
proof -
  let ?m = "leaves_by_seq P (pa_events p)"
  have clean: "is_clean report"
    using assms(1) unfolding run_pack_eq_Inr
    by (auto simp: EXIT_CLEAN_def EXIT_VIOLATIONS_def EXIT_CANNOT_VERIFY_def split: if_splits)
  obtain cp where cp: "cp \<in> set (pa_checkpoints p)" "cb_seq_from (cp_body cp) \<le> s" "s \<le> cb_seq_to (cp_body cp)"
      "attest_one P E cp ?m (trusted_keys args p) = Verified (cp_key_id cp)"
    using clean_run_attested [OF assms] by blast
  note one = attest_one_Verified [OF cp(4)]
  let ?ls = "range_leaves ?m (cp_body cp)" and ?i = "unat (s - cb_seq_from (cp_body cp))"
  have signed: "length signed = tree_size (cp_body cp) \<and>
      (\<exists>e \<in> set (pa_events p). ae_seq e = s \<and> event_hash P e = Ok (signed ! ?i))"
    if "tree_size (cp_body cp) \<noteq> 0" "tree_root (digest P) signed = cb_root_hash (cp_body cp)"
      "collision_free (digest P) (tree_inputs (digest P) signed @ tree_inputs (digest P) ?ls)" for signed
  proof -
    have eq: "signed = ?ls" using tree_binding [OF that(3)] that(2) one by simp
    have "?m s = Some (?ls ! ?i)" using range_leaves_reaches [OF _ that(1)] one cp by simp
    then show ?thesis using leaves_by_seq_in eq one by metis
  qed
  then show ?thesis using clean cp one by (intro conjI bexI [of _ cp]) auto
qed


definition demo_pack :: "checkpoint \<Rightarrow> pack" where
  "demo_pack cp = \<lparr>pa_manifest = \<lparr>mf_pack_version = PACK_VERSION, mf_tenant_id = ''t'', mf_system_id = ''s'',
     mf_created_at = [], mf_produced_by = [], mf_source = [], mf_seq_from = None, mf_seq_to = None,
     mf_prev_hash = None\<rparr>, pa_events = [demo_event 1 5 GENESIS], pa_checkpoints = [cp], pa_keys = []\<rparr>"

definition demo_args :: args where
  "demo_args = \<lparr>ar_target = TargetPack ''d'', ar_from = GENESIS, ar_quiet = False,
     ar_trusted = ['''' \<mapsto> verifying_key demo_ed demo_signer]\<rparr>"

lemma demo_pack_clean:
  assumes "seal_range chain_prims demo_ed demo_signer ''t'' ''s'' 1 [demo_hash 1 5] 0 = Ok cp"
  shows "\<exists>verdicts. run_pack chain_prims demo_ed demo_args (demo_pack cp) =
      Ok (verify_range chain_prims [demo_event 1 5 GENESIS] GENESIS, verdicts, EXIT_CLEAN) \<and>
    verdicts = attest chain_prims demo_ed (demo_pack cp) (ar_trusted demo_args) \<and>
    within 1 (attested_runs verdicts)"
proof -
  let ?k = "verifying_key demo_ed demo_signer" and ?e = "demo_event 1 5 GENESIS"
  obtain pf where "verify_inclusion chain_prims demo_ed cp pf ?k = Ok ()"
    using seal_then_prove [OF assms demo_ed_signs, of 0] by auto
  then have ok: "verify_checkpoint chain_prims demo_ed cp ?k = Ok ()"
    by (simp add: verify_inclusion_eq_Inr)
  have body: "cb_seq_from (cp_body cp) = 1" "cb_seq_to (cp_body cp) = 1"
    "cb_root_hash (cp_body cp) = tree_root demo_digest [demo_hash 1 5]"
    using assms sign_body unfolding seal_range_eq_Inr by auto
  have leaves: "leaves_by_seq chain_prims [?e] = [1 \<mapsto> demo_hash 1 5]"
    by (simp add: leaves_by_seq_def)
  have "range_leaves [1 \<mapsto> demo_hash 1 5] (cp_body cp) = [demo_hash 1 5]"
    by (simp add: range_leaves_def seq_range_def body)
  then have att: "attest_one chain_prims demo_ed cp [1 \<mapsto> demo_hash 1 5] ['''' \<mapsto> ?k] = Verified (cp_key_id cp)"
    using ok body by (simp add: attest_one_def Let_def tree_size_def saturating_sub_def)
  have clean: "is_clean (verify_range chain_prims [?e] GENESIS)" by (simp add: is_clean_iff)
  then have "\<not> is_inconclusive (verify_range chain_prims [?e] GENESIS)"
    by (simp add: is_clean_def is_inconclusive_def)
  then have "run_pack chain_prims demo_ed demo_args (demo_pack cp) =
      Ok (verify_range chain_prims [?e] GENESIS, attest chain_prims demo_ed (demo_pack cp) (ar_trusted demo_args), EXIT_CLEAN)"
    using clean unfolding run_pack_eq_Inr
    by (auto simp: pack_anchor_def trusted_keys_def attest_def Let_def leaves att is_violation_def demo_pack_def demo_args_def)
  moreover have "within 1 (attested_runs (attest chain_prims demo_ed (demo_pack cp) (ar_trusted demo_args)))"
    unfolding attested_runs_ok [OF refl, THEN conjunct2]
    by (simp add: attest_def Let_def leaves att is_verified_def body demo_pack_def demo_args_def)
  ultimately show ?thesis by blast
qed

theorem clean_pack_attests_witness:
  "\<exists>cp p args. seal_range chain_prims demo_ed demo_signer ''t'' ''s'' 1 [demo_hash 1 5] 0 = Ok cp \<and>
    pa_checkpoints p = [cp] \<and> pa_events p = [demo_event 1 5 GENESIS] \<and>
    is_clean (verify_range chain_prims (pa_events p) GENESIS) \<and>
    run_pack chain_prims demo_ed args p =
      Ok (verify_range chain_prims (pa_events p) GENESIS,
          attest chain_prims demo_ed p (ar_trusted args), EXIT_CLEAN)"
proof -
  obtain cp where cp: "seal_range chain_prims demo_ed demo_signer ''t'' ''s'' 1 [demo_hash 1 5] 0 = Ok cp"
    using demo_seals by blast
  obtain verdicts where run: "run_pack chain_prims demo_ed demo_args (demo_pack cp) =
      Ok (verify_range chain_prims [demo_event 1 5 GENESIS] GENESIS, verdicts, EXIT_CLEAN)"
    "verdicts = attest chain_prims demo_ed (demo_pack cp) (ar_trusted demo_args)"
    "within 1 (attested_runs verdicts)" using demo_pack_clean [OF cp] by blast
  from clean_pack_attests [OF run(1,3), THEN conjunct1] run cp show ?thesis
    by (intro exI [of _ cp] exI [of _ "demo_pack cp"] exI [of _ demo_args]) (simp add: demo_pack_def)
qed

text \<open>
  C36. The ranges a report calls attested, exactly: for the verdicts of a pack they are ascending,
  nonempty and at least one position apart, and a position lies in one of them just when it lies
  in the range of a checkpoint that was verified; a gap between signed ranges is never closed, at
  the end of the 64 bits included.
\<close>

theorem attested_runs_exact:
  "(let vs = attest P E p trusted; runs = attested_runs vs in
    sorted_wrt (\<lambda>x y. unat (snd x) + 1 < unat (fst y)) runs \<and>
    list_all (\<lambda>r. fst r \<le> snd r) runs \<and>
    (within s runs \<longleftrightarrow> list_ex (\<lambda>v. is_verified v \<and> vd_seq_from v \<le> s \<and> s \<le> vd_seq_to v) vs))"
  using attested_runs_ok [OF refl, of P E p trusted s] by (simp add: Let_def separated_def)

text \<open>The exit code of a pack, on every branch.\<close>

lemma pack_exit_code:
  "exit_code (and_then (run_pack P E args p) (\<lambda>(report, verdicts, code). Ok ((), code))) =
    (case pack_anchor args p of
       Inl _ \<Rightarrow> 2
     | Inr from \<Rightarrow>
         let findings = cr_violations (verify_range P (pa_events p) from) in
         if findings \<noteq> [] \<and> list_all is_verifier_limit findings then 2
         else if findings = [] \<and> \<not> list_ex is_violation (attest P E p (trusted_keys args p)) then 0
         else 1)"
  by (auto simp: run_pack_def trusted_keys_def Let_def exit_code_def and_then_def is_inconclusive_def
      is_clean_def EXIT_CLEAN_def EXIT_VIOLATIONS_def EXIT_CANNOT_VERIFY_def split: prod.splits sum.splits)


lemma demo_leaves_differ:
  "collision_free (digest chain_prims) [leaf_input (demo_hash 1 5), leaf_input (demo_hash 1 6)]"
  by (simp add: collision_free_def demo_digest_def leaf_input_def LEAF_TAG_def mini_hash_simps demo_hash_def)


end
