(* ===== verification/Control.thy ===== *)
theory Control
  imports Row Checkpoint
begin

text \<open>
  The control plane's views of the two databases: \<open>registry.rs\<close> (errors), \<open>clickhouse.rs\<close> (the
  chains, read only), \<open>overview.rs\<close>, and the checkpoints and timestamps of \<open>postgres.rs\<close>.

  \<open>'s\<close> is the state of the world; the clients are records of the statements the code issues, with
  their errors already printed.
\<close>

section \<open>Errors and sequencing\<close>

datatype control_error =
    Db string
  | ControlBus string
  | ControlCanon string
  | ControlInvalid string
  | ControlChain chain_error

text \<open>A call whose error returns (\<open>?\<close>), on the state of the world.\<close>

definition then_do ::
    "'s \<times> ('a, 'e) result \<Rightarrow> ('s \<Rightarrow> 'a \<Rightarrow> 's \<times> ('b, 'e) result) \<Rightarrow> 's \<times> ('b, 'e) result" where
  "then_do p f = (case p of (s, Inl e) \<Rightarrow> (s, Inl e) | (s, Inr a) \<Rightarrow> f s a)"

definition do_err :: "('e \<Rightarrow> 'f) \<Rightarrow> 's \<times> ('a, 'e) result \<Rightarrow> 's \<times> ('a, 'f) result" where
  "do_err f p = (fst p, map_err f (snd p))"

lemma then_do_simps [simp]:
  "then_do (s, Inl e) f = (s, Inl e)" "then_do (s, Inr a) f = f s a"
  by (simp_all add: then_do_def)

lemma do_err_simps [simp]:
  "do_err f (s, Inl e) = (s, Inl (f e))" "do_err f (s, Inr a) = (s, Inr a)"
  by (simp_all add: do_err_def)

lemma do_err_eq: "do_err f p = (s, r) \<longleftrightarrow> (\<exists>q. p = (s, q) \<and> map_err f q = r)"
  by (cases p) (auto simp: do_err_def)

lemma then_do_cases:
  assumes "then_do p f = (s', r)"
  obtains (err) e where "p = (s', Inl e)" "r = Inl e"
    | (ok) s1 a where "p = (s1, Inr a)" "f s1 a = (s', r)"
  using assms by (cases p; cases "snd p") auto

section \<open>ClickHouse\<close>

record listing_row =
  lr_tenant_id :: string
  lr_system_id :: string
  lr_head_seq :: u64
  lr_event_count :: u64

record summary_row =
  sr_head_seq :: u64
  sr_event_count :: u64
  sr_first_event_at :: i64
  sr_last_event_at :: i64
  sr_generations :: u64
  sr_events_with_gaps :: u64

record count_row =
  co_name :: string
  co_count :: u64

datatype dimension = RiskFlags | EventTypes | Outcomes | ModelVersions

record 's chains_client =
  cc_chains :: "'s \<Rightarrow> 's \<times> ((string \<times> string) list, string) result"
  cc_max_seq :: "'s \<Rightarrow> string \<Rightarrow> string \<Rightarrow> 's \<times> (u64 list, string) result"
  cc_leaves :: "'s \<Rightarrow> string \<Rightarrow> string \<Rightarrow> u64 \<Rightarrow> u64 \<Rightarrow> 's \<times> (u8 list list, string) result"
  cc_events :: "'s \<Rightarrow> string \<Rightarrow> string \<Rightarrow> u64 \<Rightarrow> u64 \<Rightarrow> 's \<times> (audit_event_row list, string) result"
  cc_listings :: "'s \<Rightarrow> 's \<times> (listing_row list, string) result"
  cc_summary :: "'s \<Rightarrow> string \<Rightarrow> string \<Rightarrow> 's \<times> (summary_row list, string) result"
  cc_counts :: "'s \<Rightarrow> dimension \<Rightarrow> string \<Rightarrow> string \<Rightarrow> 's \<times> (count_row list, string) result"

definition click_chains :: "'s chains_client \<Rightarrow> 's \<Rightarrow> 's \<times> (chain_id list, control_error) result" where
  "click_chains C s =
     then_do (do_err Db (cc_chains C s)) (\<lambda>s rows.
       (s, Ok (map (\<lambda>(t, y). \<lparr>cid_tenant_id = t, cid_system_id = y\<rparr>) rows)))"

definition click_head_seq ::
    "'s chains_client \<Rightarrow> 's \<Rightarrow> chain_id \<Rightarrow> 's \<times> (u64 option, control_error) result" where
  "click_head_seq C s chain =
     then_do (do_err Db (cc_max_seq C s (cid_tenant_id chain) (cid_system_id chain))) (\<lambda>s rows.
       (s, Ok (case rows of [] \<Rightarrow> None | seq # _ \<Rightarrow> if seq > 0 then Some seq else None)))"

definition click_leaves ::
    "'s chains_client \<Rightarrow> 's \<Rightarrow> chain_id \<Rightarrow> u64 \<Rightarrow> u64 \<Rightarrow> 's \<times> (hash32 list, control_error) result" where
  "click_leaves C s chain seq_from seq_to =
     then_do (do_err Db (cc_leaves C s (cid_tenant_id chain) (cid_system_id chain) seq_from seq_to))
       (\<lambda>s rows. (s, Ok (map from_bytes rows)))"

definition click_events ::
    "(string \<Rightarrow> string) \<Rightarrow> (chain_id \<Rightarrow> ingest_error \<Rightarrow> string) \<Rightarrow> 's chains_client \<Rightarrow> 's \<Rightarrow> chain_id \<Rightarrow>
      u64 \<Rightarrow> u64 \<Rightarrow> 's \<times> (audit_event list, control_error) result" where
  "click_events dbg print C s chain seq_from seq_to =
     then_do (do_err Db (cc_events C s (cid_tenant_id chain) (cid_system_id chain) seq_from seq_to))
       (\<lambda>s rows. (s, try_map (\<lambda>r. map_err (\<lambda>e. Db (print chain e)) (event_of_row dbg r)) rows))"

section \<open>The overview\<close>

record chain_listing =
  cl_tenant_id :: string
  cl_system_id :: string
  cl_head_seq :: u64
  cl_event_count :: u64

record flag_count =
  fc_name :: string
  fc_count :: u64

record chain_summary =
  su_tenant_id :: string
  su_system_id :: string
  su_head_seq :: u64
  su_event_count :: u64
  su_first_event_at :: "i64 option"
  su_last_event_at :: "i64 option"
  su_risk_flags :: "flag_count list"
  su_event_types :: "flag_count list"
  su_outcomes :: "flag_count list"
  su_generations :: u64
  su_model_versions :: "flag_count list"
  su_events_with_gaps :: u64

definition click_listings :: "'s chains_client \<Rightarrow> 's \<Rightarrow> 's \<times> (chain_listing list, control_error) result" where
  "click_listings C s =
     then_do (do_err Db (cc_listings C s)) (\<lambda>s rows.
       (s, Ok (map (\<lambda>r. \<lparr>cl_tenant_id = lr_tenant_id r, cl_system_id = lr_system_id r,
                         cl_head_seq = lr_head_seq r, cl_event_count = lr_event_count r\<rparr>) rows)))"

definition click_counts ::
    "'s chains_client \<Rightarrow> 's \<Rightarrow> chain_id \<Rightarrow> dimension \<Rightarrow> 's \<times> (flag_count list, control_error) result"
where
  "click_counts C s chain sql =
     then_do (do_err Db (cc_counts C s sql (cid_tenant_id chain) (cid_system_id chain))) (\<lambda>s rows.
       (s, Ok (map (\<lambda>r. \<lparr>fc_name = co_name r, fc_count = co_count r\<rparr>) rows)))"

definition click_summary ::
    "'s chains_client \<Rightarrow> 's \<Rightarrow> chain_id \<Rightarrow> 's \<times> (chain_summary, control_error) result" where
  "click_summary C s chain =
     then_do (do_err Db (cc_summary C s (cid_tenant_id chain) (cid_system_id chain))) (\<lambda>s rows.
     let scalars = (case rows of r # _ \<Rightarrow> r
           | [] \<Rightarrow> \<lparr>sr_head_seq = 0, sr_event_count = 0, sr_first_event_at = 0, sr_last_event_at = 0,
                    sr_generations = 0, sr_events_with_gaps = 0\<rparr>) in
     then_do (click_counts C s chain RiskFlags) (\<lambda>s risk_flags.
     then_do (click_counts C s chain EventTypes) (\<lambda>s event_types.
     then_do (click_counts C s chain Outcomes) (\<lambda>s outcomes.
     then_do (click_counts C s chain ModelVersions) (\<lambda>s model_versions.
       (s, Ok \<lparr>su_tenant_id = cid_tenant_id chain, su_system_id = cid_system_id chain,
               su_head_seq = sr_head_seq scalars, su_event_count = sr_event_count scalars,
               su_first_event_at =
                 (if sr_event_count scalars > 0 then Some (sr_first_event_at scalars) else None),
               su_last_event_at =
                 (if sr_event_count scalars > 0 then Some (sr_last_event_at scalars) else None),
               su_risk_flags = risk_flags, su_event_types = event_types, su_outcomes = outcomes,
               su_generations = sr_generations scalars, su_model_versions = model_versions,
               su_events_with_gaps = sr_events_with_gaps scalars\<rparr>))))))"

text \<open>The condition \<open>GAP\<close> of the summary query, on the columns of a row.\<close>

definition gap_sql :: "audit_event_row \<Rightarrow> bool" where
  "gap_sql r \<longleftrightarrow>
     r_model_version r = ''unknown'' \<or> starts_with (r_model_version r) ''unresolved:'' \<or>
     r_system_version r = ''unknown'' \<or> r_ifu_version r = ''unknown'' \<or>
     r_model_id r = ''unknown'' \<or> r_prompt_id r = ''unknown'' \<or>
     r_prompt_version r = ''unknown'' \<or> r_policy_id r = ''unknown'' \<or>
     r_policy_version r = ''unknown'' \<or> r_gateway_version r = ''unknown''"

section \<open>Postgres: checkpoints\<close>

text \<open>
  A \<open>timestamptz\<close> is its nanoseconds; \<open>range_err\<close> is the error of \<open>OffsetDateTime\<close> for nanoseconds
  out of its range, as printed. A \<open>bigint\<close> is an \<open>i64\<close>.
\<close>

type_synonym range_err = "int \<Rightarrow> string option"

definition to_pg :: "range_err \<Rightarrow> timestamp \<Rightarrow> (int, control_error) result" where
  "to_pg range_err t =
     (case range_err (t * 1000) of
        None \<Rightarrow> Ok (t * 1000)
      | Some e \<Rightarrow> Err (Db (''timestamp '' @ dec_int t @ '' is out of range: '' @ e)))"

definition from_pg :: "int \<Rightarrow> timestamp" where
  "from_pg dt = (let n = (if dt < 0 then - (- dt div 1000) else dt div 1000) in
     if i64_min \<le> n \<and> n \<le> i64_max then n else i64_max)"

definition to_i64 :: "u64 \<Rightarrow> i64" where
  "to_i64 a = (if uint a \<le> i64_max then uint a else i64_max)"

definition of_i64 :: "i64 \<Rightarrow> u64" where
  "of_i64 i = (if i < 0 then 0 else word_of_int i)"

record pg_checkpoint =
  pc_tenant_id :: string
  pc_system_id :: string
  pc_seq_from :: i64
  pc_seq_to :: i64
  pc_root_hash :: "u8 list"
  pc_built_at :: int
  pc_canon_version :: string
  pc_key_id :: string
  pc_signature :: "u8 list"

record 's pg_client =
  pq_last_sealed :: "'s \<Rightarrow> string \<Rightarrow> string \<Rightarrow> 's \<times> ((i64 \<times> int) option, string) result"
  pq_put :: "'s \<Rightarrow> pg_checkpoint \<Rightarrow> 's \<times> (unit, string) result"
  pq_list :: "'s \<Rightarrow> string \<Rightarrow> string \<Rightarrow> 's \<times> (pg_checkpoint list, string) result"

definition pg_last_sealed ::
    "'s pg_client \<Rightarrow> 's \<Rightarrow> chain_id \<Rightarrow> 's \<times> ((u64 \<times> timestamp) option, control_error) result" where
  "pg_last_sealed C s chain =
     then_do (do_err Db (pq_last_sealed C s (cid_tenant_id chain) (cid_system_id chain))) (\<lambda>s row.
       (s, Ok (map_option (\<lambda>(seq, built). (of_i64 seq, from_pg built)) row)))"

definition checkpoint_row :: "range_err \<Rightarrow> checkpoint \<Rightarrow> (pg_checkpoint, control_error) result" where
  "checkpoint_row range_err cp =
     (let b = cp_body cp in
      and_then (to_pg range_err (cb_built_at b)) (\<lambda>built.
        Ok \<lparr>pc_tenant_id = cb_tenant_id b, pc_system_id = cb_system_id b,
            pc_seq_from = to_i64 (cb_seq_from b), pc_seq_to = to_i64 (cb_seq_to b),
            pc_root_hash = as_bytes (cb_root_hash b), pc_built_at = built,
            pc_canon_version = cb_canon_version b, pc_key_id = cp_key_id cp,
            pc_signature = cp_signature cp\<rparr>))"

definition pg_put ::
    "range_err \<Rightarrow> 's pg_client \<Rightarrow> 's \<Rightarrow> checkpoint \<Rightarrow> 's \<times> (unit, control_error) result" where
  "pg_put range_err C s cp =
     (case checkpoint_row range_err cp of
        Inl e \<Rightarrow> (s, Err e)
      | Inr row \<Rightarrow> do_err Db (pq_put C s row))"

text \<open>\<open>hash32\<close> of \<open>postgres.rs\<close>.\<close>

definition pg_hash32 :: "u8 list \<Rightarrow> string \<Rightarrow> (hash32, control_error) result" where
  "pg_hash32 bytes field =
     (if length bytes = 32 then Ok (from_bytes bytes)
      else Err (Db (field @ '' is '' @ dec_nat (length bytes) @ '' bytes, not 32'')))"

definition checkpoint_of_row :: "chain_id \<Rightarrow> pg_checkpoint \<Rightarrow> (checkpoint, control_error) result" where
  "checkpoint_of_row chain r =
     (if length (pc_signature r) \<noteq> 64
      then Err (Db (''checkpoint signature is '' @ dec_nat (length (pc_signature r)) @ '' bytes, not 64''))
      else and_then (pg_hash32 (pc_root_hash r) ''root_hash'') (\<lambda>root.
        Ok \<lparr>cp_body = \<lparr>cb_tenant_id = cid_tenant_id chain, cb_system_id = cid_system_id chain,
                cb_seq_from = of_i64 (pc_seq_from r), cb_seq_to = of_i64 (pc_seq_to r),
                cb_root_hash = root, cb_built_at = from_pg (pc_built_at r),
                cb_canon_version = pc_canon_version r\<rparr>,
            cp_signature = pc_signature r, cp_key_id = pc_key_id r\<rparr>))"

definition pg_list ::
    "'s pg_client \<Rightarrow> 's \<Rightarrow> chain_id \<Rightarrow> 's \<times> (checkpoint list, control_error) result" where
  "pg_list C s chain =
     then_do (do_err Db (pq_list C s (cid_tenant_id chain) (cid_system_id chain))) (\<lambda>s rows.
       (s, try_map (checkpoint_of_row chain) rows))"

section \<open>Lemmas\<close>

lemma of_i64_to_i64 [simp]:
  assumes "unat a < 2 ^ 63"
  shows "of_i64 (to_i64 a) = a"
proof -
  have "a < 0x8000000000000000" using assms by (simp add: word_less_nat_alt)
  then have "uint a < 2 ^ 63" by (simp add: word_less_def)
  then show ?thesis by (simp add: of_i64_def to_i64_def i64_max_def not_less)
qed

lemma from_pg_mult [simp]: "i64_min \<le> t \<Longrightarrow> t \<le> i64_max \<Longrightarrow> from_pg (t * 1000) = t"
proof -
  assume t: "i64_min \<le> t" "t \<le> i64_max"
  have "- (t * 1000) div 1000 = - t" by (metis minus_mult_left nonzero_mult_div_cancel_right zero_neq_numeral)
  then show ?thesis using t by (simp add: from_pg_def Let_def)
qed

text \<open>
  What a \<open>bigint\<close> and a \<open>timestamptz\<close> hold: positions below \<open>2 ^ 63\<close>, the microseconds of an
  \<open>i64\<close>, and a signature of 64 bytes.
\<close>

definition storable :: "checkpoint \<Rightarrow> bool" where
  "storable cp \<longleftrightarrow> unat (cb_seq_from (cp_body cp)) < 2 ^ 63 \<and> unat (cb_seq_to (cp_body cp)) < 2 ^ 63 \<and>
     i64_min \<le> cb_built_at (cp_body cp) \<and> cb_built_at (cp_body cp) \<le> i64_max \<and>
     length (cp_signature cp) = 64"

definition in_chain :: "chain_id \<Rightarrow> checkpoint \<Rightarrow> bool" where
  "in_chain c cp \<longleftrightarrow> cb_tenant_id (cp_body cp) = cid_tenant_id c \<and> cb_system_id (cp_body cp) = cid_system_id c"

lemma checkpoint_read_back:
  "storable cp \<Longrightarrow> in_chain c cp \<Longrightarrow> checkpoint_row e cp = Inr row \<Longrightarrow> checkpoint_of_row c row = Inr cp"
  by (cases cp; cases "cp_body cp")
    (auto simp: checkpoint_row_def Let_def and_then_eq_Inr to_pg_def checkpoint_of_row_def pg_hash32_def
      storable_def in_chain_def split: option.splits)

section \<open>Properties\<close>

text \<open>
  A signed checkpoint survives the database exactly: whatever row is written for it reads back
  as the same checkpoint, signed body, signature and key id, so that its signature verifies
  afterwards just as before (positions below \<open>2 ^ 63\<close>, 64 bytes of signature).
\<close>

theorem checkpoint_row_roundtrip:
  assumes "storable cp" "in_chain c cp" "checkpoint_row range_err cp = Ok row"
  shows "checkpoint_of_row c row = Ok cp"
  using assms by (rule checkpoint_read_back)

theorem checkpoint_row_roundtrip_witness:
  "\<exists>row. checkpoint_row (\<lambda>_. None)
      \<lparr>cp_body = \<lparr>cb_tenant_id = ''t'', cb_system_id = ''s'', cb_seq_from = 1, cb_seq_to = 7,
         cb_root_hash = GENESIS, cb_built_at = - 5, cb_canon_version = CANON_VERSION\<rparr>,
       cp_signature = replicate 64 9, cp_key_id = ''k''\<rparr> = Ok row \<and>
    cb_built_at (cp_body (case checkpoint_of_row \<lparr>cid_tenant_id = ''t'', cid_system_id = ''s''\<rparr> row of
      Inr cp \<Rightarrow> cp)) = - 5"
proof -
  let ?cp = "\<lparr>cp_body = \<lparr>cb_tenant_id = ''t'', cb_system_id = ''s'', cb_seq_from = 1, cb_seq_to = 7,
         cb_root_hash = GENESIS, cb_built_at = - 5, cb_canon_version = CANON_VERSION\<rparr>,
       cp_signature = replicate 64 9, cp_key_id = ''k''\<rparr>"
  obtain row where row: "checkpoint_row (\<lambda>_. None) ?cp = Ok row"
    by (simp add: checkpoint_row_def Let_def to_pg_def)
  have "checkpoint_of_row \<lparr>cid_tenant_id = ''t'', cid_system_id = ''s''\<rparr> row = Ok ?cp"
    by (rule checkpoint_row_roundtrip [OF _ _ row]) (simp_all add: storable_def in_chain_def i64_min_def i64_max_def)
  with row show ?thesis by simp
qed

text \<open>
  The dashboard's count of events with gaps never counts too many, and it misses exactly the
  events whose only gap is an unresolved alias in a pin other than the model's version: on the row
  of an event, the condition of the query agrees with \<open>Pins::has_gap\<close> but for those.
\<close>

theorem summary_gap_undercounts:
  "let p = e_pins (ae_emitted ev) in
    has_gap p \<longleftrightarrow> gap_sql (row_of ev) \<or>
      list_ex (\<lambda>v. starts_with v UNRESOLVED_PREFIX)
        [p_system_version p, p_ifu_version p, p_model_id p, p_prompt_id p, p_prompt_version p,
         p_policy_id p, p_policy_version p, p_gateway_version p]"
  by (auto simp: Let_def has_gap_def gap_sql_def row_of_def UNKNOWN_def UNRESOLVED_PREFIX_def)

end
