(* ===== verification/Sealer.thy ===== *)
theory Sealer
  imports Control Pipeline Report
begin

text \<open>
  \<open>crates/ancre-control/src/checkpointer.rs\<close>: when ranges are sealed, and what that guarantees.

  A duration is its nanoseconds. \<open>clock\<close> reads the signer's wall clock in the state of the world;
  the events of the chains may grow between any two calls.
\<close>

section \<open>The checkpointer\<close>

definition CHECKPOINT_EVERY_N :: u64 where
  "CHECKPOINT_EVERY_N = 10000"

definition CHECKPOINT_EVERY_T :: nat where
  "CHECKPOINT_EVERY_T = 300 * 10 ^ 9"

record 's chain_source =
  so_chains :: "'s \<Rightarrow> 's \<times> (chain_id list, control_error) result"
  so_head_seq :: "'s \<Rightarrow> chain_id \<Rightarrow> 's \<times> (u64 option, control_error) result"
  so_leaves :: "'s \<Rightarrow> chain_id \<Rightarrow> u64 \<Rightarrow> u64 \<Rightarrow> 's \<times> (hash32 list, control_error) result"

record 's checkpoint_store =
  st_last_sealed :: "'s \<Rightarrow> chain_id \<Rightarrow> 's \<times> ((u64 \<times> timestamp) option, control_error) result"
  st_put :: "'s \<Rightarrow> checkpoint \<Rightarrow> 's \<times> (unit, control_error) result"
  st_list :: "'s \<Rightarrow> chain_id \<Rightarrow> 's \<times> (checkpoint list, control_error) result"

record seal_report =
  se_chains_examined :: nat
  se_checkpoints_written :: nat
  se_events_sealed :: u64
  se_max_lag :: u64

definition empty_seal_report :: seal_report where
  "empty_seal_report = \<lparr>se_chains_examined = 0, se_checkpoints_written = 0, se_events_sealed = 0,
     se_max_lag = 0\<rparr>"

record 's checkpointer =
  kp_source :: "'s chain_source"
  kp_store :: "'s checkpoint_store"
  kp_signer :: checkpoint_signer
  kp_every_n :: u64
  kp_every_t :: nat

definition checkpointer_new ::
    "'s chain_source \<Rightarrow> 's checkpoint_store \<Rightarrow> checkpoint_signer \<Rightarrow> 's checkpointer" where
  "checkpointer_new source store signer =
     \<lparr>kp_source = source, kp_store = store, kp_signer = signer,
      kp_every_n = CHECKPOINT_EVERY_N, kp_every_t = CHECKPOINT_EVERY_T\<rparr>"

definition with_policy :: "'s checkpointer \<Rightarrow> u64 \<Rightarrow> nat \<Rightarrow> 's checkpointer" where
  "with_policy k every_n every_t = k\<lparr>kp_every_n := every_n, kp_every_t := every_t\<rparr>"

definition micros_between :: "timestamp \<Rightarrow> timestamp \<Rightarrow> nat" where
  "micros_between t0 t1 =
     (let delta = i64_saturating_sub t1 t0 in 1000 * (if delta < 0 then 0 else nat delta))"

text \<open>\<open>Display\<close> for \<open>ChainId\<close>.\<close>

definition chain_to_string :: "chain_id \<Rightarrow> string" where
  "chain_to_string c = cid_tenant_id c @ ''/'' @ cid_system_id c"

text \<open>The loop body of \<open>tick\<close>, first from the reading of the leaves on.\<close>

definition seal_pending ::
    "canon_prims \<Rightarrow> ed25519 \<Rightarrow> ('s \<Rightarrow> timestamp) \<Rightarrow> 's checkpointer \<Rightarrow> 's \<Rightarrow> seal_report \<Rightarrow> chain_id \<Rightarrow>
      u64 \<Rightarrow> u64 \<Rightarrow> u64 \<Rightarrow> 's \<times> (seal_report, control_error) result" where
  "seal_pending P E clock k s report chain seq_from head pending =
     then_do (so_leaves (kp_source k) s chain seq_from head) (\<lambda>s leaves.
       if of_nat (length leaves) \<noteq> pending
       then (s, Err (ControlInvalid (''chain '' @ chain_to_string chain @ '': expected '' @
              dec_u64 pending @ '' leaves for '' @ dec_u64 seq_from @ ''..='' @ dec_u64 head @
              '', read '' @ dec_nat (length leaves))))
       else
         case seal_range P E (kp_signer k) (cid_tenant_id chain) (cid_system_id chain) seq_from leaves
                (clock s) of
           Inl e \<Rightarrow> (s, Err (ControlChain e))
         | Inr cp \<Rightarrow>
             then_do (st_put (kp_store k) s cp) (\<lambda>s _.
               (s, Ok (report\<lparr>se_checkpoints_written := se_checkpoints_written report + 1,
                              se_events_sealed := se_events_sealed report + pending\<rparr>))))"

definition tick_one ::
    "canon_prims \<Rightarrow> ed25519 \<Rightarrow> ('s \<Rightarrow> timestamp) \<Rightarrow> 's checkpointer \<Rightarrow> timestamp \<Rightarrow> 's \<Rightarrow> seal_report \<Rightarrow>
      chain_id \<Rightarrow> 's \<times> (seal_report, control_error) result" where
  "tick_one P E clock k now s report chain =
     (let report = report\<lparr>se_chains_examined := se_chains_examined report + 1\<rparr> in
      then_do (so_head_seq (kp_source k) s chain) (\<lambda>s head.
      case head of None \<Rightarrow> (s, Ok report)
      | Some head \<Rightarrow>
        then_do (st_last_sealed (kp_store k) s chain) (\<lambda>s last.
        let seq_from = (case last of None \<Rightarrow> 1 | Some (seq, _) \<Rightarrow> seq + 1) in
        if seq_from > head then (s, Ok report)
        else
          let pending = head - seq_from + 1;
              elapsed = map_option (\<lambda>(_, at). micros_between at now) last;
              due = (pending \<ge> kp_every_n k \<or>
                     (case elapsed of None \<Rightarrow> True | Some e \<Rightarrow> e \<ge> kp_every_t k))
          in if \<not> due then (s, Ok (report\<lparr>se_max_lag := max (se_max_lag report) pending\<rparr>))
             else seal_pending P E clock k s report chain seq_from head pending)))"

fun tick_chains ::
    "canon_prims \<Rightarrow> ed25519 \<Rightarrow> ('s \<Rightarrow> timestamp) \<Rightarrow> 's checkpointer \<Rightarrow> timestamp \<Rightarrow> 's \<Rightarrow> seal_report \<Rightarrow>
      chain_id list \<Rightarrow> 's \<times> (seal_report, control_error) result" where
  "tick_chains P E clock k now s report [] = (s, Ok report)"
| "tick_chains P E clock k now s report (chain # cs) =
     then_do (tick_one P E clock k now s report chain) (\<lambda>s report.
       tick_chains P E clock k now s report cs)"

definition tick ::
    "canon_prims \<Rightarrow> ed25519 \<Rightarrow> ('s \<Rightarrow> timestamp) \<Rightarrow> 's checkpointer \<Rightarrow> timestamp \<Rightarrow> 's \<Rightarrow>
      's \<times> (seal_report, control_error) result" where
  "tick P E clock k now s =
     then_do (so_chains (kp_source k) s) (\<lambda>s cs. tick_chains P E clock k now s empty_seal_report cs)"

fun lag_chains ::
    "'s checkpointer \<Rightarrow> 's \<Rightarrow> chain_id list \<Rightarrow> 's \<times> ((chain_id \<times> u64) list, control_error) result" where
  "lag_chains k s [] = (s, Ok [])"
| "lag_chains k s (chain # cs) =
     then_do (so_head_seq (kp_source k) s chain) (\<lambda>s head.
     then_do (st_last_sealed (kp_store k) s chain) (\<lambda>s last.
     let head = (case head of None \<Rightarrow> 0 | Some h \<Rightarrow> h);
         done = (case last of None \<Rightarrow> 0 | Some (seq, _) \<Rightarrow> seq)
     in then_do (lag_chains k s cs) (\<lambda>s out. (s, Ok ((chain, saturating_sub head done) # out)))))"

definition lag :: "'s checkpointer \<Rightarrow> 's \<Rightarrow> 's \<times> ((chain_id \<times> u64) list, control_error) result" where
  "lag k s = then_do (so_chains (kp_source k) s) (\<lambda>s cs. lag_chains k s cs)"

text \<open>The databases behind the two interfaces.\<close>

definition click_source :: "'s chains_client \<Rightarrow> 's chain_source" where
  "click_source C = \<lparr>so_chains = click_chains C, so_head_seq = click_head_seq C, so_leaves = click_leaves C\<rparr>"

definition pg_store :: "range_err \<Rightarrow> 's pg_client \<Rightarrow> 's checkpoint_store" where
  "pg_store range_err C =
     \<lparr>st_last_sealed = pg_last_sealed C, st_put = pg_put range_err C, st_list = pg_list C\<rparr>"

section \<open>What the databases owe\<close>

definition chain_rows :: "chain_id \<Rightarrow> audit_event_row list \<Rightarrow> audit_event_row list" where
  "chain_rows c rows = filter (of_chain c) rows"

definition numbered :: "audit_event_row list \<Rightarrow> bool" where
  "numbered rows \<longleftrightarrow> (\<forall>c. length (chain_rows c rows) < 2 ^ 63 \<and>
     map r_seq (chain_rows c rows) = map of_nat [1..<Suc (length (chain_rows c rows))])"

text \<open>Rows are only appended, and a gapless store stays one.\<close>

definition grown :: "audit_event_row list \<Rightarrow> audit_event_row list \<Rightarrow> bool" where
  "grown rows rows' \<longleftrightarrow> (\<exists>new. rows' = rows @ new) \<and> (numbered rows \<longrightarrow> numbered rows')"

definition max_seq :: "audit_event_row list \<Rightarrow> u64 option \<Rightarrow> bool" where
  "max_seq rows h \<longleftrightarrow>
     (case h of None \<Rightarrow> \<forall>r \<in> set rows. r_seq r = 0
      | Some q \<Rightarrow> q > 0 \<and> (\<forall>r \<in> set rows. r_seq r \<le> q) \<and> (\<exists>r \<in> set rows. r_seq r = q))"

definition rows_between :: "chain_id \<Rightarrow> u64 \<Rightarrow> u64 \<Rightarrow> audit_event_row list \<Rightarrow> audit_event_row list" where
  "rows_between c a b rows =
     sort_key r_seq (filter (\<lambda>x. a \<le> r_seq x \<and> r_seq x \<le> b) (chain_rows c rows))"

definition row_hash :: "audit_event_row \<Rightarrow> hash32" where
  "row_hash r = from_bytes (r_event_hash r)"

definition last_of :: "checkpoint list \<Rightarrow> (u64 \<times> timestamp) option \<Rightarrow> bool" where
  "last_of cps l \<longleftrightarrow>
     (case l of None \<Rightarrow> cps = []
      | Some (q, at) \<Rightarrow> (\<exists>cp \<in> set cps. cb_seq_to (cp_body cp) = q \<and> cb_built_at (cp_body cp) = at) \<and>
          (\<forall>cp \<in> set cps. cb_seq_to (cp_body cp) \<le> q))"

definition same_place :: "checkpoint \<Rightarrow> checkpoint \<Rightarrow> bool" where
  "same_place a b \<longleftrightarrow> cb_tenant_id (cp_body a) = cb_tenant_id (cp_body b) \<and>
     cb_system_id (cp_body a) = cb_system_id (cp_body b) \<and> cb_seq_to (cp_body a) = cb_seq_to (cp_body b)"

locale chain_reads =
  fixes lawful :: "'c \<Rightarrow> bool"
    and reader :: "'c \<Rightarrow> 's chain_source"
    and events :: "'c \<Rightarrow> 's \<Rightarrow> audit_event_row list"
    and attested :: "'c \<Rightarrow> 's \<Rightarrow> checkpoint list"
  assumes chains_keep: "lawful c \<Longrightarrow> so_chains (reader c) s = (s', r) \<Longrightarrow>
      grown (events c s) (events c s') \<and> attested c s' = attested c s"
    and chains_read: "lawful c \<Longrightarrow> so_chains (reader c) s = (s', Inr cs) \<Longrightarrow>
      chain_rows ch (events c s) \<noteq> [] \<Longrightarrow> ch \<in> set cs"
    and head_keep: "lawful c \<Longrightarrow> so_head_seq (reader c) s ch = (s', r') \<Longrightarrow>
      grown (events c s) (events c s') \<and> attested c s' = attested c s"
    and head_read: "lawful c \<Longrightarrow> so_head_seq (reader c) s ch = (s', Inr h) \<Longrightarrow>
      max_seq (chain_rows ch (events c s')) h"
    and leaves_keep: "lawful c \<Longrightarrow> so_leaves (reader c) s ch a b = (s', r'') \<Longrightarrow>
      grown (events c s) (events c s') \<and> attested c s' = attested c s"
    and leaves_read: "lawful c \<Longrightarrow> so_leaves (reader c) s ch a b = (s', Inr ls) \<Longrightarrow>
      ls = map row_hash (rows_between ch a b (events c s'))"

locale sealing = chain_reads lawful reader events attested
  for lawful :: "'c \<Rightarrow> bool" and reader :: "'c \<Rightarrow> 's chain_source"
    and events :: "'c \<Rightarrow> 's \<Rightarrow> audit_event_row list" and attested :: "'c \<Rightarrow> 's \<Rightarrow> checkpoint list" +
  fixes table :: "'c \<Rightarrow> 's checkpoint_store"
  assumes last_keep: "lawful c \<Longrightarrow> st_last_sealed (table c) s ch = (s', r) \<Longrightarrow>
      grown (events c s) (events c s') \<and> attested c s' = attested c s"
    and last_read: "lawful c \<Longrightarrow> list_all storable (attested c s) \<Longrightarrow>
      st_last_sealed (table c) s ch = (s', Inr l) \<Longrightarrow> last_of (filter (in_chain ch) (attested c s)) l"
    and put_keep: "lawful c \<Longrightarrow> st_put (table c) s cp = (s', r') \<Longrightarrow> grown (events c s) (events c s')"
    and put_refused: "lawful c \<Longrightarrow> st_put (table c) s cp = (s', Inl e) \<Longrightarrow> attested c s' = attested c s"
    and put_stored: "lawful c \<Longrightarrow> st_put (table c) s cp = (s', Inr u) \<Longrightarrow> storable cp \<Longrightarrow>
      list_all storable (attested c s) \<Longrightarrow>
      attested c s' = (if list_ex (same_place cp) (attested c s) then attested c s else attested c s @ [cp])"
    and list_keep: "lawful c \<Longrightarrow> st_list (table c) s ch = (s', r'') \<Longrightarrow>
      grown (events c s) (events c s') \<and> attested c s' = attested c s"
    and list_read: "lawful c \<Longrightarrow> st_list (table c) s ch = (s', Inr cps) \<Longrightarrow>
      cps = sort_key (\<lambda>cp. cb_seq_to (cp_body cp)) (filter (in_chain ch) (attested c s))"

section \<open>Gapless rows\<close>

lemma filter_indices:
  assumes "\<And>i. i < length xs \<Longrightarrow> Q (xs ! i) \<longleftrightarrow> k \<le> i \<and> i < h" "k \<le> h" "h \<le> length xs"
  shows "filter Q xs = take (h - k) (drop k xs)"
proof -
  have "xs = take k xs @ take (h - k) (drop k xs) @ drop h xs"
    using assms(2) by (metis append_take_drop_id drop_drop le_add_diff_inverse2)
  moreover have "filter Q (take k xs) = []" using assms by (auto simp: filter_empty_conv in_set_conv_nth)
  moreover have "filter Q (drop h xs) = []" using assms by (auto simp: filter_empty_conv in_set_conv_nth)
  moreover have "filter Q (take (h - k) (drop k xs)) = take (h - k) (drop k xs)"
    using assms by (auto simp: filter_id_conv in_set_conv_nth)
  ultimately show ?thesis by (metis append_Nil append_Nil2 filter_append)
qed

lemma numberedD:
  assumes "numbered rows" "i < length (chain_rows c rows)"
  shows "unat (r_seq (chain_rows c rows ! i)) = Suc i"
proof -
  let ?xs = "chain_rows c rows"
  have "map r_seq ?xs ! i = map of_nat [1..<Suc (length ?xs)] ! i"
    using assms(1) by (simp only: numbered_def)
  then have "r_seq (?xs ! i) = of_nat (Suc i)" using assms(2) by (simp add: nth_append del: upt_Suc)
  moreover have "length ?xs < 2 ^ 63" using assms(1) by (simp add: numbered_def)
  ultimately show ?thesis using unat_of_nat64 [of "Suc i"] assms(2) by simp
qed

lemma numbered_length: "numbered rows \<Longrightarrow> length (chain_rows c rows) < 2 ^ 63"
  by (simp add: numbered_def)

lemma grown_refl [simp]: "grown rows rows"
  by (simp add: grown_def)

lemma grown_trans: "grown a b \<Longrightarrow> grown b c \<Longrightarrow> grown a c"
  by (auto simp: grown_def)

lemma grown_chain:
  assumes "grown rows rows'"
  obtains new where "chain_rows c rows' = chain_rows c rows @ new"
  using assms by (auto simp: grown_def chain_rows_def)

lemma max_seq_numbered:
  assumes "numbered rows" "max_seq (chain_rows c rows) h"
  shows "h = (if chain_rows c rows = [] then None else Some (of_nat (length (chain_rows c rows))))"
proof (cases "chain_rows c rows = []")
  case True
  then show ?thesis using assms(2) by (auto simp: max_seq_def split: option.splits)
next
  case False
  let ?xs = "chain_rows c rows"
  let ?n = "length ?xs"
  have n: "0 < ?n" "?n < 2 ^ 63" using False numbered_length [OF assms(1)] by simp_all
  have last: "unat (r_seq (?xs ! (?n - 1))) = ?n" using numberedD [OF assms(1), of "?n - 1" c] n by simp
  show ?thesis
  proof (cases h)
    case None
    then have "r_seq (?xs ! (?n - 1)) = 0" using assms(2) n(1) by (simp add: max_seq_def)
    then show ?thesis using last n(1) by simp
  next
    case (Some q)
    obtain i where i: "i < ?n" "r_seq (?xs ! i) = q"
      using assms(2) Some by (auto simp: max_seq_def in_set_conv_nth)
    have "r_seq (?xs ! (?n - 1)) \<le> q" using assms(2) Some n(1) by (simp add: max_seq_def)
    then have "?n \<le> unat q" using last by (simp add: word_le_nat_alt)
    moreover have "unat q \<le> ?n" using i numberedD [OF assms(1) i(1)] by simp
    ultimately have "unat q = ?n" by simp
    then have "q = of_nat ?n" by (metis of_nat_unat ucast_id)
    then show ?thesis using Some False by simp
  qed
qed

lemma rows_between_numbered:
  assumes "numbered rows" "k \<le> h" "h \<le> length (chain_rows c rows)"
  shows "rows_between c (of_nat k + 1) (of_nat h) rows = take (h - k) (drop k (chain_rows c rows))"
proof -
  let ?xs = "chain_rows c rows"
  have n: "length ?xs < 2 ^ 63" using numbered_length [OF assms(1)] .
  have "filter (\<lambda>x. of_nat k + 1 \<le> r_seq x \<and> r_seq x \<le> of_nat h) ?xs = take (h - k) (drop k ?xs)"
  proof (rule filter_indices)
    fix i assume i: "i < length ?xs"
    have "unat (of_nat k + 1 :: u64) = Suc k" "unat (of_nat h :: u64) = h"
      using unat_of_nat64 [of "Suc k"] unat_of_nat64 [of h] assms(2,3) n by (simp_all add: add.commute)
    then show "of_nat k + 1 \<le> r_seq (?xs ! i) \<and> r_seq (?xs ! i) \<le> of_nat h \<longleftrightarrow> k \<le> i \<and> i < h"
      using numberedD [OF assms(1) i] by (auto simp: word_le_nat_alt)
  qed (use assms in auto)
  moreover have "sorted (map r_seq (take (h - k) (drop k ?xs)))"
    unfolding sorted_iff_nth_mono
  proof (intro allI impI)
    fix i j assume ij: "i \<le> j" "j < length (map r_seq (take (h - k) (drop k ?xs)))"
    then have "k + i < length ?xs" "k + j < length ?xs" by auto
    then show "map r_seq (take (h - k) (drop k ?xs)) ! i \<le> map r_seq (take (h - k) (drop k ?xs)) ! j"
      using numberedD [OF assms(1), of "k + i" c] numberedD [OF assms(1), of "k + j" c] ij
      by (simp add: word_le_nat_alt)
  qed
  ultimately show ?thesis by (simp add: rows_between_def sort_key_id_if_sorted)
qed

section \<open>Sealed chains\<close>

text \<open>
  The abstract state of the checkpoints of a chain: they cut its events, from position \<open>n + 1\<close> on,
  into ranges without a gap or an overlap, each signed over the tree of its events' hashes.
\<close>

fun seals :: "canon_prims \<Rightarrow> ed25519 \<Rightarrow> checkpoint_signer \<Rightarrow> nat \<Rightarrow> hash32 list \<Rightarrow> checkpoint list \<Rightarrow> bool" where
  "seals P E k n hs [] \<longleftrightarrow> n \<le> length hs"
| "seals P E k n hs (cp # cps) \<longleftrightarrow>
     (let b = cp_body cp; m = unat (cb_seq_to b) in
      n < m \<and> m \<le> length hs \<and> cb_seq_from b = of_nat n + 1 \<and>
      cb_root_hash b = tree_root (digest P) (take (m - n) (drop n hs)) \<and>
      cp_key_id cp = cs_key_id k \<and> verify_checkpoint P E cp (verifying_key E k) = Ok () \<and>
      seals P E k m hs cps)"

definition sealed_from :: "nat \<Rightarrow> checkpoint list \<Rightarrow> nat" where
  "sealed_from n cps = (if cps = [] then n else unat (cb_seq_to (cp_body (last cps))))"

definition sealed_to :: "chain_id \<Rightarrow> checkpoint list \<Rightarrow> nat" where
  "sealed_to c cps = sealed_from 0 (filter (in_chain c) cps)"

lemma sealed_from_simps [simp]:
  "sealed_from n [] = n" "sealed_from n (cp # cps) = sealed_from (unat (cb_seq_to (cp_body cp))) cps"
  "sealed_from n (cps @ [cp]) = unat (cb_seq_to (cp_body cp))"
  by (simp_all add: sealed_from_def)

lemma seals_hashes: "seals P E k n hs cps \<Longrightarrow> seals P E k n (hs @ new) cps"
  by (induction cps arbitrary: n) (auto simp: Let_def)

lemma seals_snoc:
  "seals P E k n hs (cps @ [cp]) \<longleftrightarrow> seals P E k n hs cps \<and> seals P E k (sealed_from n cps) hs [cp]"
  by (induction cps arbitrary: n) (auto simp: Let_def)

lemma seals_bounds:
  "seals P E k n hs cps \<Longrightarrow> n \<le> sealed_from n cps \<and> sealed_from n cps \<le> length hs \<and>
    (\<forall>cp \<in> set cps. n < unat (cb_seq_to (cp_body cp)) \<and> unat (cb_seq_to (cp_body cp)) \<le> sealed_from n cps)"
  by (induction cps arbitrary: n) (fastforce simp: Let_def)+

lemma last_of_seals:
  assumes "seals P E k 0 hs cps" "last_of cps l"
  shows "(case l of None \<Rightarrow> 1 | Some (seq, _) \<Rightarrow> seq + 1) = of_nat (sealed_from 0 cps) + 1 \<and>
    (l = None \<longleftrightarrow> cps = [])"
proof (cases l)
  case None
  then show ?thesis using assms(2) by (simp add: last_of_def)
next
  case (Some qa)
  obtain q at where qa: "qa = (q, at)" by fastforce
  obtain cp where cp: "cp \<in> set cps" "cb_seq_to (cp_body cp) = q"
      "\<forall>cp \<in> set cps. cb_seq_to (cp_body cp) \<le> q"
    using assms(2) Some qa by (auto simp: last_of_def)
  then have ne: "cps \<noteq> []" by auto
  then have "unat (cb_seq_to (cp_body (last cps))) \<le> unat q" using cp(3) by (simp add: word_le_nat_alt)
  moreover have "unat q \<le> sealed_from 0 cps" using seals_bounds [OF assms(1)] cp by auto
  ultimately have "unat q = sealed_from 0 cps" using ne by (simp add: sealed_from_def)
  then have "q = of_nat (sealed_from 0 cps)" by (metis of_nat_unat ucast_id)
  then show ?thesis using Some qa ne by simp
qed

text \<open>The state of the two databases as far as sealing is concerned.\<close>

definition sealed_state ::
    "canon_prims \<Rightarrow> ed25519 \<Rightarrow> checkpoint_signer \<Rightarrow> audit_event_row list \<Rightarrow> checkpoint list \<Rightarrow> bool" where
  "sealed_state P E k rows cps \<longleftrightarrow> numbered rows \<and> list_all storable cps \<and>
     (\<forall>c. seals P E k 0 (map row_hash (chain_rows c rows)) (filter (in_chain c) cps))"

lemma sealed_state_grown:
  assumes "sealed_state P E k rows cps" "grown rows rows'"
  shows "sealed_state P E k rows' cps"
  unfolding sealed_state_def
proof (intro conjI allI)
  show "numbered rows'" using assms by (simp add: sealed_state_def grown_def)
  fix c
  obtain new where "chain_rows c rows' = chain_rows c rows @ new" using grown_chain [OF assms(2)] .
  then show "seals P E k 0 (map row_hash (chain_rows c rows')) (filter (in_chain c) cps)"
    using assms(1) by (simp add: sealed_state_def seals_hashes)
qed (use assms(1) in \<open>simp add: sealed_state_def\<close>)

section \<open>A tick\<close>

definition signer_lawful :: "ed25519 \<Rightarrow> ('s \<Rightarrow> timestamp) \<Rightarrow> checkpoint_signer \<Rightarrow> bool" where
  "signer_lawful E clock k \<longleftrightarrow> signs_for E (cs_key k) \<and> (\<forall>m. length (ed_sign E (cs_key k) m) = 64) \<and>
     (\<forall>s. i64_min \<le> clock s \<and> clock s \<le> i64_max)"

lemma sealed_checkpoint:
  assumes "seal_range P E k t y (of_nat n + 1) leaves now = Inr cp" "signs_for E (cs_key k)"
    and "\<forall>m. length (ed_sign E (cs_key k) m) = 64" "i64_min \<le> now \<and> now \<le> i64_max"
    and "leaves = take (h - n) (drop n hs)" "n < h" "h \<le> length hs" "length hs < 2 ^ 63"
  shows "seals P E k n hs [cp] \<and> storable cp \<and> unat (cb_seq_to (cp_body cp)) = h \<and>
    cb_tenant_id (cp_body cp) = t \<and> cb_system_id (cp_body cp) = y"
proof -
  let ?b = "\<lparr>cb_tenant_id = t, cb_system_id = y, cb_seq_from = of_nat n + 1,
    cb_seq_to = of_nat n + 1 + of_nat (length leaves) - 1, cb_root_hash = tree_root (digest P) leaves,
    cb_built_at = now, cb_canon_version = CANON_VERSION\<rparr>"
  have sg: "sign P E k ?b = Inr cp" using assms(1) by (simp add: seal_range_eq_Inr)
  note b = sign_body [OF sg]
  have len: "length leaves = h - n" using assms(5-7) by simp
  have "of_nat n + of_nat (h - n) = (of_nat h :: u64)" using assms(6) by (metis less_imp_le_nat of_nat_add le_add_diff_inverse)
  then have to: "cb_seq_to (cp_body cp) = of_nat h" by (simp add: b len)
  have h: "unat (of_nat h :: u64) = h" "unat (of_nat n + 1 :: u64) = Suc n"
    using unat_of_nat64 [of h] unat_of_nat64 [of "Suc n"] assms(6-8) by (simp_all add: add.commute)
  have "cp_signature cp = ed_sign E (cs_key k) m \<Longrightarrow> length (cp_signature cp) = 64" for m
    using assms(3) by simp
  then have sig: "length (cp_signature cp) = 64" "cp_key_id cp = cs_key_id k"
    using sg by (auto simp: sign_def and_then_eq_Inr)
  have "verify_checkpoint P E cp (verifying_key E k) = Ok ()" using sign_verifies [OF sg assms(2)] .
  moreover have "cb_root_hash (cp_body cp) = tree_root (digest P) (take (h - n) (drop n hs))"
    using b assms(5) by simp
  moreover have "cb_seq_from (cp_body cp) = of_nat n + 1" "cb_built_at (cp_body cp) = now" using b by simp_all
  ultimately show ?thesis
    using to h sig assms(4,6-8) b by (simp add: storable_def Let_def)
qed

lemma sealed_state_put:
  assumes "sealed_state P E k rows cps" "seals P E k (sealed_to c cps) (map row_hash (chain_rows c rows)) [cp]"
    and "storable cp" "in_chain c cp"
  shows "sealed_state P E k rows (cps @ [cp])" "\<not> list_ex (same_place cp) cps"
proof -
  have s: "seals P E k 0 (map row_hash (chain_rows ch rows)) (filter (in_chain ch) cps)" for ch
    using assms(1) by (simp add: sealed_state_def)
  show "sealed_state P E k rows (cps @ [cp])"
    unfolding sealed_state_def
  proof (intro conjI allI)
    fix ch
    show "seals P E k 0 (map row_hash (chain_rows ch rows)) (filter (in_chain ch) (cps @ [cp]))"
    proof (cases "in_chain ch cp")
      case True
      then have "ch = c" using assms(4) by (cases c; cases ch) (simp add: in_chain_def)
      then show ?thesis using s [of c] assms(2,4) seals_snoc by (simp add: sealed_to_def)
    qed (use s [of ch] in simp)
  qed (use assms in \<open>simp_all add: sealed_state_def\<close>)
  show "\<not> list_ex (same_place cp) cps"
  proof
    assume "list_ex (same_place cp) cps"
    then obtain old where old: "old \<in> set cps" "same_place cp old" by (auto simp: list_ex_iff)
    then have "old \<in> set (filter (in_chain c) cps)" using assms(4) by (simp add: same_place_def in_chain_def)
    then have "unat (cb_seq_to (cp_body old)) \<le> sealed_to c cps"
      using seals_bounds [OF s [of c]] by (simp add: sealed_to_def)
    then show False using old(2) assms(2) by (simp add: same_place_def Let_def)
  qed
qed

text \<open>What a step of the loop leaves: the state stays sealed, and the chain's lag is accounted for.\<close>

definition tick_effect ::
    "canon_prims \<Rightarrow> ed25519 \<Rightarrow> checkpoint_signer \<Rightarrow> audit_event_row list \<Rightarrow> checkpoint list \<Rightarrow>
      audit_event_row list \<Rightarrow> checkpoint list \<Rightarrow> bool" where
  "tick_effect P E k rows cps rows' cps' \<longleftrightarrow> sealed_state P E k rows' cps' \<and> grown rows rows' \<and>
     (\<exists>new. cps' = cps @ new)"

definition lag_ok :: "u64 \<Rightarrow> nat \<Rightarrow> nat \<Rightarrow> seal_report \<Rightarrow> seal_report \<Rightarrow> bool" where
  "lag_ok n len done before after \<longleftrightarrow> se_max_lag before \<le> se_max_lag after \<and>
     (se_max_lag after = se_max_lag before \<or> se_max_lag after < n) \<and>
     len \<le> done + unat (se_max_lag after)"

lemma tick_effectI:
  "sealed_state P E k rows cps \<Longrightarrow> grown rows rows' \<Longrightarrow> tick_effect P E k rows cps rows' cps"
  by (simp add: tick_effect_def sealed_state_grown)

lemma position_words:
  assumes "m \<le> n" "n < 2 ^ 63"
  shows "(of_nat m + 1 > (of_nat n :: u64)) \<longleftrightarrow> m = n"
    and "(of_nat n :: u64) - (of_nat m + 1) + 1 = of_nat (n - m)"
    and "unat (of_nat (n - m) :: u64) = n - m"
proof -
  have "unat (of_nat m + 1 :: u64) = Suc m" "unat (of_nat n :: u64) = n"
    using unat_of_nat64 [of "Suc m"] unat_of_nat64 [of n] assms by (simp_all add: add.commute)
  then show "(of_nat m + 1 > (of_nat n :: u64)) \<longleftrightarrow> m = n"
    using assms by (auto simp: word_less_nat_alt)
  show "(of_nat n :: u64) - (of_nat m + 1) + 1 = of_nat (n - m)" using assms by (simp add: of_nat_diff)
  show "unat (of_nat (n - m) :: u64) = n - m" using unat_of_nat64 [of "n - m"] assms by simp
qed

lemma lag_ok_max:
  assumes "len \<le> n" "unat w = n - m" "w < every" "se_max_lag after = max (se_max_lag before) w"
  shows "lag_ok every len m before after"
proof (cases "se_max_lag before \<le> w")
  case True
  then show ?thesis using assms by (simp add: lag_ok_def max_def)
next
  case False
  then have "unat w \<le> unat (se_max_lag before)" by (simp add: word_le_nat_alt)
  then show ?thesis using False assms by (simp add: lag_ok_def max_def)
qed

lemma tick_effect_trans:
  "tick_effect P E k r0 c0 r1 c1 \<Longrightarrow> tick_effect P E k r1 c1 r2 c2 \<Longrightarrow> tick_effect P E k r0 c0 r2 c2"
  unfolding tick_effect_def by (metis append.assoc grown_trans)

lemma sealed_to_mono:
  assumes "tick_effect P E k rows cps rows' cps'"
  shows "sealed_to c cps \<le> sealed_to c cps'"
proof -
  obtain new where "cps' = cps @ new" using assms by (auto simp: tick_effect_def)
  then have new: "filter (in_chain c) cps' = filter (in_chain c) cps @ filter (in_chain c) new" by simp
  have "seals P E k 0 (map row_hash (chain_rows c rows')) (filter (in_chain c) cps')"
    using assms by (simp add: tick_effect_def sealed_state_def)
  note bounds = seals_bounds [OF this]
  show ?thesis
  proof (cases "filter (in_chain c) cps = []")
    case False
    then have "last (filter (in_chain c) cps) \<in> set (filter (in_chain c) cps')"
      unfolding new by (metis Un_iff last_in_set set_append)
    then have "unat (cb_seq_to (cp_body (last (filter (in_chain c) cps)))) \<le> sealed_to c cps'"
      using bounds unfolding sealed_to_def by blast
    then show ?thesis unfolding sealed_to_def [of c cps] sealed_from_def using False by simp
  qed (simp add: sealed_to_def)
qed

lemma chain_rows_mono: "grown rows rows' \<Longrightarrow> length (chain_rows c rows) \<le> length (chain_rows c rows')"
  by (auto simp: grown_def chain_rows_def)

context sealing begin

lemma seal_pending_ok:
  assumes c: "lawful c" and k: "kp_source k = reader c" "kp_store k = table c"
    and signer: "signer_lawful E clock (kp_signer k)"
    and st: "sealed_state P E (kp_signer k) (events c s) (attested c s)"
    and run: "seal_pending P E clock k s report ch (of_nat m + 1) (of_nat n) (of_nat (n - m)) = (s', r)"
    and m: "m = sealed_to ch (attested c s)" and n: "m < n" "n \<le> length (chain_rows ch (events c s))"
  shows "tick_effect P E (kp_signer k) (events c s) (attested c s) (events c s') (attested c s') \<and>
    (\<forall>report'. r = Inr report' \<longrightarrow>
      se_max_lag report' = se_max_lag report \<and> sealed_to ch (attested c s') = n)"
proof -
  obtain s1 r1 where l: "so_leaves (reader c) s ch (of_nat m + 1) (of_nat n) = (s1, r1)" by fastforce
  note keep = leaves_keep [OF c l]
  have st1: "sealed_state P E (kp_signer k) (events c s1) (attested c s)"
    using sealed_state_grown [OF st] keep by simp
  show ?thesis
  proof (cases r1)
    case (Inl e)
    then show ?thesis using run l k st keep by (auto simp: seal_pending_def tick_effectI)
  next
    case (Inr leaves)
    obtain new where new: "chain_rows ch (events c s1) = chain_rows ch (events c s) @ new"
      using grown_chain keep by blast
    have "leaves = map row_hash (rows_between ch (of_nat m + 1) (of_nat n) (events c s1))"
      using leaves_read [OF c l [unfolded Inr]] .
    also have "\<dots> = take (n - m) (drop m (map row_hash (chain_rows ch (events c s1))))"
      using rows_between_numbered [of "events c s1" m n ch] st1 n new
      by (simp add: sealed_state_def take_map drop_map)
    finally have leaves: "leaves = take (n - m) (drop m (map row_hash (chain_rows ch (events c s1))))" .
    then have len: "length leaves = n - m" using n new by simp
    show ?thesis
    proof (cases "seal_range P E (kp_signer k) (cid_tenant_id ch) (cid_system_id ch) (of_nat m + 1) leaves (clock s1)")
      case (Inl e)
      then show ?thesis using run l k st keep \<open>r1 = Inr leaves\<close> len
        by (auto simp: seal_pending_def tick_effectI)
    next
      case cp: (Inr cp)
      have n1: "n \<le> length (map row_hash (chain_rows ch (events c s1)))" using n new by simp
      have "length (map row_hash (chain_rows ch (events c s1))) < 2 ^ 63"
        using st1 numbered_length by (simp add: sealed_state_def)
      from sealed_checkpoint [OF cp _ _ _ leaves n(1) n1 this]
      have one: "seals P E (kp_signer k) m (map row_hash (chain_rows ch (events c s1))) [cp]" "storable cp"
        "unat (cb_seq_to (cp_body cp)) = n" "in_chain ch cp"
        using signer by (auto simp: signer_lawful_def in_chain_def)
      note put = sealed_state_put [OF st1 one(1) [unfolded m] one(2,4)]
      obtain s2 r2 where p: "st_put (table c) s1 cp = (s2, r2)" by fastforce
      have g2: "grown (events c s) (events c s2)" "grown (events c s1) (events c s2)"
        using put_keep [OF c p] keep grown_trans by blast+
      show ?thesis
      proof (cases r2)
        case (Inl e)
        then have "attested c s2 = attested c s" using put_refused [OF c] p keep by simp
        then show ?thesis using run l k st g2 \<open>r1 = Inr leaves\<close> len cp p Inl
          by (auto simp: seal_pending_def tick_effectI)
      next
        case (Inr u)
        have "list_all storable (attested c s1)" using st1 keep by (simp add: sealed_state_def)
        then have at2: "attested c s2 = attested c s @ [cp]"
          using put_stored [OF c p [unfolded Inr] one(2)] put(2) keep by simp
        have "sealed_state P E (kp_signer k) (events c s2) (attested c s2)"
          using sealed_state_grown [OF put(1) g2(2)] at2 by simp
        moreover have "sealed_to ch (attested c s2) = n"
          using at2 one(3,4) by (simp add: sealed_to_def)
        ultimately show ?thesis using run l k g2(1) \<open>r1 = Inr leaves\<close> len cp p Inr at2
          by (auto simp: seal_pending_def tick_effect_def)
      qed
    qed
  qed
qed

lemma tick_one_ok:
  assumes c: "lawful c" and k: "kp_source k = reader c" "kp_store k = table c"
    and signer: "signer_lawful E clock (kp_signer k)"
    and st: "sealed_state P E (kp_signer k) (events c s) (attested c s)"
    and run: "tick_one P E clock k now s report ch = (s', r)"
  shows "tick_effect P E (kp_signer k) (events c s) (attested c s) (events c s') (attested c s') \<and>
    (\<forall>report'. r = Inr report' \<longrightarrow>
      lag_ok (kp_every_n k) (length (chain_rows ch (events c s))) (sealed_to ch (attested c s')) report report')"
proof -
  let ?S = "sealed_state P E (kp_signer k)"
  obtain s1 r1 where h: "so_head_seq (reader c) s ch = (s1, r1)" by fastforce
  note h_keep = head_keep [OF c h]
  have st1: "?S (events c s1) (attested c s)" using sealed_state_grown [OF st] h_keep by simp
  have le1: "length (chain_rows ch (events c s)) \<le> length (chain_rows ch (events c s1))"
    using h_keep grown_chain by (metis length_append le_add1)
  let ?n = "length (chain_rows ch (events c s1))"
  show ?thesis
  proof (cases r1)
    case (Inl e)
    then show ?thesis using run h k st h_keep by (auto simp: tick_one_def tick_effectI)
  next
    case (Inr head)
    have head: "head = (if chain_rows ch (events c s1) = [] then None else Some (of_nat ?n))"
      using max_seq_numbered head_read [OF c h [unfolded Inr]] st1 by (simp add: sealed_state_def)
    show ?thesis
    proof (cases "?n = 0")
      case True
      then show ?thesis using run h k st h_keep Inr head le1
        by (auto simp: tick_one_def tick_effectI lag_ok_def)
    next
      case False
      then have hd: "head = Some (of_nat ?n)" using head by auto
      obtain s2 r2 where l: "st_last_sealed (table c) s1 ch = (s2, r2)" by fastforce
      note l_keep = last_keep [OF c l]
      have at2: "attested c s2 = attested c s" using h_keep l_keep by simp
      have gr2: "grown (events c s) (events c s2)" using h_keep l_keep grown_trans by blast
      show ?thesis
      proof (cases r2)
        case (Inl e)
        then show ?thesis using run h k st at2 gr2 Inr hd l by (auto simp: tick_one_def tick_effectI)
      next
        case last: (Inr last)
        let ?m = "sealed_to ch (attested c s)" and ?hs = "map row_hash (chain_rows ch (events c s))"
        have seals: "seals P E (kp_signer k) 0 ?hs (filter (in_chain ch) (attested c s))"
          using st by (simp add: sealed_state_def)
        have lo: "last_of (filter (in_chain ch) (attested c s)) last"
          using last_read [OF c _ l [unfolded last]] st h_keep by (simp add: sealed_state_def)
        have seq_from: "(case last of None \<Rightarrow> 1 | Some (seq, _) \<Rightarrow> seq + 1) = of_nat ?m + 1"
          using last_of_seals [OF seals lo] by (simp add: sealed_to_def)
        have m: "?m \<le> length (chain_rows ch (events c s))"
          using seals_bounds [OF seals] by (simp add: sealed_to_def)
        have n: "?n < 2 ^ 63" using st1 numbered_length by (simp add: sealed_state_def)
        note w = position_words [OF order_trans [OF m le1] n]
        show ?thesis
        proof (cases "?m = ?n")
          case True
          then have "(s', r) = (s2, Inr (report\<lparr>se_chains_examined := se_chains_examined report + 1\<rparr>))"
            using run h k Inr hd l last w(1) by (simp add: tick_one_def seq_from)
          then show ?thesis using True le1 at2 gr2 st by (auto simp: tick_effectI lag_ok_def)
        next
          case less: False
          then have less: "?m < ?n" using m le1 by simp
          define due where "due \<longleftrightarrow> of_nat (?n - ?m) \<ge> kp_every_n k \<or>
            (case map_option (\<lambda>(_, at). micros_between at now) last of None \<Rightarrow> True | Some e \<Rightarrow> e \<ge> kp_every_t k)"
          let ?r = "report\<lparr>se_chains_examined := se_chains_examined report + 1\<rparr>"
          have body: "(if \<not> due
              then (s2, Inr (?r\<lparr>se_max_lag := max (se_max_lag report) (of_nat (?n - ?m))\<rparr>))
              else seal_pending P E clock k s2 ?r ch (of_nat ?m + 1) (of_nat ?n) (of_nat (?n - ?m))) = (s', r)"
            using run less w(1)
            by (simp only: tick_one_def h k l Inr hd last then_do_simps option.case Let_def seq_from w(2)
                due_def [symmetric]) (cases due; auto)
          show ?thesis
          proof (cases due)
            case False
            then have "of_nat (?n - ?m) < kp_every_n k" unfolding due_def de_Morgan_disj not_le by (rule conjunct1)
            note lag = lag_ok_max [OF le1 w(3) this, where before = report]
            have "s' = s2" "r = Inr (?r\<lparr>se_max_lag := max (se_max_lag report) (of_nat (?n - ?m))\<rparr>)"
              using body False by simp_all
            then show ?thesis using tick_effectI [OF st gr2] at2 lag by simp
          next
            case True
            have run': "seal_pending P E clock k s2 ?r ch (of_nat ?m + 1) (of_nat ?n) (of_nat (?n - ?m)) = (s', r)"
              using body True by (simp only: not_not not_True_eq_False if_False refl)
            have st2: "sealed_state P E (kp_signer k) (events c s2) (attested c s2)"
              unfolding at2 by (rule sealed_state_grown [OF st gr2])
            have "grown (events c s1) (events c s2)" using l_keep by (rule conjunct1)
            then obtain new where "chain_rows ch (events c s2) = chain_rows ch (events c s1) @ new"
              using grown_chain by blast
            then have le2: "?n \<le> length (chain_rows ch (events c s2))" by simp
            have eff: "tick_effect P E (kp_signer k) (events c s2) (attested c s2) (events c s') (attested c s') \<and>
                (\<forall>report'. r = Inr report' \<longrightarrow> se_max_lag report' = se_max_lag ?r \<and> sealed_to ch (attested c s') = ?n)"
              by (rule seal_pending_ok [OF c k signer st2 run' _ less le2]) (simp only: at2)
            then have "tick_effect P E (kp_signer k) (events c s) (attested c s) (events c s') (attested c s')"
              using eff grown_trans [OF gr2] unfolding tick_effect_def at2 by blast
            moreover have "lag_ok (kp_every_n k) (length (chain_rows ch (events c s))) ?n report report'"
              if "se_max_lag report' = se_max_lag report" for report' using le1 that by (simp add: lag_ok_def)
            ultimately show ?thesis using eff by simp
          qed
        qed
      qed
    qed
  qed
qed

lemma tick_chains_ok:
  assumes c: "lawful c" and k: "kp_source k = reader c" "kp_store k = table c"
    and signer: "signer_lawful E clock (kp_signer k)"
    and "sealed_state P E (kp_signer k) (events c s) (attested c s)"
    and "tick_chains P E clock k now s report cs = (s', r)"
  shows "tick_effect P E (kp_signer k) (events c s) (attested c s) (events c s') (attested c s') \<and>
    (\<forall>report'. r = Inr report' \<longrightarrow> se_max_lag report \<le> se_max_lag report' \<and>
      (se_max_lag report' = se_max_lag report \<or> se_max_lag report' < kp_every_n k) \<and>
      (\<forall>ch \<in> set cs. length (chain_rows ch (events c s)) \<le>
         sealed_to ch (attested c s') + unat (se_max_lag report')))"
  using assms(5,6)
proof (induction cs arbitrary: s report)
  case (Cons ch cs)
  let ?eff = "tick_effect P E (kp_signer k)"
  obtain s1 r1 where one: "tick_one P E clock k now s report ch = (s1, r1)" by fastforce
  note ok = tick_one_ok [OF c k signer Cons.prems(1) one]
  show ?case
  proof (cases r1)
    case (Inl e)
    then show ?thesis using Cons.prems(2) one ok by auto
  next
    case (Inr report1)
    have e1: "?eff (events c s) (attested c s) (events c s1) (attested c s1)"
      and l1: "lag_ok (kp_every_n k) (length (chain_rows ch (events c s))) (sealed_to ch (attested c s1)) report report1"
      using ok Inr by auto
    have st1: "sealed_state P E (kp_signer k) (events c s1) (attested c s1)" and
      g1: "grown (events c s) (events c s1)" using e1 by (simp_all add: tick_effect_def)
    have rest: "tick_chains P E clock k now s1 report1 cs = (s', r)" using Cons.prems(2) one Inr by simp
    note IH = Cons.IH [OF st1 rest]
    have e2: "?eff (events c s1) (attested c s1) (events c s') (attested c s')" using IH by blast
    show ?thesis
    proof (intro conjI allI impI ballI)
      show "?eff (events c s) (attested c s) (events c s') (attested c s')"
        using tick_effect_trans [OF e1 e2] .
      fix report' assume r: "r = Inr report'"
      then have l2: "se_max_lag report1 \<le> se_max_lag report'"
        "se_max_lag report' = se_max_lag report1 \<or> se_max_lag report' < kp_every_n k"
        "\<forall>ch \<in> set cs. length (chain_rows ch (events c s1)) \<le> sealed_to ch (attested c s') + unat (se_max_lag report')"
        using IH by auto
      show "se_max_lag report \<le> se_max_lag report'" using l1 l2(1) unfolding lag_ok_def by (blast intro: order_trans)
      show "se_max_lag report' = se_max_lag report \<or> se_max_lag report' < kp_every_n k"
        using l1 l2(2) by (auto simp: lag_ok_def)
      fix x assume x: "x \<in> set (ch # cs)"
      show "length (chain_rows x (events c s)) \<le> sealed_to x (attested c s') + unat (se_max_lag report')"
      proof (cases "x = ch")
        case True
        have "length (chain_rows ch (events c s)) \<le> sealed_to ch (attested c s1) + unat (se_max_lag report1)"
          using l1 by (simp add: lag_ok_def)
        also have "\<dots> \<le> sealed_to ch (attested c s') + unat (se_max_lag report')"
          using sealed_to_mono [OF e2] l2(1) by (intro add_mono) (simp_all add: word_le_nat_alt)
        finally show ?thesis using True by simp
      next
        case False
        then show ?thesis using x l2(3) chain_rows_mono [OF g1, of x] by (auto intro: order_trans)
      qed
    qed
  qed
qed (auto intro: tick_effectI)

lemma tick_ok:
  assumes c: "lawful c" and k: "kp_source k = reader c" "kp_store k = table c"
    and signer: "signer_lawful E clock (kp_signer k)"
    and st: "sealed_state P E (kp_signer k) (events c s) (attested c s)"
    and run: "tick P E clock k now s = (s', r)"
  shows "tick_effect P E (kp_signer k) (events c s) (attested c s) (events c s') (attested c s')"
    and "r = Inr report \<Longrightarrow> (se_max_lag report = 0 \<or> se_max_lag report < kp_every_n k) \<and>
      length (chain_rows ch (events c s)) \<le> sealed_to ch (attested c s') + unat (se_max_lag report)"
proof -
  obtain s1 r1 where read: "so_chains (reader c) s = (s1, r1)" by fastforce
  have keep: "grown (events c s) (events c s1)" "attested c s1 = attested c s"
    using chains_keep [OF c read] by simp_all
  have st1: "sealed_state P E (kp_signer k) (events c s1) (attested c s1)"
    using sealed_state_grown [OF st keep(1)] keep(2) by simp
  have e1: "tick_effect P E (kp_signer k) (events c s) (attested c s) (events c s1) (attested c s1)"
    using tick_effectI [OF st keep(1)] keep(2) by simp
  have *: "tick_effect P E (kp_signer k) (events c s) (attested c s) (events c s') (attested c s') \<and>
      (r = Inr report \<longrightarrow> (se_max_lag report = 0 \<or> se_max_lag report < kp_every_n k) \<and>
        length (chain_rows ch (events c s)) \<le> sealed_to ch (attested c s') + unat (se_max_lag report))"
  proof (cases r1)
    case (Inl e)
    then show ?thesis using run read k e1 by (auto simp: tick_def)
  next
    case (Inr cs)
    have rest: "tick_chains P E clock k now s1 empty_seal_report cs = (s', r)"
      using run read k Inr by (simp add: tick_def)
    note ok = tick_chains_ok [OF c k signer st1 rest]
    have "ch \<in> set cs \<or> chain_rows ch (events c s) = []"
      using chains_read [OF c read [unfolded Inr]] by blast
    then show ?thesis
      using ok tick_effect_trans [OF e1] chain_rows_mono [OF keep(1), of ch]
      by (auto simp: empty_seal_report_def intro: order_trans)
  qed
  then show "tick_effect P E (kp_signer k) (events c s) (attested c s) (events c s') (attested c s')"
    and "r = Inr report \<Longrightarrow> (se_max_lag report = 0 \<or> se_max_lag report < kp_every_n k) \<and>
      length (chain_rows ch (events c s)) \<le> sealed_to ch (attested c s') + unat (se_max_lag report)"
    by blast+
qed

end

section \<open>ClickHouse and Postgres\<close>

text \<open>
  What the statements promise for a view of the two databases. The events: every reading may be
  overtaken by the ingester, whose rows are appended; the answers are of the moment the call
  returns. The table of checkpoints: \<open>bigint\<close> positions that are not negative (only \<open>put\<close> writes
  there), the highest position first, an insertion that does nothing when the primary key is
  taken, and an ordered list.
\<close>

record 's control_view =
  vw_click :: "'s chains_client"
  vw_pg :: "'s pg_client"
  vw_range_err :: range_err
  vw_rows :: "'s \<Rightarrow> audit_event_row list"
  vw_table :: "'s \<Rightarrow> pg_checkpoint list"

definition row_checkpoint :: "pg_checkpoint \<Rightarrow> checkpoint" where
  "row_checkpoint r =
     \<lparr>cp_body = \<lparr>cb_tenant_id = pc_tenant_id r, cb_system_id = pc_system_id r,
        cb_seq_from = of_i64 (pc_seq_from r), cb_seq_to = of_i64 (pc_seq_to r),
        cb_root_hash = from_bytes (pc_root_hash r), cb_built_at = from_pg (pc_built_at r),
        cb_canon_version = pc_canon_version r\<rparr>,
      cp_signature = pc_signature r, cp_key_id = pc_key_id r\<rparr>"

definition view_attested :: "'s control_view \<Rightarrow> 's \<Rightarrow> checkpoint list" where
  "view_attested V s = map row_checkpoint (vw_table V s)"

definition pg_of_chain :: "chain_id \<Rightarrow> pg_checkpoint \<Rightarrow> bool" where
  "pg_of_chain c r \<longleftrightarrow> pc_tenant_id r = cid_tenant_id c \<and> pc_system_id r = cid_system_id c"

definition view_keeps :: "'s control_view \<Rightarrow> 's \<Rightarrow> 's \<Rightarrow> bool" where
  "view_keeps V s s' \<longleftrightarrow> grown (vw_rows V s) (vw_rows V s') \<and> vw_table V s' = vw_table V s"

definition chains_lawful :: "'s control_view \<Rightarrow> bool" where
  "chains_lawful V \<longleftrightarrow>
     (\<forall>s s' r. cc_chains (vw_click V) s = (s', r) \<longrightarrow> view_keeps V s s' \<and>
        (\<forall>cs. r = Inr cs \<longrightarrow> (\<forall>x \<in> set (vw_rows V s). (r_tenant_id x, r_system_id x) \<in> set cs))) \<and>
     (\<forall>s s' c r. cc_max_seq (vw_click V) s (cid_tenant_id c) (cid_system_id c) = (s', r) \<longrightarrow>
        view_keeps V s s' \<and>
        (\<forall>hs. r = Inr hs \<longrightarrow> (\<exists>h. hs = [h] \<and>
          (if chain_rows c (vw_rows V s') = [] then h = 0
           else h = Max (r_seq ` set (chain_rows c (vw_rows V s'))))))) \<and>
     (\<forall>s s' c a b r. cc_leaves (vw_click V) s (cid_tenant_id c) (cid_system_id c) a b = (s', r) \<longrightarrow>
        view_keeps V s s' \<and>
        (\<forall>ls. r = Inr ls \<longrightarrow> ls = map r_event_hash (rows_between c a b (vw_rows V s'))))"

definition table_lawful :: "'s control_view \<Rightarrow> bool" where
  "table_lawful V \<longleftrightarrow>
     (\<forall>s. \<forall>r \<in> set (vw_table V s). 0 \<le> pc_seq_to r \<and> pc_seq_to r \<le> i64_max) \<and>
     (\<forall>s s' c r. pq_last_sealed (vw_pg V) s (cid_tenant_id c) (cid_system_id c) = (s', r) \<longrightarrow>
        view_keeps V s s' \<and>
        (\<forall>l. r = Inr l \<longrightarrow> (case l of None \<Rightarrow> filter (pg_of_chain c) (vw_table V s) = []
           | Some (q, t) \<Rightarrow> \<exists>x \<in> set (filter (pg_of_chain c) (vw_table V s)). pc_seq_to x = q \<and>
               pc_built_at x = t \<and> (\<forall>y \<in> set (filter (pg_of_chain c) (vw_table V s)). pc_seq_to y \<le> q)))) \<and>
     (\<forall>s s' row r. pq_put (vw_pg V) s row = (s', r) \<longrightarrow>
        grown (vw_rows V s) (vw_rows V s') \<and>
        vw_table V s' =
          (if r \<noteq> Inr () \<or> (\<exists>x \<in> set (vw_table V s). pc_tenant_id x = pc_tenant_id row \<and>
               pc_system_id x = pc_system_id row \<and> pc_seq_to x = pc_seq_to row)
           then vw_table V s else vw_table V s @ [row])) \<and>
     (\<forall>s s' c r. pq_list (vw_pg V) s (cid_tenant_id c) (cid_system_id c) = (s', r) \<longrightarrow>
        view_keeps V s s' \<and>
        (\<forall>rs. r = Inr rs \<longrightarrow> rs = sort_key pc_seq_to (filter (pg_of_chain c) (vw_table V s))))"

definition control_lawful :: "'s control_view \<Rightarrow> bool" where
  "control_lawful V \<longleftrightarrow> chains_lawful V \<and> table_lawful V"

definition view_source :: "'s control_view \<Rightarrow> 's chain_source" where
  "view_source V = click_source (vw_click V)"

definition view_store :: "'s control_view \<Rightarrow> 's checkpoint_store" where
  "view_store V = pg_store (vw_range_err V) (vw_pg V)"

lemma view_keeps_attested: "view_keeps V s s' \<Longrightarrow>
    grown (vw_rows V s) (vw_rows V s') \<and> view_attested V s' = view_attested V s"
  by (simp add: view_keeps_def view_attested_def)

lemma max_seq_Max:
  assumes "if rows = [] then h = 0 else h = Max (r_seq ` set rows)"
  shows "max_seq rows (if h > 0 then Some h else None)"
proof (cases "rows = []")
  case False
  then have h: "h \<in> r_seq ` set rows" "\<forall>r \<in> set rows. r_seq r \<le> h"
    using assms Max_in [of "r_seq ` set rows"] by auto
  then show ?thesis using word_gt_0 [of h] by (auto simp: max_seq_def)
qed (use assms in \<open>simp add: max_seq_def\<close>)

interpretation clicks: chain_reads control_lawful view_source vw_rows view_attested
proof
  fix V :: "'a control_view" and s s' and ch :: chain_id
  assume V: "control_lawful V"
  let ?C = "vw_click V" and ?t = "cid_tenant_id ch" and ?y = "cid_system_id ch"
  note defs = view_source_def click_source_def click_chains_def click_head_seq_def click_leaves_def
  {
    obtain s1 q where q: "cc_chains ?C s = (s1, q)" by fastforce
    have law: "view_keeps V s s1"
      "q = Inr cs \<Longrightarrow> x \<in> set (vw_rows V s) \<Longrightarrow> (r_tenant_id x, r_system_id x) \<in> set cs" for cs x
      using V q unfolding control_lawful_def chains_lawful_def by blast+
    show "so_chains (view_source V) s = (s', r) \<Longrightarrow>
        grown (vw_rows V s) (vw_rows V s') \<and> view_attested V s' = view_attested V s" for r
      using q view_keeps_attested [OF law(1)] by (cases q) (auto simp: defs)
    show "so_chains (view_source V) s = (s', Inr cs) \<Longrightarrow> chain_rows ch (vw_rows V s) \<noteq> [] \<Longrightarrow> ch \<in> set cs" for cs
    proof -
      assume read: "so_chains (view_source V) s = (s', Inr cs)" and "chain_rows ch (vw_rows V s) \<noteq> []"
      then obtain x where x: "x \<in> set (vw_rows V s)" "r_tenant_id x = ?t" "r_system_id x = ?y"
        by (auto simp: chain_rows_def filter_empty_conv of_chain_def)
      obtain rows where "q = Inr rows" "cs = map (\<lambda>(t, y). \<lparr>cid_tenant_id = t, cid_system_id = y\<rparr>) rows"
        using read q by (cases q) (auto simp: defs)
      then show "ch \<in> set cs" using law(2) [of rows x] x by (cases ch) force
    qed
  next
    obtain s1 q where q: "cc_max_seq ?C s ?t ?y = (s1, q)" by fastforce
    have law: "view_keeps V s s1"
      "q = Inr hs \<Longrightarrow> \<exists>h. hs = [h] \<and> (if chain_rows ch (vw_rows V s1) = [] then h = 0
           else h = Max (r_seq ` set (chain_rows ch (vw_rows V s1))))" for hs
      using V q unfolding control_lawful_def chains_lawful_def by blast+
    show "so_head_seq (view_source V) s ch = (s', r) \<Longrightarrow>
        grown (vw_rows V s) (vw_rows V s') \<and> view_attested V s' = view_attested V s" for r
      using q view_keeps_attested [OF law(1)] by (cases q) (auto simp: defs)
    show "so_head_seq (view_source V) s ch = (s', Inr h) \<Longrightarrow> max_seq (chain_rows ch (vw_rows V s')) h" for h
    proof (cases q)
      case (Inr hs)
      assume "so_head_seq (view_source V) s ch = (s', Inr h)"
      then show "max_seq (chain_rows ch (vw_rows V s')) h"
        using q Inr law(2) [OF Inr] max_seq_Max by (auto simp: defs)
    qed (use q in \<open>auto simp: defs\<close>)
  next
    fix a b :: u64
    obtain s1 q where q: "cc_leaves ?C s ?t ?y a b = (s1, q)" by fastforce
    have law: "view_keeps V s s1"
      "q = Inr ls \<Longrightarrow> ls = map r_event_hash (rows_between ch a b (vw_rows V s1))" for ls
      using V q unfolding control_lawful_def chains_lawful_def by blast+
    show "so_leaves (view_source V) s ch a b = (s', r) \<Longrightarrow>
        grown (vw_rows V s) (vw_rows V s') \<and> view_attested V s' = view_attested V s" for r
      using q view_keeps_attested [OF law(1)] by (cases q) (auto simp: defs)
    show "so_leaves (view_source V) s ch a b = (s', Inr ls) \<Longrightarrow>
        ls = map row_hash (rows_between ch a b (vw_rows V s'))" for ls
      using q law(2) by (cases q) (auto simp: defs row_hash_def)
  }
qed

lemma in_chain_row [simp]: "in_chain c (row_checkpoint r) = pg_of_chain c r"
  by (simp add: in_chain_def row_checkpoint_def pg_of_chain_def)

lemma filter_attested: "filter (in_chain c) (view_attested V s) = map row_checkpoint (filter (pg_of_chain c) (vw_table V s))"
  by (simp add: view_attested_def filter_map comp_def)

lemma uint_of_i64: "0 \<le> i \<Longrightarrow> i \<le> i64_max \<Longrightarrow> uint (of_i64 i) = i"
  by (simp add: of_i64_def i64_max_def uint_word_of_int)

lemma of_i64_less: "0 \<le> i \<Longrightarrow> i \<le> i64_max \<Longrightarrow> 0 \<le> j \<Longrightarrow> j \<le> i64_max \<Longrightarrow> of_i64 i \<le> of_i64 j \<longleftrightarrow> i \<le> j"
  by (simp add: word_le_def uint_of_i64)

lemma of_i64_le: "0 \<le> i \<Longrightarrow> i \<le> j \<Longrightarrow> j \<le> i64_max \<Longrightarrow> of_i64 i \<le> of_i64 j"
  using of_i64_less [of i j] by simp

lemma to_i64_of_i64: "0 \<le> i \<Longrightarrow> i \<le> i64_max \<Longrightarrow> to_i64 (of_i64 i) = i"
  by (simp add: to_i64_def uint_of_i64)

lemma row_checkpoint_back:
  assumes "storable cp" "checkpoint_row e cp = Inr row"
  shows "row_checkpoint row = cp"
proof -
  let ?c = "\<lparr>cid_tenant_id = cb_tenant_id (cp_body cp), cid_system_id = cb_system_id (cp_body cp)\<rparr>"
  have row: "pc_tenant_id row = cb_tenant_id (cp_body cp)" "pc_system_id row = cb_system_id (cp_body cp)"
    using assms(2) by (auto simp: checkpoint_row_def Let_def and_then_eq_Inr)
  have "checkpoint_of_row ?c row = Inr cp"
    using checkpoint_read_back [OF assms(1) _ assms(2), of ?c] by (simp add: in_chain_def)
  then show ?thesis using row
    by (auto simp: checkpoint_of_row_def row_checkpoint_def and_then_eq_Inr pg_hash32_def split: if_splits)
qed

lemma checkpoint_of_row_eq:
  "checkpoint_of_row c r = Inr cp \<Longrightarrow> pg_of_chain c r \<Longrightarrow> cp = row_checkpoint r"
  by (auto simp: checkpoint_of_row_def row_checkpoint_def and_then_eq_Inr pg_hash32_def pg_of_chain_def
      split: if_splits)

lemma list_all2_map_eq:
  "list_all2 R xs ys \<Longrightarrow> (\<And>x y. x \<in> set xs \<Longrightarrow> R x y \<Longrightarrow> y = f x) \<Longrightarrow> ys = map f xs"
  by (induction rule: list_all2_induct) auto

lemma sort_key_mono:
  assumes "\<And>x y. x \<in> set xs \<Longrightarrow> y \<in> set xs \<Longrightarrow> f x \<le> f y \<longleftrightarrow> g x \<le> g y"
  shows "sort_key f xs = sort_key g xs"
proof -
  have ins: "insort_key f x ys = insort_key g x ys" if "x \<in> set xs" "set ys \<subseteq> set xs" for x ys
    using that assms by (induction ys) auto
  have "set ys \<subseteq> set xs \<Longrightarrow> foldr (insort_key f) ys [] = foldr (insort_key g) ys []" for ys
  proof (induction ys)
    case (Cons y ys)
    then have "set (foldr (insort_key g) ys []) \<subseteq> set xs" by (simp flip: sort_key_def)
    then show ?case using Cons ins by simp
  qed simp
  then show ?thesis by (simp add: sort_key_def)
qed

lemma sort_key_map: "sort_key f (map g xs) = map g (sort_key (\<lambda>x. f (g x)) xs)"
proof -
  have "insort_key f (g x) (map g ys) = map g (insort_key (\<lambda>x. f (g x)) x ys)" for x ys
    by (induction ys) auto
  then show ?thesis by (induction xs) auto
qed

interpretation pg: sealing control_lawful view_source vw_rows view_attested view_store
proof
  fix V :: "'a control_view" and s s' and ch :: chain_id and cp :: checkpoint
  assume V: "control_lawful V"
  let ?C = "vw_pg V" and ?t = "cid_tenant_id ch" and ?y = "cid_system_id ch"
  note defs = view_store_def pg_store_def pg_last_sealed_def pg_put_def pg_list_def
  have range: "x \<in> set (vw_table V s) \<Longrightarrow> 0 \<le> pc_seq_to x \<and> pc_seq_to x \<le> i64_max" for x s
    using V unfolding control_lawful_def table_lawful_def by blast
  {
    obtain s1 q where q: "pq_last_sealed ?C s ?t ?y = (s1, q)" by fastforce
    have law: "view_keeps V s s1"
      "q = Inr l \<Longrightarrow> (case l of None \<Rightarrow> filter (pg_of_chain ch) (vw_table V s) = []
           | Some (q, t) \<Rightarrow> \<exists>x \<in> set (filter (pg_of_chain ch) (vw_table V s)). pc_seq_to x = q \<and>
               pc_built_at x = t \<and> (\<forall>y \<in> set (filter (pg_of_chain ch) (vw_table V s)). pc_seq_to y \<le> q))" for l
      using V q unfolding control_lawful_def table_lawful_def by blast+
    show "st_last_sealed (view_store V) s ch = (s', r) \<Longrightarrow>
        grown (vw_rows V s) (vw_rows V s') \<and> view_attested V s' = view_attested V s" for r
      using q view_keeps_attested [OF law(1)] by (cases q) (auto simp: defs)
    show "st_last_sealed (view_store V) s ch = (s', Inr l) \<Longrightarrow> last_of (filter (in_chain ch) (view_attested V s)) l" for l
    proof (cases q)
      case (Inr row)
      assume "st_last_sealed (view_store V) s ch = (s', Inr l)"
      then have l: "l = map_option (\<lambda>(seq, built). (of_i64 seq, from_pg built)) row" using q Inr by (simp add: defs)
      show ?thesis
      proof (cases row)
        case None
        then show ?thesis using law(2) [OF Inr] l by (simp add: last_of_def filter_attested)
      next
        case (Some qt)
        then obtain x where x: "x \<in> set (filter (pg_of_chain ch) (vw_table V s))" "qt = (pc_seq_to x, pc_built_at x)"
            "\<forall>y \<in> set (filter (pg_of_chain ch) (vw_table V s)). pc_seq_to y \<le> pc_seq_to x"
          using law(2) [OF Inr] by auto
        have "of_i64 (pc_seq_to y) \<le> of_i64 (pc_seq_to x)" if "y \<in> set (filter (pg_of_chain ch) (vw_table V s))" for y
          using that x(1,3) range by (auto intro!: of_i64_le)
        then show ?thesis using Some x(1,2) l unfolding last_of_def filter_attested
          by (auto simp: row_checkpoint_def)
      qed
    qed (use q in \<open>auto simp: defs\<close>)
  next
    have put: "grown (vw_rows V s) (vw_rows V s')"
        "vw_table V s' =
          (if r \<noteq> Inr () \<or> (\<exists>x \<in> set (vw_table V s). pc_tenant_id x = pc_tenant_id row \<and>
               pc_system_id x = pc_system_id row \<and> pc_seq_to x = pc_seq_to row)
           then vw_table V s else vw_table V s @ [row])"
      if "pq_put ?C s row = (s', r)" for row r
      using V that unfolding control_lawful_def table_lawful_def by blast+
    show "st_put (view_store V) s cp = (s', r) \<Longrightarrow> grown (vw_rows V s) (vw_rows V s')" for r
      using put(1) by (cases "checkpoint_row (vw_range_err V) cp") (auto simp: defs do_err_eq)
    show "st_put (view_store V) s cp = (s', Inl e) \<Longrightarrow> view_attested V s' = view_attested V s" for e
    proof (cases "checkpoint_row (vw_range_err V) cp")
      case (Inr row)
      assume "st_put (view_store V) s cp = (s', Inl e)"
      then obtain q where "pq_put ?C s row = (s', q)" "map_err Db q = Inl e"
        using Inr by (auto simp: defs do_err_eq)
      moreover from this(2) have "q \<noteq> Inr ()" by auto
      ultimately have "vw_table V s' = vw_table V s" using put(2) by simp
      then show ?thesis by (simp add: view_attested_def)
    qed (auto simp: defs)
    show "view_attested V s' = (if list_ex (same_place cp) (view_attested V s) then view_attested V s
        else view_attested V s @ [cp])"
      if stored: "st_put (view_store V) s cp = (s', Inr u)" "storable cp" for u
    proof -
      obtain row q where row: "checkpoint_row (vw_range_err V) cp = Inr row"
          "pq_put ?C s row = (s', q)" "map_err Db q = Inr u"
        using stored(1) by (cases "checkpoint_row (vw_range_err V) cp") (auto simp: defs do_err_eq)
      then have q_ok: "q = Inr ()" by simp
      note back_eq = row_checkpoint_back [OF stored(2) row(1)]
      have pc: "pc_tenant_id row = cb_tenant_id (cp_body cp)" "pc_system_id row = cb_system_id (cp_body cp)"
        "pc_seq_to row = to_i64 (cb_seq_to (cp_body cp))"
        using row(1) by (auto simp: checkpoint_row_def Let_def and_then_eq_Inr)
      have "pc_seq_to x = to_i64 (cb_seq_to (cp_body cp)) \<longleftrightarrow> cb_seq_to (cp_body cp) = of_i64 (pc_seq_to x)"
        if "x \<in> set (vw_table V s)" for x
        using range [OF that] stored(2) to_i64_of_i64 [of "pc_seq_to x"] by (auto simp: storable_def)
      then have "(\<exists>x \<in> set (vw_table V s). pc_tenant_id x = pc_tenant_id row \<and>
          pc_system_id x = pc_system_id row \<and> pc_seq_to x = pc_seq_to row) \<longleftrightarrow>
          (\<exists>x \<in> set (vw_table V s). same_place cp (row_checkpoint x))"
        by (intro bex_cong refl) (auto simp: same_place_def row_checkpoint_def pc)
      also have "\<dots> \<longleftrightarrow> list_ex (same_place cp) (view_attested V s)"
        by (simp add: view_attested_def list_ex_iff)
      finally have "(\<exists>x \<in> set (vw_table V s). pc_tenant_id x = pc_tenant_id row \<and>
          pc_system_id x = pc_system_id row \<and> pc_seq_to x = pc_seq_to row) \<longleftrightarrow>
          list_ex (same_place cp) (view_attested V s)" .
      then show ?thesis using put(2) [OF row(2)] q_ok back_eq by (simp add: view_attested_def)
    qed
  next
    obtain s1 q where q: "pq_list ?C s ?t ?y = (s1, q)" by fastforce
    have law: "view_keeps V s s1"
      "q = Inr rs \<Longrightarrow> rs = sort_key pc_seq_to (filter (pg_of_chain ch) (vw_table V s))" for rs
      using V q unfolding control_lawful_def table_lawful_def by blast+
    show "st_list (view_store V) s ch = (s', r) \<Longrightarrow>
        grown (vw_rows V s) (vw_rows V s') \<and> view_attested V s' = view_attested V s" for r
      using q view_keeps_attested [OF law(1)] by (cases q) (auto simp: defs)
    show "st_list (view_store V) s ch = (s', Inr cps) \<Longrightarrow>
        cps = sort_key (\<lambda>cp. cb_seq_to (cp_body cp)) (filter (in_chain ch) (view_attested V s))" for cps
    proof (cases q)
      case (Inr rs)
      assume "st_list (view_store V) s ch = (s', Inr cps)"
      then have l2: "list_all2 (\<lambda>r cp. checkpoint_of_row ch r = Inr cp) rs cps"
        using q Inr by (simp add: defs try_map_list_all2)
      have rs: "rs = sort_key pc_seq_to (filter (pg_of_chain ch) (vw_table V s))" using law(2) [OF Inr] .
      have "cps = map row_checkpoint rs"
      proof (rule list_all2_map_eq [OF l2])
        fix x y assume "x \<in> set rs" "checkpoint_of_row ch x = Inr y"
        then show "y = row_checkpoint x" using checkpoint_of_row_eq [of ch x y] by (simp add: rs)
      qed
      also have "rs = sort_key (\<lambda>x. cb_seq_to (cp_body (row_checkpoint x))) (filter (pg_of_chain ch) (vw_table V s))"
        unfolding rs
      proof (rule sort_key_mono)
        fix x y assume "x \<in> set (filter (pg_of_chain ch) (vw_table V s))" "y \<in> set (filter (pg_of_chain ch) (vw_table V s))"
        then show "pc_seq_to x \<le> pc_seq_to y \<longleftrightarrow>
            cb_seq_to (cp_body (row_checkpoint x)) \<le> cb_seq_to (cp_body (row_checkpoint y))"
          using range [of x s] range [of y s] of_i64_less [of "pc_seq_to x" "pc_seq_to y"]
          by (simp add: row_checkpoint_def)
      qed
      finally show ?thesis unfolding filter_attested sort_key_map .
    qed (use q in \<open>auto simp: defs\<close>)
  }
qed

end
