(* ===== verification/Evidence.thy ===== *)
theory Evidence
  imports Sealer Bus Pack
begin

text \<open>
  From the databases to the auditor: what sealing guarantees over the control plane's databases,
  and that a sealed chain, exported, verifies. The instance at the end shows that the contracts
  of the databases can be met.
\<close>

section \<open>Runs of the checkpointer\<close>

text \<open>Ticks at some times, whether they fail or not.\<close>

fun run_ticks ::
    "canon_prims \<Rightarrow> ed25519 \<Rightarrow> ('s \<Rightarrow> timestamp) \<Rightarrow> 's checkpointer \<Rightarrow> timestamp list \<Rightarrow> 's \<Rightarrow> 's" where
  "run_ticks P E clock k [] s = s"
| "run_ticks P E clock k (now # nows) s = run_ticks P E clock k nows (fst (tick P E clock k now s))"

lemma run_ticks_ok:
  assumes "control_lawful V" "kp_source k = view_source V" "kp_store k = view_store V"
    and "signer_lawful E clock (kp_signer k)"
    and "sealed_state P E (kp_signer k) (vw_rows V s) (view_attested V s)"
  shows "tick_effect P E (kp_signer k) (vw_rows V s) (view_attested V s)
    (vw_rows V (run_ticks P E clock k nows s)) (view_attested V (run_ticks P E clock k nows s))"
  using assms(5)
proof (induction nows arbitrary: s)
  case Nil
  then show ?case by (simp add: tick_effectI)
next
  case (Cons now nows)
  obtain s1 r where t: "tick P E clock k now s = (s1, r)" by fastforce
  note one = pg.tick_ok(1) [OF assms(1-4) Cons.prems t]
  then have "sealed_state P E (kp_signer k) (vw_rows V s1) (view_attested V s1)"
    by (simp add: tick_effect_def)
  from tick_effect_trans [OF one Cons.IH [OF this]] t show ?case by simp
qed

lemma sealed_state_empty: "numbered rows \<Longrightarrow> sealed_state P E k rows []"
  by (simp add: sealed_state_def)

lemma store_holds_numbered:
  assumes "store_holds P base rows" "length rows < 2 ^ 63"
  shows "numbered rows"
  unfolding numbered_def
proof
  fix c
  have g: "good P (base c)" "chain_rows c rows = map row_of (base c)"
    using assms(1) by (simp_all add: store_holds_def chain_rows_def)
  have "r_seq \<circ> row_of = ae_seq" by (simp add: row_of_def Let_def fun_eq_iff)
  then have "map r_seq (chain_rows c rows) = map of_nat [1..<Suc (length (chain_rows c rows))]"
    using g by (simp add: good_def)
  moreover have "length (chain_rows c rows) \<le> length rows" by (simp add: chain_rows_def)
  ultimately show "length (chain_rows c rows) < 2 ^ 63 \<and>
      map r_seq (chain_rows c rows) = map of_nat [1..<Suc (length (chain_rows c rows))]"
    using assms(2) by simp
qed

section \<open>Attesting a sealed chain\<close>

lemma leaves_by_seq_fold:
  assumes "\<forall>e \<in> set es. event_hash P e = Inr (ae_event_hash e)"
  shows "leaves_by_seq P es = map_of (rev (map (\<lambda>e. (ae_seq e, ae_event_hash e)) es))"
  using assms unfolding leaves_by_seq_def
proof (induction es rule: rev_induct)
  case (snoc e es)
  then show ?case by simp
qed simp

lemma leaves_of_good:
  assumes "good P es" "length es < 2 ^ 63" "i < length es"
  shows "leaves_by_seq P es (of_nat (Suc i)) = Some (ae_event_hash (es ! i))"
proof -
  let ?kv = "map (\<lambda>e. (ae_seq e, ae_event_hash e)) es"
  have hash: "\<forall>e \<in> set es. event_hash P e = Inr (ae_event_hash e)"
    using assms(1) chained_in by (auto simp: good_def)
  have "inj_on (of_nat :: nat \<Rightarrow> u64) (set [1..<Suc (length es)])"
  proof (rule inj_onI)
    fix x y assume "x \<in> set [1..<Suc (length es)]" "y \<in> set [1..<Suc (length es)]" "(of_nat x :: u64) = of_nat y"
    then have "x < 2 ^ 64" "y < 2 ^ 64" "unat (of_nat x :: u64) = unat (of_nat y :: u64)"
      using assms(2) by (auto simp del: upt_Suc)
    then show "x = y" by (simp only: unat_of_nat64)
  qed
  then have "distinct (map ae_seq es)"
    using assms(1) unfolding good_def by (simp add: distinct_map del: upt_Suc)
  moreover have "map fst (rev ?kv) = rev (map ae_seq es)" by (simp add: rev_map comp_def)
  ultimately have d: "distinct (map fst (rev ?kv))" by (simp only: distinct_rev)
  have "(ae_seq (es ! i), ae_event_hash (es ! i)) \<in> set (rev ?kv)" using assms(3) by force
  from map_of_is_SomeI [OF d this] show ?thesis
    unfolding leaves_by_seq_fold [OF hash] good_nth [OF assms(1,3)] .
qed

lemma range_leaves_seq:
  assumes "good P es" "length es < 2 ^ 63" "n < m" "m \<le> length es"
    and "cb_seq_from b = of_nat n + 1" "unat (cb_seq_to b) = m"
  shows "range_leaves (leaves_by_seq P es) b = take (m - n) (drop n (map ae_event_hash es))"
    and "tree_size b = m - n"
proof -
  have n: "unat (of_nat n + 1 :: u64) = Suc n" using unat_of_nat64 [of "Suc n"] assms by (simp add: add.commute)
  have "map (leaves_by_seq P es) (seq_range (of_nat n + 1) (cb_seq_to b)) =
      map Some (take (m - n) (drop n (map ae_event_hash es)))"
    unfolding seq_range_def n assms(6)
  proof (rule nth_equalityI)
    fix i assume "i < length (map (leaves_by_seq P es) (map of_nat [Suc n..<Suc m]))"
    then have i: "n + i < m" "n + i < length es" "i < length (take (m - n) (drop n (map ae_event_hash es)))"
      using assms(4) by (auto simp del: upt_Suc)
    then show "map (leaves_by_seq P es) (map of_nat [Suc n..<Suc m]) ! i =
        map Some (take (m - n) (drop n (map ae_event_hash es))) ! i"
      using leaves_of_good [OF assms(1,2) i(2)] by (simp add: add.assoc del: upt_Suc)
  qed (use assms(4) in \<open>simp del: upt_Suc\<close>)
  then show "range_leaves (leaves_by_seq P es) b = take (m - n) (drop n (map ae_event_hash es))"
    by (simp add: range_leaves_def assms(5) collect_some_eq [THEN iffD2, OF refl])
  have "cb_seq_to b = of_nat m" using assms(6) by auto
  moreover have "(of_nat m :: u64) - (of_nat n + 1) + 1 = of_nat (m - n)" using assms(3) by (simp add: of_nat_diff)
  moreover have "(of_nat n + 1 :: u64) \<le> of_nat m" "of_nat m \<le> (of_nat n + 1 :: u64) \<Longrightarrow> m = Suc n"
    using n unat_of_nat64 [of m] assms(2-4) by (simp_all add: word_le_nat_alt)
  ultimately show "tree_size b = m - n"
    using assms(3,5) unat_of_nat64 [of "m - n"] assms(2,4)
    by (auto simp: tree_size_def saturating_sub_def)
qed

lemma sealed_attested:
  assumes "seals P E k n (map ae_event_hash es) cps" "good P es" "length es < 2 ^ 63"
    and "trusted (cs_key_id k) = Some (verifying_key E k)" "cp \<in> set cps"
  shows "attest_one P E cp (leaves_by_seq P es) trusted = Verified (cs_key_id k)"
  using assms(1,5)
proof (induction cps arbitrary: n)
  case (Cons c cps)
  let ?m = "unat (cb_seq_to (cp_body c))"
  have c: "n < ?m" "?m \<le> length es" "cb_seq_from (cp_body c) = of_nat n + 1"
      "cb_root_hash (cp_body c) = tree_root (digest P) (take (?m - n) (drop n (map ae_event_hash es)))"
      "cp_key_id c = cs_key_id k" "verify_checkpoint P E c (verifying_key E k) = Ok ()"
    and rest: "seals P E k ?m (map ae_event_hash es) cps"
    using Cons.prems(1) by (simp_all add: Let_def)
  show ?case
  proof (cases "cp = c")
    case True
    have "length (take (?m - n) (drop n (map ae_event_hash es))) = ?m - n" using c(1,2) by simp
    then show ?thesis
      using True c(4-6) assms(4) range_leaves_seq [OF assms(2,3) c(1,2,3) refl]
      by (simp add: attest_one_def Let_def)
  next
    case False
    then show ?thesis using Cons.IH [OF rest] Cons.prems(2) by simp
  qed
qed simp

text \<open>Together the ranges cover all positions up to the last.\<close>

lemma seals_cover:
  assumes "seals P E k n hs cps" "length hs < 2 ^ 63"
  shows "(\<exists>cp \<in> set cps. cb_seq_from (cp_body cp) \<le> s \<and> s \<le> cb_seq_to (cp_body cp)) \<longleftrightarrow>
    n < unat s \<and> unat s \<le> sealed_from n cps"
  using assms(1)
proof (induction cps arbitrary: n)
  case (Cons c cps)
  let ?m = "unat (cb_seq_to (cp_body c))"
  have c: "n < ?m" "?m \<le> length hs" "cb_seq_from (cp_body c) = of_nat n + 1"
    and rest: "seals P E k ?m hs cps" using Cons.prems by (simp_all add: Let_def)
  have n: "unat (of_nat n + 1 :: u64) = Suc n"
    using unat_of_nat64 [of "Suc n"] assms(2) c by (simp add: add.commute)
  have "cb_seq_from (cp_body c) \<le> s \<and> s \<le> cb_seq_to (cp_body c) \<longleftrightarrow> n < unat s \<and> unat s \<le> ?m"
    using n c(3) by (simp add: word_le_nat_alt Suc_le_eq)
  moreover have "?m \<le> sealed_from ?m cps" using seals_bounds [OF rest] by simp
  ultimately show ?case using Cons.IH [OF rest] c(1) by auto
qed simp

lemma good_stored: "good P (map stored_form es) = good P es"
  by (simp add: good_def comp_def)

lemma sealed_chain_attests:
  assumes "seals P E k 0 (map ae_event_hash es) cps" "good P es" "length es < 2 ^ 63"
    and "trusted (cs_key_id k) = Some (verifying_key E k)"
    and "pa_events p = es" "pa_checkpoints p = cps"
  shows "list_all is_verified (attest P E p trusted) \<and>
    (within s (attested_runs (attest P E p trusted)) \<longleftrightarrow> 0 < unat s \<and> unat s \<le> sealed_from 0 cps)"
proof -
  have all: "attest P E p trusted = map (\<lambda>cp. \<lparr>vd_seq_from = cb_seq_from (cp_body cp),
      vd_seq_to = cb_seq_to (cp_body cp), vd_root_hash = cb_root_hash (cp_body cp),
      vd_attestation = Verified (cs_key_id k)\<rparr>) cps"
    using sealed_attested [where trusted = trusted, OF assms(1-4)] assms(5,6) by (simp add: attest_def Let_def)
  have "list_ex (\<lambda>v. is_verified v \<and> vd_seq_from v \<le> s \<and> s \<le> vd_seq_to v) (attest P E p trusted) \<longleftrightarrow>
      (\<exists>cp \<in> set cps. cb_seq_from (cp_body cp) \<le> s \<and> s \<le> cb_seq_to (cp_body cp))"
    unfolding all by (simp add: list_ex_iff is_verified_def)
  also have "\<dots> \<longleftrightarrow> 0 < unat s \<and> unat s \<le> sealed_from 0 cps"
    using assms(3) by (intro seals_cover [OF assms(1)]) simp
  finally have "within s (attested_runs (attest P E p trusted)) \<longleftrightarrow> 0 < unat s \<and> unat s \<le> sealed_from 0 cps"
    using attested_runs_ok [OF refl, of P E p trusted s] by blast
  moreover have "list_all is_verified (attest P E p trusted)" unfolding all by (simp add: list_all_iff is_verified_def)
  ultimately show ?thesis by blast
qed

lemma sealed_pack_clean:
  assumes "seals P E k 0 (map ae_event_hash es) cps" "good P es" "length es < 2 ^ 63"
    and "trusted_keys args p (cs_key_id k) = Some (verifying_key E k)"
    and "pa_events p = es" "pa_checkpoints p = cps" "pack_anchor args p = Inr GENESIS"
  shows "run_pack P E args p =
    Ok (verify_range P es GENESIS, attest P E p (trusted_keys args p), EXIT_CLEAN)"
proof -
  have clean: "is_clean (verify_range P es GENESIS)" using assms(2) by (simp add: is_clean_iff good_def)
  then have "\<not> is_inconclusive (verify_range P es GENESIS)" by (simp add: is_clean_def is_inconclusive_def)
  moreover have "list_all is_verified (attest P E p (trusted_keys args p))"
    using sealed_chain_attests [where trusted = "trusted_keys args p", OF assms(1-6)] by blast
  then have "\<not> list_ex is_violation (attest P E p (trusted_keys args p))"
    by (auto simp: list_all_iff list_ex_iff is_verified_def is_violation_def split: attestation.splits)
  ultimately show ?thesis using clean assms(5,7) unfolding run_pack_eq_Inr by auto
qed

text \<open>A chain of a gapless store and its checkpoints in a pack.\<close>

lemma sealed_state_verifies:
  assumes "sealed_state P E k rows cps" "store_holds P base rows"
    and "pa_events p = map stored_form (base c)" "pa_checkpoints p = filter (in_chain c) cps"
    and "trusted_keys args p (cs_key_id k) = Some (verifying_key E k)"
    and "pack_anchor args p = Ok GENESIS"
  shows "\<exists>report verdicts. run_pack P E args p = Ok (report, verdicts, EXIT_CLEAN) \<and>
    list_all is_verified verdicts \<and>
    (\<forall>s. within s (attested_runs verdicts) \<longleftrightarrow> 0 < unat s \<and> unat s \<le> sealed_to c cps) \<and>
    sealed_to c cps \<le> length (base c)"
proof -
  let ?es = "map stored_form (base c)"
  have hashes: "map row_hash (chain_rows c rows) = map ae_event_hash ?es"
    using assms(2) by (simp add: store_holds_def chain_rows_def row_hash_def row_of_def Let_def)
  then have "seals P E k 0 (map ae_event_hash ?es) (filter (in_chain c) cps)"
    using assms(1) unfolding sealed_state_def by (metis (no_types))
  moreover have g: "good P ?es" using assms(2) unfolding good_stored by (simp add: store_holds_def)
  moreover have "length ?es < 2 ^ 63"
    using assms(1,2) numbered_length [of rows c] by (simp add: sealed_state_def store_holds_def chain_rows_def)
  ultimately have pre: "seals P E k 0 (map ae_event_hash ?es) (filter (in_chain c) cps)"
    "good P ?es" "length ?es < 2 ^ 63" .
  note run = sealed_pack_clean [OF pre assms(5,3,4,6)]
  have "list_all is_verified (attest P E p (trusted_keys args p))"
    "within s (attested_runs (attest P E p (trusted_keys args p))) \<longleftrightarrow> 0 < unat s \<and> unat s \<le> sealed_to c cps" for s
    using sealed_chain_attests [where trusted = "trusted_keys args p", OF pre assms(5,3,4)]
    by (simp_all add: sealed_to_def)
  moreover have "sealed_to c cps \<le> length (base c)" using seals_bounds [OF pre(1)] by (simp add: sealed_to_def)
  ultimately show ?thesis using run by blast
qed

section \<open>A concrete instance for examples\<close>

type_synonym demo_control = "audit_event_row list \<times> pg_checkpoint list"

definition demo_table :: "demo_control \<Rightarrow> pg_checkpoint list" where
  "demo_table s = filter (\<lambda>r. 0 \<le> pc_seq_to r \<and> pc_seq_to r \<le> i64_max) (snd s)"

definition demo_last :: "pg_checkpoint list \<Rightarrow> (i64 \<times> int) option" where
  "demo_last rs = (let ys = sort_key pc_seq_to rs in
     if ys = [] then None else Some (pc_seq_to (last ys), pc_built_at (last ys)))"

definition demo_put :: "demo_control \<Rightarrow> pg_checkpoint \<Rightarrow> demo_control \<times> (unit, string) result" where
  "demo_put s row =
     (if \<not> (0 \<le> pc_seq_to row \<and> pc_seq_to row \<le> i64_max) then (s, Err ''check'')
      else if list_ex (\<lambda>x. pc_tenant_id x = pc_tenant_id row \<and> pc_system_id x = pc_system_id row \<and>
           pc_seq_to x = pc_seq_to row) (demo_table s) then (s, Ok ())
      else ((fst s, snd s @ [row]), Ok ()))"

definition demo_chain :: "string \<Rightarrow> string \<Rightarrow> chain_id" where
  "demo_chain t y = \<lparr>cid_tenant_id = t, cid_system_id = y\<rparr>"

definition demo_control :: "demo_control control_view" where
  "demo_control =
     \<lparr>vw_click = \<lparr>cc_chains = (\<lambda>s. (s, Ok (map (\<lambda>x. (r_tenant_id x, r_system_id x)) (fst s)))),
        cc_max_seq = (\<lambda>s t y. (s, Ok [if chain_rows (demo_chain t y) (fst s) = [] then 0
          else Max (r_seq ` set (chain_rows (demo_chain t y) (fst s)))])),
        cc_leaves = (\<lambda>s t y a b. (s, Ok (map r_event_hash (rows_between (demo_chain t y) a b (fst s))))),
        cc_events = (\<lambda>s t y a b. (s, Ok (rows_between (demo_chain t y) a b (fst s)))),
        cc_listings = (\<lambda>s. (s, Ok [])), cc_summary = (\<lambda>s t y. (s, Ok [])), cc_counts = (\<lambda>s d t y. (s, Ok []))\<rparr>,
      vw_pg = \<lparr>pq_last_sealed = (\<lambda>s t y. (s, Ok (demo_last (filter (pg_of_chain (demo_chain t y)) (demo_table s))))),
        pq_put = demo_put,
        pq_list = (\<lambda>s t y. (s, Ok (sort_key pc_seq_to (filter (pg_of_chain (demo_chain t y)) (demo_table s)))))\<rparr>,
      vw_range_err = (\<lambda>_. None), vw_rows = fst, vw_table = demo_table\<rparr>"

lemma demo_chain_eta [simp]: "demo_chain (cid_tenant_id c) (cid_system_id c) = c" for c :: chain_id
  by (simp add: demo_chain_def)

lemma demo_chain_sel [simp]: "cid_tenant_id (demo_chain t y) = t" "cid_system_id (demo_chain t y) = y"
  by (simp_all add: demo_chain_def)

lemma demo_last_None: "demo_last rs = None \<Longrightarrow> rs = []"
  by (simp add: demo_last_def Let_def split: if_splits) (metis length_sort length_0_conv)

lemma demo_last_Some:
  assumes "demo_last rs = Some (q, t)"
  shows "\<exists>x \<in> set rs. pc_seq_to x = q \<and> pc_built_at x = t \<and> (\<forall>y \<in> set rs. pc_seq_to y \<le> q)"
proof -
  let ?l = "last (sort_key pc_seq_to rs)"
  have ne: "sort_key pc_seq_to rs \<noteq> []" "pc_seq_to ?l = q" "pc_built_at ?l = t"
    using assms by (auto simp: demo_last_def Let_def split: if_splits)
  have "?l \<in> set rs" using last_in_set [OF ne(1)] by simp
  moreover have "\<forall>y \<in> set rs. pc_seq_to y \<le> pc_seq_to ?l"
    using sorted_last_max [of pc_seq_to "sort_key pc_seq_to rs"] by simp
  ultimately show ?thesis using ne by auto
qed

lemma demo_control_lawful: "control_lawful demo_control"
proof -
  have "chains_lawful demo_control"
    unfolding chains_lawful_def demo_control_def view_keeps_def by (auto split: if_splits)
  moreover have "table_lawful demo_control"
    unfolding table_lawful_def demo_control_def view_keeps_def
    by (auto simp: demo_put_def list_ex_iff split: option.splits if_splits
        dest: demo_last_None) (auto simp: demo_table_def dest!: demo_last_Some)
  ultimately show ?thesis by (simp add: control_lawful_def)
qed

definition demo_seal_ed :: ed25519 where
  "demo_seal_ed = \<lparr>ed_public_key = (\<lambda>k. k), ed_sign = (\<lambda>k m. take 64 (k @ m @ replicate 64 0)),
     ed_read_key = (\<lambda>_. Ok ()), ed_verify = (\<lambda>k m s. s = take 64 (k @ m @ replicate 64 0))\<rparr>"

lemma demo_signer_lawful: "signer_lawful demo_seal_ed (\<lambda>_. 7) demo_signer"
  by (auto simp: signer_lawful_def signs_for_def demo_seal_ed_def i64_min_def i64_max_def)

definition demo_checkpointer :: "demo_control checkpointer" where
  "demo_checkpointer =
     with_policy (checkpointer_new (view_source demo_control) (view_store demo_control) demo_signer) 1 0"

definition demo_sealed_rows :: "audit_event_row list" where
  "demo_sealed_rows = [row_of (demo_event 1 5 GENESIS)]"

lemma demo_one_good:
  "store_holds chain_prims (\<lambda>c. if c = demo_chain ''t'' ''s'' then [demo_event 1 5 GENESIS] else []) demo_sealed_rows"
  by (auto simp: store_holds_def demo_sealed_rows_def of_chain_row_of chain_of_def demo_emitted_def
      demo_chain_def good_def)

lemma demo_ticks:
  "\<exists>cp report. tick chain_prims demo_seal_ed (\<lambda>_. 7) demo_checkpointer 9 (demo_sealed_rows, []) =
    ((demo_sealed_rows, [cp]), Ok report)"
proof -
  let ?c = "demo_chain ''t'' ''s''"
  have rows: "chain_rows ?c demo_sealed_rows = demo_sealed_rows"
    by (simp add: chain_rows_def demo_sealed_rows_def of_chain_row_of chain_of_def demo_emitted_def demo_chain_def)
  have chains: "map (\<lambda>x. (r_tenant_id x, r_system_id x)) demo_sealed_rows = [(''t'', ''s'')]"
    by (simp add: demo_sealed_rows_def row_of_def Let_def demo_emitted_def)
  have seq: "r_seq ` set demo_sealed_rows = {1}" "demo_sealed_rows \<noteq> []"
    by (simp_all add: demo_sealed_rows_def row_of_def Let_def)
  have between: "rows_between ?c 1 1 demo_sealed_rows = demo_sealed_rows"
    by (simp add: rows_between_def rows) (simp add: demo_sealed_rows_def row_of_def Let_def)
  have len: "length demo_sealed_rows = 1" by (simp add: demo_sealed_rows_def)
  let ?hs = "map (from_bytes \<circ> r_event_hash) demo_sealed_rows"
  have "?hs \<noteq> []" using seq(2) by simp
  then obtain cp where cp: "seal_range chain_prims demo_seal_ed demo_signer ''t'' ''s'' 1 ?hs 7 = Inr cp"
    using demo_body_encodes unfolding seal_range_eq_Inr sign_def and_then_eq_Inr signing_payload_eq_Inr by blast
  then have st: "storable cp"
    using sealed_checkpoint [of chain_prims demo_seal_ed demo_signer "''t''" "''s''" 0 ?hs 7 cp 1 ?hs] len
      demo_signer_lawful by (simp add: signer_lawful_def)
  obtain row where row: "checkpoint_row (\<lambda>_. None) cp = Inr row" "0 \<le> pc_seq_to row" "pc_seq_to row \<le> i64_max"
    by (simp add: checkpoint_row_def Let_def to_pg_def to_i64_def i64_max_def)
  have "demo_put (demo_sealed_rows, []) row = ((demo_sealed_rows, [row]), Ok ())"
    using row by (simp add: demo_put_def demo_table_def)
  then show ?thesis
    using cp row
    by (simp add: tick_def demo_checkpointer_def with_policy_def checkpointer_new_def view_source_def
        view_store_def demo_control_def click_source_def click_chains_def chains tick_one_def
        click_head_seq_def demo_chain_def [symmetric] rows seq pg_store_def pg_last_sealed_def demo_table_def
        demo_last_def seal_pending_def click_leaves_def between len pg_put_def)
qed

section \<open>Properties\<close>

text \<open>
  C7. The checkpoints of every chain are a signed partition of its history: over databases that
  keep their contracts, however the ticks fall and fail and however the ingester appends in between,
  the checkpoints of a chain follow each other from position one without a gap or an overlap, the
  signature of each verifies under the signer's key, and each root is the root of the hashes of
  exactly the stored events of its range.
\<close>

theorem sealing_partitions_history:
  assumes "control_lawful V" "kp_source k = view_source V" "kp_store k = view_store V"
    and "signer_lawful E clock (kp_signer k)"
    and "numbered (vw_rows V s)" "vw_table V s = []"
    and "s' = run_ticks P E clock k nows s"
  shows "seals P E (kp_signer k) 0 (map row_hash (chain_rows c (vw_rows V s')))
    (filter (in_chain c) (view_attested V s'))"
proof -
  have "sealed_state P E (kp_signer k) (vw_rows V s) (view_attested V s)"
    using sealed_state_empty [OF assms(5)] assms(6) by (simp add: view_attested_def)
  from run_ticks_ok [OF assms(1-4) this, where nows = nows] show ?thesis
    unfolding assms(7) by (simp add: tick_effect_def sealed_state_def)
qed

theorem sealing_partitions_history_witness:
  "\<exists>s' cp. s' = run_ticks chain_prims demo_seal_ed (\<lambda>_. 7) demo_checkpointer [9, 10] (demo_sealed_rows, []) \<and>
    fst (fst (tick chain_prims demo_seal_ed (\<lambda>_. 7) demo_checkpointer 9 (demo_sealed_rows, []))) = demo_sealed_rows \<and>
    snd (fst (tick chain_prims demo_seal_ed (\<lambda>_. 7) demo_checkpointer 9 (demo_sealed_rows, []))) = [cp] \<and>
    seals chain_prims demo_seal_ed demo_signer 0
      (map row_hash (chain_rows (demo_chain ''t'' ''s'') (vw_rows demo_control s')))
      (filter (in_chain (demo_chain ''t'' ''s'')) (view_attested demo_control s'))"
proof -
  have k: "kp_source demo_checkpointer = view_source demo_control"
      "kp_store demo_checkpointer = view_store demo_control" "kp_signer demo_checkpointer = demo_signer"
    by (simp_all add: demo_checkpointer_def with_policy_def checkpointer_new_def)
  have "numbered (vw_rows demo_control (demo_sealed_rows, []))"
    using store_holds_numbered [OF demo_one_good] by (simp add: demo_control_def demo_sealed_rows_def)
  moreover have "vw_table demo_control (demo_sealed_rows, []) = []" by (simp add: demo_control_def demo_table_def)
  ultimately show ?thesis
    using sealing_partitions_history [OF demo_control_lawful k(1,2) _ _ _ refl] demo_signer_lawful k(3) demo_ticks
    by (metis fst_conv snd_conv)
qed

text \<open>
  C32. A tick that succeeds leaves no chain further behind than it reports: of the events every chain
  had when the tick began, all but at most \<open>max_lag\<close> of the last are covered by its checkpoints
  afterwards, and \<open>max_lag\<close> is below the event threshold of the policy.
\<close>

theorem tick_bounds_backlog:
  assumes "control_lawful V" "kp_source k = view_source V" "kp_store k = view_store V"
    and "signer_lawful E clock (kp_signer k)"
    and "sealed_state P E (kp_signer k) (vw_rows V s) (view_attested V s)"
    and "tick P E clock k now s = (s', Ok report)"
  shows "(se_max_lag report = 0 \<or> se_max_lag report < kp_every_n k) \<and>
    length (chain_rows c (vw_rows V s)) \<le> sealed_to c (view_attested V s') + unat (se_max_lag report)"
  using pg.tick_ok(2) [OF assms refl] .

theorem tick_bounds_backlog_witness:
  "\<exists>s' report. tick chain_prims demo_seal_ed (\<lambda>_. 7) demo_checkpointer 9 (demo_sealed_rows, []) = (s', Ok report) \<and>
    length (chain_rows (demo_chain ''t'' ''s'') demo_sealed_rows) \<le>
      sealed_to (demo_chain ''t'' ''s'') (view_attested demo_control s') + unat (se_max_lag report)"
proof -
  obtain s' report where t: "tick chain_prims demo_seal_ed (\<lambda>_. 7) demo_checkpointer 9 (demo_sealed_rows, []) =
      (s', Ok report)" using demo_ticks by blast
  have k: "kp_source demo_checkpointer = view_source demo_control"
      "kp_store demo_checkpointer = view_store demo_control" "kp_signer demo_checkpointer = demo_signer"
    by (simp_all add: demo_checkpointer_def with_policy_def checkpointer_new_def)
  have "numbered demo_sealed_rows"
    using store_holds_numbered [OF demo_one_good] by (simp add: demo_sealed_rows_def)
  then have "sealed_state chain_prims demo_seal_ed (kp_signer demo_checkpointer)
      (vw_rows demo_control (demo_sealed_rows, [])) (view_attested demo_control (demo_sealed_rows, []))"
    using sealed_state_empty by (simp add: demo_control_def view_attested_def demo_table_def)
  from tick_bounds_backlog [OF demo_control_lawful k(1,2) _ this t] demo_signer_lawful k(3) t
  show ?thesis by (auto simp: demo_control_def)
qed

text \<open>
  C5. What was ingested and sealed verifies at the auditor's. From an empty checkpoint table on, the
  checkpointer ticks, failing or not, while the store grows, and then a tick succeeds. Put the
  events of a chain of the gapless store, as they are read back, and the checkpoints those ticks
  have stored for it into a pack, and let the auditor trust the signer's key (pinned, or the pack's
  own): the verifier exits with code zero, every checkpoint verifies, the attested positions are
  exactly those from one to the last one sealed, and of the events the chain had when that tick
  began all but at most its reported \<open>max_lag\<close> of the last are attested.
\<close>

theorem sealed_chain_verifies:
  assumes "control_lawful V" "kp_source k = view_source V" "kp_store k = view_store V"
    and "signer_lawful E clock (kp_signer k)"
    and "numbered (vw_rows V s0)" "vw_table V s0 = []"
    and "s = run_ticks P E clock k nows s0" "tick P E clock k now s = (s', Ok report)"
    and "store_holds P base (vw_rows V s')"
    and "pa_events p = map stored_form (base c)" "pa_checkpoints p = filter (in_chain c) (view_attested V s')"
    and "trusted_keys args p (cs_key_id (kp_signer k)) = Some (verifying_key E (kp_signer k))"
    and "pack_anchor args p = Ok GENESIS"
  shows "\<exists>checked verdicts m. run_pack P E args p = Ok (checked, verdicts, EXIT_CLEAN) \<and>
    list_all is_verified verdicts \<and>
    (\<forall>q. within q (attested_runs verdicts) \<longleftrightarrow> 0 < unat q \<and> unat q \<le> m) \<and>
    m \<le> length (base c) \<and>
    length (chain_rows c (vw_rows V s)) \<le> m + unat (se_max_lag report) \<and>
    (se_max_lag report = 0 \<or> se_max_lag report < kp_every_n k)"
proof -
  have "sealed_state P E (kp_signer k) (vw_rows V s0) (view_attested V s0)"
    using sealed_state_empty [OF assms(5)] assms(6) by (simp add: view_attested_def)
  from run_ticks_ok [OF assms(1-4) this, where nows = nows]
  have before: "sealed_state P E (kp_signer k) (vw_rows V s) (view_attested V s)"
    unfolding assms(7) by (simp add: tick_effect_def)
  have "sealed_state P E (kp_signer k) (vw_rows V s') (view_attested V s')"
    using pg.tick_ok(1) [OF assms(1-4) before assms(8)] by (simp add: tick_effect_def)
  from sealed_state_verifies [OF this assms(9-13)] pg.tick_ok(2) [OF assms(1-4) before assms(8) refl, of c]
  show ?thesis by blast
qed

theorem sealed_chain_verifies_witness:
  "\<exists>s' args p report verdicts. fst (tick chain_prims demo_seal_ed (\<lambda>_. 7) demo_checkpointer 9
      (demo_sealed_rows, [])) = s' \<and> length (snd s') = 1 \<and>
    pa_checkpoints p = filter (in_chain (demo_chain ''t'' ''s'')) (view_attested demo_control s') \<and>
    pa_events p = [stored_form (demo_event 1 5 GENESIS)] \<and>
    run_pack chain_prims demo_seal_ed args p = Ok (report, verdicts, EXIT_CLEAN) \<and>
    list_all is_verified verdicts"
proof -
  let ?c = "demo_chain ''t'' ''s''" and ?s = "(demo_sealed_rows, [] :: pg_checkpoint list)"
  have k: "kp_source demo_checkpointer = view_source demo_control"
      "kp_store demo_checkpointer = view_store demo_control" "kp_signer demo_checkpointer = demo_signer"
    by (simp_all add: demo_checkpointer_def with_policy_def checkpointer_new_def)
  obtain row report where t: "tick chain_prims demo_seal_ed (\<lambda>_. 7) demo_checkpointer 9 ?s =
      ((demo_sealed_rows, [row]), Ok report)" using demo_ticks by blast
  have numbered: "numbered (vw_rows demo_control ?s)"
    using store_holds_numbered [OF demo_one_good] by (simp add: demo_control_def demo_sealed_rows_def)
  have empty: "vw_table demo_control ?s = []" by (simp add: demo_control_def demo_table_def)
  have lawful: "signer_lawful demo_seal_ed (\<lambda>_ :: demo_control. 7) (kp_signer demo_checkpointer)"
    using demo_signer_lawful k(3) by simp
  let ?m = "\<lparr>mf_pack_version = PACK_VERSION, mf_tenant_id = ''t'', mf_system_id = ''s'',
    mf_created_at = [], mf_produced_by = [], mf_source = [], mf_seq_from = None, mf_seq_to = None,
    mf_prev_hash = None\<rparr>"
  let ?p = "\<lparr>pa_manifest = ?m, pa_events = [stored_form (demo_event 1 5 GENESIS)],
    pa_checkpoints = filter (in_chain ?c) (view_attested demo_control (demo_sealed_rows, [row])), pa_keys = []\<rparr>"
  let ?a = "\<lparr>ar_target = TargetPack ''d'', ar_from = GENESIS, ar_quiet = False,
    ar_trusted = [cs_key_id demo_signer \<mapsto> verifying_key demo_seal_ed demo_signer]\<rparr>"
  have holds: "store_holds chain_prims (\<lambda>c. if c = ?c then [demo_event 1 5 GENESIS] else [])
      (vw_rows demo_control (demo_sealed_rows, [row]))"
    using demo_one_good by (simp add: demo_control_def)
  have ticks: "?s = run_ticks chain_prims demo_seal_ed (\<lambda>_. 7) demo_checkpointer [] ?s" by simp
  have "\<exists>report verdicts. run_pack chain_prims demo_seal_ed ?a ?p = Ok (report, verdicts, EXIT_CLEAN) \<and>
      list_all is_verified verdicts"
    using sealed_chain_verifies [OF demo_control_lawful k(1,2) lawful numbered empty ticks t holds, of ?p ?c ?a] k(3)
    by (auto simp: trusted_keys_def pack_anchor_def)
  with t show ?thesis
    by (intro exI [of _ "(demo_sealed_rows, [row])"] exI [of _ ?a] exI [of _ ?p]) simp
qed

end
