(* ===== verification/Sse.thy ===== *)
theory Sse
  imports Format
begin

text \<open>
  \<open>crates/ancre-provider/src/sse.rs\<close>: the incremental splitter of event streams.

  A byte is a character. The callback's calls are the list of frames it is called with, in order.
\<close>

section \<open>Frames\<close>

record frame =
  fr_event :: "string option"
  fr_data :: string

definition is_done :: "frame \<Rightarrow> bool" where
  "is_done f \<longleftrightarrow> fr_data f = ''[DONE]''"

definition MAX_FRAME_BYTES :: usize where
  "MAX_FRAME_BYTES = 1024 * 1024"

datatype sse_error = FrameTooLarge

text \<open>\<open>from_utf8\<close>: the well-formed byte sequences of the Unicode standard.\<close>

definition cont :: "nat \<Rightarrow> bool" where
  "cont b \<longleftrightarrow> 128 \<le> b \<and> b \<le> 191"

definition utf8_step :: "nat list \<Rightarrow> nat list option" where
  "utf8_step s =
     (case s of
        [] \<Rightarrow> None
      | a # r \<Rightarrow>
          if a < 128 then Some r
          else (case r of
              [] \<Rightarrow> None
            | b # r \<Rightarrow>
                if 194 \<le> a \<and> a \<le> 223 then (if cont b then Some r else None)
                else (case r of
                    [] \<Rightarrow> None
                  | c # r \<Rightarrow>
                      if 224 \<le> a \<and> a \<le> 239 then
                        (if cont b \<and> cont c \<and> (a = 224 \<longrightarrow> 160 \<le> b) \<and> (a = 237 \<longrightarrow> b \<le> 159)
                         then Some r else None)
                      else (case r of
                          [] \<Rightarrow> None
                        | d # r \<Rightarrow>
                            if 240 \<le> a \<and> a \<le> 244 \<and> cont b \<and> cont c \<and> cont d \<and>
                               (a = 240 \<longrightarrow> 144 \<le> b) \<and> (a = 244 \<longrightarrow> b \<le> 143)
                            then Some r else None))))"

lemma utf8_step_shorter: "utf8_step s = Some r \<Longrightarrow> length r < length s"
  by (auto simp: utf8_step_def split: list.splits if_splits)

function utf8_ok :: "nat list \<Rightarrow> bool" where
  "utf8_ok s = (if s = [] then True else case utf8_step s of None \<Rightarrow> False | Some r \<Rightarrow> utf8_ok r)"
  by pat_completeness auto
termination by (relation "measure length") (auto simp: utf8_step_shorter)

declare utf8_ok.simps [simp del]

definition from_utf8 :: "string \<Rightarrow> string option" where
  "from_utf8 s = (if utf8_ok (map of_char s) then Some s else None)"

definition data_str :: "frame \<Rightarrow> string option" where
  "data_str f = from_utf8 (fr_data f)"

section \<open>Separators\<close>

abbreviation LF :: char where "LF \<equiv> CHR 0x0A"
abbreviation CR :: char where "CR \<equiv> CHR 0x0D"

text \<open>The loop of \<open>find_separator\<close> from offset \<open>i\<close> on.\<close>

fun separator_from :: "nat \<Rightarrow> string \<Rightarrow> (nat \<times> nat) option" where
  "separator_from i [] = None"
| "separator_from i (c # buf) =
     (if c = LF \<and> take 1 buf = [LF] then Some (i, 2)
      else if c = CR \<and> take 3 buf = [LF, CR, LF] then Some (i, 4)
      else separator_from (i + 1) buf)"

definition find_separator :: "string \<Rightarrow> (nat \<times> nat) option" where
  "find_separator buf = separator_from 0 buf"

lemma separator_from_bounds: "separator_from i buf = Some (a, l) \<Longrightarrow> i \<le> a \<and> 2 \<le> l \<and> a + l \<le> i + length buf"
proof (induction i buf rule: separator_from.induct)
  case (2 i c buf)
  show ?case
  proof (cases "c = LF \<and> take 1 buf = [LF]")
    case True
    then have "1 \<le> length buf" by (cases buf) auto
    then show ?thesis using True 2(2) by simp
  next
    case no: False
    show ?thesis
    proof (cases "c = CR \<and> take 3 buf = [LF, CR, LF]")
      case True
      then have "length (take 3 buf) = 3" by simp
      then have "3 \<le> length buf" by simp
      then show ?thesis using True no 2(2) by auto
    next
      case False
      then show ?thesis using no 2 by auto
    qed
  qed
qed simp

lemma find_separator_bounds: "find_separator buf = Some (a, l) \<Longrightarrow> 2 \<le> l \<and> a + l \<le> length buf"
  using separator_from_bounds [of 0 buf a l] by (simp add: find_separator_def)

section \<open>Parsing a frame\<close>

fun split_at :: "char \<Rightarrow> string \<Rightarrow> string list" where
  "split_at c [] = [[]]"
| "split_at c (x # xs) =
     (if x = c then [] # split_at c xs
      else (case split_at c xs of [] \<Rightarrow> [[x]] | y # ys \<Rightarrow> (x # y) # ys))"

definition strip_cr :: "string \<Rightarrow> string" where
  "strip_cr line = (if line \<noteq> [] \<and> last line = CR then butlast line else line)"

text \<open>One line of a frame, on what was found so far.\<close>

definition parse_line :: "string option \<times> string option \<Rightarrow> string \<Rightarrow> string option \<times> string option" where
  "parse_line acc line =
     (let line = strip_cr line; (event, data) = acc in
      if line = [] \<or> starts_with line '':'' then acc
      else if CHR '':'' \<notin> set line then acc
      else
        let field = takeWhile (\<lambda>b. b \<noteq> CHR '':'') line;
            value = drop (length field + 1) line;
            value = (if take 1 value = '' '' then drop 1 value else value)
        in if field = ''event'' then (from_utf8 value, data)
           else if field = ''data'' \<and> data = None then (event, Some value)
           else acc)"

definition parse_frame :: "string \<Rightarrow> frame option" where
  "parse_frame body =
     (case foldl parse_line (None, None) (split_at LF body) of
        (event, data) \<Rightarrow> map_option (\<lambda>d. \<lparr>fr_event = event, fr_data = d\<rparr>) data)"

definition frames_of :: "string \<Rightarrow> frame list" where
  "frames_of body = (case parse_frame body of None \<Rightarrow> [] | Some f \<Rightarrow> [f])"

section \<open>The scanner\<close>

record frame_scanner =
  fs_carry :: string

definition scanner_new :: frame_scanner where
  "scanner_new = \<lparr>fs_carry = []\<rparr>"

text \<open>The loop of the fast path: frames and what is left.\<close>

function scan_chunk :: "string \<Rightarrow> frame list \<times> string" where
  "scan_chunk rest =
     (case find_separator rest of
        None \<Rightarrow> ([], rest)
      | Some (at, sep_len) \<Rightarrow>
          (case scan_chunk (drop (at + sep_len) rest) of
             (fs, r) \<Rightarrow> (frames_of (take at rest) @ fs, r)))"
  by pat_completeness auto
termination
proof (relation "measure length")
  fix rest :: string and x at sep_len
  assume "find_separator rest = Some x" "(at, sep_len) = x"
  then have "2 \<le> sep_len" "at + sep_len \<le> length rest" using find_separator_bounds by auto
  then show "(drop (at + sep_len) rest, rest) \<in> measure length" by simp
qed simp

declare scan_chunk.simps [simp del]

text \<open>The loop of the slow path, by the bytes consumed of the carry.\<close>

function scan_carry :: "string \<Rightarrow> nat \<Rightarrow> frame list \<times> nat" where
  "scan_carry carry consumed =
     (case find_separator (drop consumed carry) of
        None \<Rightarrow> ([], consumed)
      | Some (at, sep_len) \<Rightarrow>
          (case scan_carry carry (consumed + at + sep_len) of
             (fs, n) \<Rightarrow> (frames_of (take at (drop consumed carry)) @ fs, n)))"
  by pat_completeness auto
termination
proof (relation "measure (\<lambda>(carry, n). length carry - n)")
  fix carry :: string and consumed x at sep_len
  assume "find_separator (drop consumed carry) = Some x" "(at, sep_len) = x"
  then have "2 \<le> sep_len" "at + sep_len \<le> length (drop consumed carry)"
    using find_separator_bounds [of "drop consumed carry" at sep_len] by auto
  then show "((carry, consumed + at + sep_len), carry, consumed) \<in> measure (\<lambda>(carry, n). length carry - n)"
    by simp
qed simp

declare scan_carry.simps [simp del]

definition push_carry :: "frame_scanner \<Rightarrow> string \<Rightarrow> frame_scanner \<times> (unit, sse_error) result" where
  "push_carry s bytes =
     (if length (fs_carry s) + length bytes > MAX_FRAME_BYTES
      then (s\<lparr>fs_carry := []\<rparr>, Err FrameTooLarge)
      else (s\<lparr>fs_carry := fs_carry s @ bytes\<rparr>, Ok ()))"

definition feed :: "frame_scanner \<Rightarrow> string \<Rightarrow> frame_scanner \<times> frame list \<times> (unit, sse_error) result" where
  "feed s chunk =
     (if fs_carry s = [] then
        (case scan_chunk chunk of (fs, rest) \<Rightarrow>
           case push_carry s rest of (s, r) \<Rightarrow> (s, fs, r))
      else
        let carry = fs_carry s @ chunk in
        case scan_carry carry 0 of (fs, consumed) \<Rightarrow>
          let carry = drop consumed carry in
          if length carry > MAX_FRAME_BYTES then (s\<lparr>fs_carry := []\<rparr>, fs, Err FrameTooLarge)
          else (s\<lparr>fs_carry := carry\<rparr>, fs, Ok ()))"

definition finish :: "frame_scanner \<Rightarrow> frame_scanner \<times> frame list" where
  "finish s = (s\<lparr>fs_carry := []\<rparr>, frames_of (fs_carry s))"

definition pending_bytes :: "frame_scanner \<Rightarrow> usize" where
  "pending_bytes s = length (fs_carry s)"

text \<open>A stream read in chunks, to the first error.\<close>

fun feed_all :: "frame_scanner \<Rightarrow> string list \<Rightarrow> frame_scanner \<times> frame list \<times> (unit, sse_error) result" where
  "feed_all s [] = (s, [], Ok ())"
| "feed_all s (chunk # chunks) =
     (case feed s chunk of
        (s, fs, Inl e) \<Rightarrow> (s, fs, Err e)
      | (s, fs, Inr _) \<Rightarrow> (case feed_all s chunks of (s, gs, r) \<Rightarrow> (s, fs @ gs, r)))"

section \<open>Chunks do not matter\<close>

lemma separator_from_append:
  "separator_from i xs = Some p \<Longrightarrow> separator_from i (xs @ ys) = Some p"
proof (induction i xs rule: separator_from.induct)
  case (2 i c xs)
  show ?case
  proof (cases "(c = LF \<and> take 1 xs = [LF]) \<or> (c = CR \<and> take 3 xs = [LF, CR, LF])")
    case True
    then have "take 1 (xs @ ys) = take 1 xs \<and> take 1 xs \<noteq> []" by (cases xs) auto
    moreover have "c = CR \<Longrightarrow> take 3 (xs @ ys) = take 3 xs"
      using True by (cases xs rule: remdups_adj.cases; cases "drop 2 xs") auto
    ultimately show ?thesis using True 2(2) by auto
  next
    case False
    then have found: "separator_from (i + 1) xs = Some p" using 2(2) by (simp split: if_splits)
    obtain a l where p: "p = (a, l)" by fastforce
    have len: "2 \<le> length xs" using separator_from_bounds [of "i + 1" xs a l] found p by simp
    then obtain x y zs where xs: "xs = x # y # zs" by (cases xs rule: remdups_adj.cases) auto
    have "\<not> (c = CR \<and> take 3 (xs @ ys) = [LF, CR, LF])"
    proof (cases zs)
      case Nil
      then have "x = LF \<and> y = LF" using found xs by (auto split: if_splits)
      then show ?thesis using xs by auto
    next
      case (Cons z zs')
      then show ?thesis using False xs by auto
    qed
    then show ?thesis using False 2(1) found xs by auto
  qed
qed simp

lemma find_separator_append: "find_separator xs = Some p \<Longrightarrow> find_separator (xs @ ys) = Some p"
  by (simp add: find_separator_def separator_from_append)

lemma scan_chunk_append:
  "scan_chunk (xs @ ys) =
    (case scan_chunk xs of (fs, r) \<Rightarrow> case scan_chunk (r @ ys) of (gs, q) \<Rightarrow> (fs @ gs, q))"
proof (induction xs rule: scan_chunk.induct)
  case (1 xs)
  show ?case
  proof (cases "find_separator xs")
    case None
    then show ?thesis by (simp add: scan_chunk.simps [of xs] split: prod.splits)
  next
    case (Some p)
    obtain a l where p: "p = (a, l)" by fastforce
    have le: "a + l \<le> length xs" using find_separator_bounds Some p by blast
    then have parts: "drop (a + l) (xs @ ys) = drop (a + l) xs @ ys" "take a (xs @ ys) = take a xs" by simp_all
    then have both: "scan_chunk (xs @ ys) =
        (case scan_chunk (drop (a + l) xs @ ys) of (fs, r) \<Rightarrow> (frames_of (take a xs) @ fs, r))"
      using p find_separator_append [OF Some, of ys] by (simp only: scan_chunk.simps [of "xs @ ys"] option.case prod.case parts)
    show ?thesis
      using 1 [OF Some p [symmetric]] p Some unfolding both by (simp add: scan_chunk.simps [of xs] split: prod.splits)
  qed
qed

lemma scan_carry_conv:
  "fst (scan_carry carry n) = fst (scan_chunk (drop n carry)) \<and>
    drop (snd (scan_carry carry n)) carry = snd (scan_chunk (drop n carry))"
proof (induction carry n rule: scan_carry.induct)
  case (1 carry n)
  show ?case
  proof (cases "find_separator (drop n carry)")
    case None
    then show ?thesis by (simp add: scan_carry.simps [of carry n] scan_chunk.simps [of "drop n carry"])
  next
    case (Some p)
    obtain a l where p: "p = (a, l)" by fastforce
    have "drop (a + l) (drop n carry) = drop (n + a + l) carry" by (simp add: add_ac)
    then show ?thesis
      using 1 [OF Some p [symmetric]] p Some
      by (simp add: scan_carry.simps [of carry n] scan_chunk.simps [of "drop n carry"] case_prod_unfold
          del: drop_drop)
  qed
qed

text \<open>What a chunk does, whichever path it takes.\<close>

lemma feed_eq:
  "feed s chunk =
    (case scan_chunk (fs_carry s @ chunk) of (fs, rest) \<Rightarrow>
       if length rest > MAX_FRAME_BYTES then (\<lparr>fs_carry = []\<rparr>, fs, Err FrameTooLarge)
       else (\<lparr>fs_carry = rest\<rparr>, fs, Ok ()))"
proof -
  obtain carry where carry: "carry = fs_carry s @ chunk" by blast
  have "s\<lparr>fs_carry := x\<rparr> = \<lparr>fs_carry = x\<rparr>" for x by (cases s) simp
  then show ?thesis
    using scan_carry_conv [of carry 0]
    by (cases "fs_carry s = []")
      (simp_all add: feed_def push_carry_def Let_def case_prod_unfold carry [symmetric] del: length_drop)
qed

lemma scan_rest: "scan_chunk xs = (fs, r) \<Longrightarrow> find_separator r = None"
proof (induction xs arbitrary: fs rule: scan_chunk.induct)
  case (1 xs)
  show ?case
  proof (cases "find_separator xs")
    case None
    then show ?thesis using 1(2) by (simp add: scan_chunk.simps [of xs])
  next
    case (Some p)
    obtain a l where p: "p = (a, l)" by fastforce
    then show ?thesis
      using 1(1) [OF Some p [symmetric]] 1(2) Some p by (auto simp: scan_chunk.simps [of xs] split: prod.splits)
  qed
qed

lemma scan_carried:
  assumes "find_separator c = None" "scan_chunk (c @ chunk) = (fs, r)"
  shows "scan_chunk (c @ chunk @ suf) = (case scan_chunk (r @ suf) of (gs, q) \<Rightarrow> (fs @ gs, q))"
  using scan_chunk_append [of "c @ chunk" suf] assms(2) by simp

text \<open>The bytes left unterminated after each chunk.\<close>

definition unterminated :: "string \<Rightarrow> string list \<Rightarrow> nat list" where
  "unterminated c chunks = map (\<lambda>k. length (snd (scan_chunk (c @ concat (take k chunks))))) [1..<Suc (length chunks)]"

lemma unterminated_Cons:
  assumes "scan_chunk (c @ chunk) = (fs, r)"
  shows "unterminated c (chunk # chunks) = length r # unterminated r chunks"
proof -
  have up: "[1..<Suc (length (chunk # chunks))] = 1 # map Suc [1..<Suc (length chunks)]"
    by (simp add: map_Suc_upt upt_conv_Cons del: upt_Suc)
  have "snd (scan_chunk (c @ chunk @ suf)) = snd (scan_chunk (r @ suf))" for suf
    using scan_chunk_append [of "c @ chunk" suf] assms by (simp add: case_prod_unfold)
  then show ?thesis unfolding unterminated_def up using assms by (simp add: comp_def del: upt_Suc)
qed

lemma feed_all_eq:
  "case feed_all s chunks of (s', fs, r) \<Rightarrow>
    find_separator (fs_carry s) = None \<longrightarrow>
    (case r of
      Inl e \<Rightarrow> list_ex (\<lambda>n. n > MAX_FRAME_BYTES) (unterminated (fs_carry s) chunks)
    | Inr _ \<Rightarrow> list_all (\<lambda>n. n \<le> MAX_FRAME_BYTES) (unterminated (fs_carry s) chunks) \<and>
        scan_chunk (fs_carry s @ concat chunks) = (fs, fs_carry s'))"
proof (induction chunks arbitrary: s)
  case Nil
  then show ?case by (simp add: unterminated_def scan_chunk.simps [of "fs_carry s"])
next
  case (Cons chunk chunks)
  obtain fs rest where one: "scan_chunk (fs_carry s @ chunk) = (fs, rest)" by fastforce
  note left = unterminated_Cons [OF one, of chunks]
  show ?case
  proof (cases "length rest > MAX_FRAME_BYTES")
    case True
    then show ?thesis using one left by (simp add: feed_eq)
  next
    case False
    have fed: "feed s chunk = (\<lparr>fs_carry = rest\<rparr>, fs, Ok ())" using False one by (simp add: feed_eq)
    obtain s' gs r where suf: "feed_all \<lparr>fs_carry = rest\<rparr> chunks = (s', gs, r)" by (metis prod_cases3)
    show ?thesis
      using Cons.IH [of "\<lparr>fs_carry = rest\<rparr>"] scan_rest [OF one] fed suf False left
        scan_carried [OF _ one, of "concat chunks"]
      by (auto split: sum.splits)
  qed
qed

section \<open>Reading back what a provider writes\<close>

definition render_frame :: "frame \<Rightarrow> string" where
  "render_frame f =
     (case fr_event f of None \<Rightarrow> [] | Some e \<Rightarrow> ''event: '' @ e @ [LF]) @
     ''data: '' @ fr_data f @ [LF, LF]"

definition one_line :: "string \<Rightarrow> bool" where
  "one_line s \<longleftrightarrow> LF \<notin> set s \<and> CR \<notin> set s"

definition plain_frame :: "frame \<Rightarrow> bool" where
  "plain_frame f \<longleftrightarrow> one_line (fr_data f) \<and>
     (case fr_event f of None \<Rightarrow> True | Some e \<Rightarrow> one_line e \<and> from_utf8 e = Some e)"

lemma separator_from_skip: "one_line xs \<Longrightarrow> separator_from i (xs @ ys) = separator_from (i + length xs) ys"
  by (induction xs arbitrary: i) (auto simp: one_line_def)

lemma split_at_line: "LF \<notin> set xs \<Longrightarrow> split_at LF (xs @ LF # ys) = xs # split_at LF ys"
  by (induction xs) auto

lemma split_at_last: "LF \<notin> set xs \<Longrightarrow> split_at LF xs = [xs]"
  by (induction xs) auto

lemma strip_cr_none: "CR \<notin> set line \<Longrightarrow> strip_cr line = line"
  by (metis last_in_set strip_cr_def)

lemma parse_data_line:
  assumes "one_line d"
  shows "parse_line (ev, None) (''data: '' @ d) = (ev, Some d)"
proof -
  have "strip_cr (''data: '' @ d) = ''data: '' @ d" using assms by (intro strip_cr_none) (auto simp: one_line_def)
  then show ?thesis by (simp add: parse_line_def starts_with_def)
qed

lemma parse_event_line:
  assumes "one_line e" "from_utf8 e = Some e"
  shows "parse_line (None, None) (''event: '' @ e) = (Some e, None)"
proof -
  have "strip_cr (''event: '' @ e) = ''event: '' @ e" using assms by (intro strip_cr_none) (auto simp: one_line_def)
  then show ?thesis using assms(2) by (simp add: parse_line_def starts_with_def)
qed

text \<open>A frame as it is written: no separator in it before the two line feeds it ends with.\<close>

lemma frame_body:
  assumes "plain_frame f"
  obtains body where "render_frame f = body @ [LF, LF]" "parse_frame body = Some f"
    "\<And>i ys. separator_from i (body @ ys) = separator_from (i + length body) ys"
proof -
  obtain e d where f: "f = \<lparr>fr_event = e, fr_data = d\<rparr>" by (cases f)
  let ?data = "''data: '' @ d"
  have d: "one_line d" using assms f by (simp add: plain_frame_def)
  then have data: "one_line ?data" by (auto simp: one_line_def)
  define body where "body = (case e of None \<Rightarrow> ?data | Some e \<Rightarrow> ''event: '' @ e @ LF # ?data)"
  have skip: "separator_from i (body @ ys) = separator_from (i + length body) ys" for i ys
  proof (cases e)
    case None
    then show ?thesis using separator_from_skip [OF data] by (simp add: body_def)
  next
    case (Some ev)
    have ev: "one_line (''event: '' @ ev)" using assms f Some by (auto simp: plain_frame_def one_line_def)
    have "separator_from i (body @ ys) = separator_from (i + length (''event: '' @ ev)) (LF # ?data @ ys)"
      using separator_from_skip [OF ev, of i "LF # ?data @ ys"] by (simp add: body_def Some)
    also have "\<dots> = separator_from (i + length (''event: '' @ ev) + 1) (?data @ ys)" by simp
    also have "\<dots> = separator_from (i + length body) ys"
      unfolding separator_from_skip [OF data] by (simp add: body_def Some add.assoc)
    finally show ?thesis .
  qed
  have "parse_frame body = Some f"
  proof (cases e)
    case None
    then show ?thesis
      using split_at_last [of ?data] data parse_data_line [OF d]
      by (simp add: parse_frame_def body_def one_line_def f)
  next
    case (Some ev)
    have ev: "one_line ev" "from_utf8 ev = Some ev" using assms f Some by (simp_all add: plain_frame_def)
    have "split_at LF ((''event: '' @ ev) @ LF # ?data) = [''event: '' @ ev, ?data]"
      using split_at_line [of "''event: '' @ ev" ?data] split_at_last [of ?data] data ev(1)
      by (simp add: one_line_def)
    then show ?thesis
      using parse_data_line [OF d] parse_event_line [OF ev] by (simp add: parse_frame_def body_def Some f)
  qed
  then show ?thesis
    using that [of body] skip by (simp add: render_frame_def f body_def split: option.splits)
qed

lemma render_scanned:
  assumes "plain_frame f"
  shows "scan_chunk (render_frame f @ suf) = (case scan_chunk suf of (fs, r) \<Rightarrow> (f # fs, r))"
proof (rule frame_body [OF assms])
  fix body
  assume body: "render_frame f = body @ [LF, LF]" "parse_frame body = Some f"
    "\<And>i ys. separator_from i (body @ ys) = separator_from (i + length body) ys"
  have "find_separator (body @ LF # LF # suf) = Some (length body, 2)" by (simp add: find_separator_def body(3))
  then show ?thesis
    by (simp add: body(1,2) scan_chunk.simps [of "body @ LF # LF # suf"] frames_of_def)
qed

lemma split_at_snoc: "split_at c (xs @ [c]) = split_at c xs @ [[]]"
proof (induction xs)
  case (Cons x xs)
  have "split_at c xs \<noteq> []" by (induction xs) (auto split: list.splits)
  then show ?case using Cons by (auto split: list.splits)
qed simp

text \<open>A frame whose end has not come: nothing is seen of it until the stream ends.\<close>

lemma cut_frame:
  assumes "plain_frame f" "part @ replicate n LF = render_frame f" "0 < n" "n \<le> 2"
  shows "scan_chunk part = ([], part)" "frames_of part = [f]"
proof -
  obtain body where body: "render_frame f = body @ [LF, LF]" "parse_frame body = Some f"
      "\<And>i ys. separator_from i (body @ ys) = separator_from (i + length body) ys"
    using frame_body [OF assms(1)] by metis
  have "n = 1 \<or> n = 2" using assms(3,4) by auto
  then have part: "part = body \<or> part = body @ [LF]"
  proof
    assume "n = 1"
    then have "butlast (part @ [LF]) = butlast (body @ [LF, LF])" using assms(2) body(1) by simp
    then show ?thesis by (simp add: butlast_append)
  qed (use assms(2) body(1) in \<open>simp add: numeral_2_eq_2\<close>)
  have "find_separator part = None"
    using part body(3) [of 0 "[]"] body(3) [of 0 "[LF]"] by (auto simp: find_separator_def)
  then show "scan_chunk part = ([], part)" by (simp add: scan_chunk.simps [of part])
  have "parse_line acc [] = acc" for acc by (simp add: parse_line_def strip_cr_def split: prod.split)
  then have "parse_frame (body @ [LF]) = parse_frame body" by (simp add: parse_frame_def split_at_snoc)
  then show "frames_of part = [f]" using part body(2) by (auto simp: frames_of_def)
qed

lemma frames_of_Nil [simp]: "frames_of [] = []"
  by (simp add: frames_of_def parse_frame_def parse_line_def strip_cr_def)

section \<open>Properties\<close>

text \<open>
  How the network cuts a stream does not change what is seen of it: reading a stream in any
  chunks fails exactly when more than a mebibyte is left unterminated after some chunk, and otherwise
  it yields the frames of the whole stream, in order, with the same bytes left over, also where
  a separator itself is cut.
\<close>

theorem chunking_irrelevant:
  "case feed_all scanner_new chunks of (s, fs, r) \<Rightarrow>
    (case r of
       Inl _ \<Rightarrow> list_ex (\<lambda>n. n > MAX_FRAME_BYTES) (unterminated [] chunks)
     | Inr _ \<Rightarrow> list_all (\<lambda>n. n \<le> MAX_FRAME_BYTES) (unterminated [] chunks) \<and>
         scan_chunk (concat chunks) = (fs, fs_carry s))"
  using feed_all_eq [of scanner_new chunks]
  by (simp add: scanner_new_def find_separator_def case_prod_unfold)

lemma scan_rendered: "list_all plain_frame fs \<Longrightarrow> scan_chunk (concat (map render_frame fs)) = (fs, [])"
proof (induction fs)
  case Nil
  then show ?case by (simp add: scan_chunk.simps [of "[]"] find_separator_def)
next
  case (Cons f fs)
  then show ?case by (simp add: render_scanned)
qed

text \<open>
  Frames read back as they were written: a stream of frames whose event and data are single
  lines scans to exactly those frames and nothing is left over, whatever bytes the data holds
  otherwise (empty data, colons and leading spaces included).
\<close>

theorem frames_read_back:
  assumes "list_all plain_frame fs"
  shows "scan_chunk (concat (map render_frame fs)) = (fs, [])"
  by (rule scan_rendered [OF assms])

text \<open>The last frame may lack its end: it is seen when the stream ends.\<close>

lemma frames_read_cut:
  assumes "list_all plain_frame fs" "bytes @ replicate n LF = concat (map render_frame fs)" "n \<le> 2"
  shows "\<exists>gs rest. scan_chunk bytes = (gs, rest) \<and> gs @ frames_of rest = fs"
proof (cases "n = 0")
  case True
  then have "scan_chunk bytes = (fs, [])" using scan_rendered [OF assms(1)] assms(2) by simp
  then show ?thesis by simp
next
  case False
  then have "fs \<noteq> []" using assms(2) by (auto dest: sym)
  then obtain init f where fs: "fs = init @ [f]" by (metis rev_exhaust)
  have f: "plain_frame f" using assms(1) fs by simp
  obtain body where "render_frame f = body @ [LF, LF]" by (rule frame_body [OF f])
  then have "render_frame f = (body @ replicate (2 - n) LF) @ replicate n LF"
    using assms(3) by (simp flip: replicate_add add: numeral_2_eq_2)
  moreover define part where "part = body @ replicate (2 - n) LF"
  ultimately have part: "part @ replicate n LF = render_frame f" by simp
  then have bytes: "bytes = concat (map render_frame init) @ part"
    using assms(2) fs by (simp flip: part append_assoc)
  have "scan_chunk part = ([], part)" "frames_of part = [f]"
    using cut_frame [OF _ part] assms fs False by simp_all
  then show ?thesis
    using scan_chunk_append [of "concat (map render_frame init)" part] scan_rendered [of init] assms(1) fs bytes
    by simp
qed

theorem frames_read_back_witness:
  "scan_chunk (concat (map render_frame
      [\<lparr>fr_event = None, fr_data = '' a:b''\<rparr>, \<lparr>fr_event = Some [], fr_data = ''[DONE]''\<rparr>])) =
    ([\<lparr>fr_event = None, fr_data = '' a:b''\<rparr>, \<lparr>fr_event = Some [], fr_data = ''[DONE]''\<rparr>], [])"
  by (rule frames_read_back)
    (simp add: plain_frame_def one_line_def from_utf8_def utf8_ok.simps)

end
