(* ===== verification/Provider.thy ===== *)
theory Provider
  imports Event Sse
begin

text \<open>
  \<open>crates/ancre-provider/src\<close> (\<open>lib.rs\<close>, \<open>openai.rs\<close>, \<open>anthropic.rs\<close>): which model served
  a response, and the translation of requests.

  \<open>serde_json\<close> is an argument: its reader of documents, its reader into \<open>Map<String, Value>\<close>,
  its error texts and its printer. What the derived \<open>Deserialize\<close> implementations make of
  a document is written out here.
\<close>

section \<open>Documents\<close>

text \<open>A number that is not an integer is kept as its text.\<close>

datatype number = PosInt u64 | NegInt i64 | Float string

datatype json =
  JNull
| JBool bool
| JNumber number
| JString string
| JArray "json list"
| JObject "(string \<times> json) list"

record serde_json =
  js_from_slice :: "string \<Rightarrow> json option"
  js_value_from_slice :: "string \<Rightarrow> json option"
  js_map_from_slice :: "string \<Rightarrow> (string \<times> json) list option"
  js_error :: "string \<Rightarrow> string \<Rightarrow> string"
  js_to_vec :: "json \<Rightarrow> (string, string) result"

text \<open>Fields of the derived implementations; a field a sequence is too short for may have a default.\<close>

fun de_option :: "(json \<Rightarrow> 'a option) \<Rightarrow> json \<Rightarrow> 'a option option" where
  "de_option d JNull = Some None"
| "de_option d v = map_option Some (d v)"

fun de_string :: "json \<Rightarrow> string option" where
  "de_string (JString s) = Some s"
| "de_string _ = None"

fun de_u32 :: "json \<Rightarrow> u32 option" where
  "de_u32 (JNumber (PosInt n)) = (if unat n < 2 ^ 32 then Some (ucast n) else None)"
| "de_u32 _ = None"

definition de_field :: "string \<Rightarrow> (json \<Rightarrow> 'a option) \<Rightarrow> 'a \<Rightarrow> (string \<times> json) list \<Rightarrow> 'a option" where
  "de_field k d missing entries =
     (case filter (\<lambda>(k', _). k' = k) entries of
        [] \<Rightarrow> Some missing
      | [(_, v)] \<Rightarrow> d v
      | _ \<Rightarrow> None)"

definition de_element :: "(json \<Rightarrow> 'a option) \<Rightarrow> 'a option \<Rightarrow> json list \<Rightarrow> 'a option" where
  "de_element d missing vs = (case vs of [] \<Rightarrow> missing | v # _ \<Rightarrow> d v)"

definition pair_option :: "'a option \<Rightarrow> 'b option \<Rightarrow> ('a \<times> 'b) option" where
  "pair_option a b = Option.bind a (\<lambda>a. map_option (Pair a) b)"

section \<open>Who served it\<close>

datatype provider_kind = OpenAi | Anthropic

fun provider_kind_as_str :: "provider_kind \<Rightarrow> string" where
  "provider_kind_as_str OpenAi = ''openai''"
| "provider_kind_as_str Anthropic = ''anthropic''"

record served_by =
  sb_model_version :: string
  sb_flag :: "risk_flag option"
  sb_tokens_in :: u32
  sb_tokens_out :: u32

definition pinned :: "string \<Rightarrow> u32 \<Rightarrow> u32 \<Rightarrow> served_by" where
  "pinned model_version tokens_in tokens_out =
     \<lparr>sb_model_version = model_version, sb_flag = None, sb_tokens_in = tokens_in,
      sb_tokens_out = tokens_out\<rparr>"

definition unresolved :: "string \<Rightarrow> u32 \<Rightarrow> u32 \<Rightarrow> served_by" where
  "unresolved alias tokens_in tokens_out =
     \<lparr>sb_model_version = UNRESOLVED_PREFIX @ alias, sb_flag = Some UnpinnedModel,
      sb_tokens_in = tokens_in, sb_tokens_out = tokens_out\<rparr>"

definition served_unknown :: served_by where
  "served_unknown =
     \<lparr>sb_model_version = UNKNOWN, sb_flag = Some UnpinnedModel, sb_tokens_in = 0, sb_tokens_out = 0\<rparr>"

definition is_pinned :: "served_by \<Rightarrow> bool" where
  "is_pinned s \<longleftrightarrow> sb_flag s = None"

record stream_pins =
  sp_model_version :: "string option"
  sp_flag :: "risk_flag option"
  sp_tokens_in :: u32
  sp_tokens_out :: u32

definition stream_pins_default :: stream_pins where
  "stream_pins_default =
     \<lparr>sp_model_version = None, sp_flag = None, sp_tokens_in = 0, sp_tokens_out = 0\<rparr>"

definition stream_absorb :: "stream_pins \<Rightarrow> served_by \<Rightarrow> stream_pins" where
  "stream_absorb p s =
     (let p = (if sp_model_version p = None
               then p\<lparr>sp_model_version := Some (sb_model_version s), sp_flag := sb_flag s\<rparr> else p);
          p = (if sb_tokens_in s > 0 then p\<lparr>sp_tokens_in := sb_tokens_in s\<rparr> else p)
      in if sb_tokens_out s > 0 then p\<lparr>sp_tokens_out := sb_tokens_out s\<rparr> else p)"

definition has_model :: "stream_pins \<Rightarrow> bool" where
  "has_model p \<longleftrightarrow> sp_model_version p \<noteq> None"

definition stream_finish :: "stream_pins \<Rightarrow> served_by" where
  "stream_finish p =
     (case sp_model_version p of
        Some model_version \<Rightarrow>
          \<lparr>sb_model_version = model_version, sb_flag = sp_flag p, sb_tokens_in = sp_tokens_in p,
           sb_tokens_out = sp_tokens_out p\<rparr>
      | None \<Rightarrow> served_unknown)"

datatype provider_error =
  Malformed string
| Untranslatable string
| Upstream u16
| Transport string

section \<open>Does an identifier name weights?\<close>

definition is_ascii_digit :: "char \<Rightarrow> bool" where
  "is_ascii_digit c \<longleftrightarrow> 48 \<le> (of_char c :: nat) \<and> (of_char c :: nat) \<le> 57"

definition matches_shape :: "string \<Rightarrow> string \<Rightarrow> bool" where
  "matches_shape bytes shape \<longleftrightarrow>
     length bytes = length shape \<and>
     list_all (\<lambda>(b, s). if s = CHR ''d'' then is_ascii_digit b else b = s) (zip bytes shape)"

definition ends_with_iso_date :: "string \<Rightarrow> bool" where
  "ends_with_iso_date b \<longleftrightarrow>
     11 \<le> length b \<and> b ! (length b - 11) = CHR ''-'' \<and>
     matches_shape (drop (length b - 10) b) ''dddd-dd-dd''"

definition ends_with_compact_date :: "string \<Rightarrow> bool" where
  "ends_with_compact_date b \<longleftrightarrow>
     9 \<le> length b \<and> b ! (length b - 9) = CHR ''-'' \<and>
     matches_shape (drop (length b - 8) b) ''dddddddd''"

definition looks_pinned :: "string \<Rightarrow> provider_kind \<Rightarrow> bool" where
  "looks_pinned ident kind =
     (if ends_with ident ''-latest'' \<or> ident = [] then False
      else (case kind of
          OpenAi \<Rightarrow> if starts_with ident ''ft:'' then True else ends_with_iso_date ident
        | Anthropic \<Rightarrow> ends_with_compact_date ident))"

section \<open>What the adapters read of a response\<close>

record response =
  rs_model :: "string option"
  rs_usage :: "(u32 \<times> u32) option"

definition de_usage :: "string \<Rightarrow> string \<Rightarrow> json \<Rightarrow> (u32 \<times> u32) option" where
  "de_usage tokens_in tokens_out v =
     (case v of
        JObject es \<Rightarrow> pair_option (de_field tokens_in de_u32 0 es) (de_field tokens_out de_u32 0 es)
      | JArray vs \<Rightarrow>
          if length vs > 2 then None
          else pair_option (de_element de_u32 (Some 0) vs) (de_element de_u32 (Some 0) (drop 1 vs))
      | _ \<Rightarrow> None)"

definition openai_usage :: "json \<Rightarrow> (u32 \<times> u32) option" where
  "openai_usage = de_usage ''prompt_tokens'' ''completion_tokens''"

definition anthropic_usage :: "json \<Rightarrow> (u32 \<times> u32) option" where
  "anthropic_usage = de_usage ''input_tokens'' ''output_tokens''"

definition de_response :: "(json \<Rightarrow> (u32 \<times> u32) option) \<Rightarrow> json \<Rightarrow> response option" where
  "de_response usage v =
     map_option (\<lambda>(m, u). \<lparr>rs_model = m, rs_usage = u\<rparr>)
       (case v of
          JObject es \<Rightarrow>
            pair_option (de_field ''model'' (de_option de_string) None es)
              (de_field ''usage'' (de_option usage) None es)
        | JArray vs \<Rightarrow>
            if length vs > 2 then None
            else pair_option (de_element (de_option de_string) None vs)
                   (de_element (de_option usage) None (drop 1 vs))
        | _ \<Rightarrow> None)"

record stream_event =
  se_message :: "response option"
  se_usage :: "(u32 \<times> u32) option"

definition de_stream_event :: "json \<Rightarrow> stream_event option" where
  "de_stream_event v =
     map_option (\<lambda>(m, u). \<lparr>se_message = m, se_usage = u\<rparr>)
       (case v of
          JObject es \<Rightarrow>
            pair_option (de_field ''message'' (de_option (de_response anthropic_usage)) None es)
              (de_field ''usage'' (de_option anthropic_usage) None es)
        | JArray vs \<Rightarrow>
            if length vs > 2 then None
            else pair_option (de_element (de_option (de_response anthropic_usage)) (Some None) vs)
                   (de_element (de_option anthropic_usage) (Some None) (drop 1 vs))
        | _ \<Rightarrow> None)"

text \<open>\<open>usage.map_or((0, 0), ..)\<close> and the version of a named model.\<close>

definition token_counts :: "(u32 \<times> u32) option \<Rightarrow> u32 \<times> u32" where
  "token_counts u = (case u of None \<Rightarrow> (0, 0) | Some u \<Rightarrow> u)"

definition served_as :: "provider_kind \<Rightarrow> string \<Rightarrow> u32 \<Rightarrow> u32 \<Rightarrow> served_by" where
  "served_as kind m tin tout =
     (if looks_pinned m kind then pinned m tin tout else unresolved m tin tout)"

definition openai_served_by :: "serde_json \<Rightarrow> string \<Rightarrow> (served_by, provider_error) result" where
  "openai_served_by js body =
     (case Option.bind (js_from_slice js body) (de_response openai_usage) of
        None \<Rightarrow> Err (Malformed (js_error js ''Response'' body))
      | Some r \<Rightarrow>
          (case token_counts (rs_usage r) of (tin, tout) \<Rightarrow>
             Ok (case rs_model r of Some m \<Rightarrow> served_as OpenAi m tin tout | None \<Rightarrow> served_unknown)))"

definition anthropic_served_by :: "serde_json \<Rightarrow> string \<Rightarrow> (served_by, provider_error) result" where
  "anthropic_served_by js body =
     (case Option.bind (js_from_slice js body) (de_response anthropic_usage) of
        None \<Rightarrow> Err (Malformed (js_error js ''Response'' body))
      | Some r \<Rightarrow>
          (case token_counts (rs_usage r) of (tin, tout) \<Rightarrow>
             Ok (case rs_model r of Some m \<Rightarrow> served_as Anthropic m tin tout | None \<Rightarrow> served_unknown)))"

text \<open>The tail both streaming readers share: a frame with usage only names no model.\<close>

definition served_frame :: "provider_kind \<Rightarrow> string option \<Rightarrow> u32 \<Rightarrow> u32 \<Rightarrow> served_by option" where
  "served_frame kind model tin tout =
     (case model of
        Some m \<Rightarrow> Some (served_as kind m tin tout)
      | None \<Rightarrow>
          if tin > 0 \<or> tout > 0
          then Some \<lparr>sb_model_version = [], sb_flag = None, sb_tokens_in = tin, sb_tokens_out = tout\<rparr>
          else None)"

definition openai_served_by_streaming :: "serde_json \<Rightarrow> frame \<Rightarrow> served_by option" where
  "openai_served_by_streaming js f =
     (if is_done f then None
      else Option.bind (Option.bind (js_from_slice js (fr_data f)) (de_response openai_usage)) (\<lambda>r.
        case token_counts (rs_usage r) of (tin, tout) \<Rightarrow> served_frame OpenAi (rs_model r) tin tout))"

definition anthropic_served_by_streaming :: "serde_json \<Rightarrow> frame \<Rightarrow> served_by option" where
  "anthropic_served_by_streaming js f =
     Option.bind (Option.bind (js_from_slice js (fr_data f)) de_stream_event) (\<lambda>ev.
       let (tin, tout) = token_counts (se_usage ev) in
       case se_message ev of
         None \<Rightarrow> served_frame Anthropic None tin tout
       | Some m \<Rightarrow>
           (case rs_usage m of
              None \<Rightarrow> served_frame Anthropic (rs_model m) tin tout
            | Some (i, n) \<Rightarrow> served_frame Anthropic (rs_model m) (max tin i) (max tout n)))"

section \<open>The request\<close>

definition OPENAI_CHAT_PATH :: string where
  "OPENAI_CHAT_PATH = ''/v1/chat/completions''"

definition ANTHROPIC_MESSAGES_PATH :: string where
  "ANTHROPIC_MESSAGES_PATH = ''/v1/messages''"

definition ANTHROPIC_VERSION :: string where
  "ANTHROPIC_VERSION = ''2023-06-01''"

definition DEFAULT_MAX_TOKENS :: u64 where
  "DEFAULT_MAX_TOKENS = 4096"

fun upstream_path :: "provider_kind \<Rightarrow> string \<Rightarrow> string" where
  "upstream_path OpenAi ingress = ingress"
| "upstream_path Anthropic ingress =
     (case strip_prefix ingress OPENAI_CHAT_PATH of
        Some rest \<Rightarrow> ANTHROPIC_MESSAGES_PATH @ rest
      | None \<Rightarrow> ingress)"

fun upstream_headers :: "provider_kind \<Rightarrow> string option \<Rightarrow> (string \<times> string) list" where
  "upstream_headers OpenAi credential =
     (case credential of None \<Rightarrow> [] | Some c \<Rightarrow> [(''authorization'', ''Bearer '' @ c)])"
| "upstream_headers Anthropic credential =
     (''anthropic-version'', ANTHROPIC_VERSION) #
     (case credential of None \<Rightarrow> [] | Some c \<Rightarrow> [(''x-api-key'', c)])"

text \<open>\<open>Value::get\<close>, \<open>as_str\<close>, \<open>as_array\<close>, \<open>as_u64\<close>.\<close>

fun json_get :: "json \<Rightarrow> string \<Rightarrow> json option" where
  "json_get (JObject es) k = map_of es k"
| "json_get _ k = None"

fun as_array :: "json \<Rightarrow> json list option" where
  "as_array (JArray vs) = Some vs"
| "as_array _ = None"

fun as_u64 :: "json \<Rightarrow> u64 option" where
  "as_u64 (JNumber (PosInt n)) = Some n"
| "as_u64 _ = None"

text \<open>The loop over the messages: system parts and the rest.\<close>

fun split_messages :: "json list \<Rightarrow> (json list \<times> json list, provider_error) result" where
  "split_messages [] = Ok ([], [])"
| "split_messages (m # messages) =
     (case Option.bind (json_get m ''role'') de_string of
        None \<Rightarrow> Err (Untranslatable ''message has no role'')
      | Some role \<Rightarrow>
          if role = ''system'' then
            and_then (split_messages messages) (\<lambda>(system_parts, out).
              Ok (case json_get m ''content'' of None \<Rightarrow> system_parts | Some c \<Rightarrow> c # system_parts, out))
          else if role = ''user'' \<or> role = ''assistant'' then
            and_then (split_messages messages) (\<lambda>(system_parts, out). Ok (system_parts, m # out))
          else Err (Untranslatable
            (''message role `'' @ role @ ''` has no faithful Anthropic equivalent'')))"

definition unsupported_fields :: "string list" where
  "unsupported_fields = [''tools'', ''tool_choice'', ''functions'', ''response_format'']"

definition unsupported_error :: "string \<Rightarrow> provider_error" where
  "unsupported_error u =
     Untranslatable (''`'' @ u @ ''` is not translated in the MVP; '' @
       ''route this system to OpenAI or wait for the tool mapping'')"

definition system_of :: "json list \<Rightarrow> (json option, provider_error) result" where
  "system_of parts =
     (case parts of
        [] \<Rightarrow> Ok None
      | [c] \<Rightarrow> Ok (Some c)
      | _ \<Rightarrow> Err (Untranslatable
          ''multiple system messages cannot be merged without changing the prompt''))"

definition max_tokens_of :: "(string \<rightharpoonup> json) \<Rightarrow> u64" where
  "max_tokens_of req =
     (case Option.bind (case req ''max_tokens'' of None \<Rightarrow> req ''max_completion_tokens'' | Some v \<Rightarrow> Some v) as_u64 of
        None \<Rightarrow> DEFAULT_MAX_TOKENS
      | Some n \<Rightarrow> n)"

record anthropic_request =
  ar_model :: json
  ar_max_tokens :: u64
  ar_messages :: "json list"
  ar_system :: "json option"
  ar_stream :: "json option"
  ar_temperature :: "json option"
  ar_top_p :: "json option"
  ar_stop_sequences :: "json option"

text \<open>Its derived \<open>Serialize\<close>: fields in order, absent options left out.\<close>

definition optional_entry :: "string \<Rightarrow> json option \<Rightarrow> (string \<times> json) list" where
  "optional_entry k v = (case v of None \<Rightarrow> [] | Some v \<Rightarrow> [(k, v)])"

definition request_json :: "anthropic_request \<Rightarrow> json" where
  "request_json r = JObject
     ([(''model'', ar_model r), (''max_tokens'', JNumber (PosInt (ar_max_tokens r))),
       (''messages'', JArray (ar_messages r))] @
      optional_entry ''system'' (ar_system r) @ optional_entry ''stream'' (ar_stream r) @
      optional_entry ''temperature'' (ar_temperature r) @ optional_entry ''top_p'' (ar_top_p r) @
      optional_entry ''stop_sequences'' (ar_stop_sequences r))"

text \<open>The body of \<open>translate_request\<close> between the reader and the printer.\<close>

definition anthropic_of :: "(string \<rightharpoonup> json) \<Rightarrow> (anthropic_request, provider_error) result" where
  "anthropic_of req =
     and_then (ok_or (Untranslatable ''request has no model'') (req ''model'')) (\<lambda>model.
     and_then (ok_or (Untranslatable ''request has no messages array'')
       (Option.bind (req ''messages'') as_array)) (\<lambda>messages.
     and_then (split_messages messages) (\<lambda>(system_parts, out_messages).
     case find (\<lambda>u. req u \<noteq> None) unsupported_fields of
       Some u \<Rightarrow> Err (unsupported_error u)
     | None \<Rightarrow>
         and_then (system_of system_parts) (\<lambda>system.
           Ok \<lparr>ar_model = model, ar_max_tokens = max_tokens_of req, ar_messages = out_messages,
               ar_system = system, ar_stream = req ''stream'', ar_temperature = req ''temperature'',
               ar_top_p = req ''top_p'', ar_stop_sequences = req ''stop''\<rparr>))))"

definition anthropic_translate_request :: "serde_json \<Rightarrow> string \<Rightarrow> (string, provider_error) result" where
  "anthropic_translate_request js body =
     (case js_map_from_slice js body of
        None \<Rightarrow> Err (Malformed (js_error js ''Map'' body))
      | Some entries \<Rightarrow>
          and_then (anthropic_of (map_of entries)) (\<lambda>out.
            map_err Malformed (js_to_vec js (request_json out))))"

section \<open>The provider of a kind\<close>

fun provider_served_by :: "provider_kind \<Rightarrow> serde_json \<Rightarrow> string \<Rightarrow> (served_by, provider_error) result" where
  "provider_served_by OpenAi = openai_served_by"
| "provider_served_by Anthropic = anthropic_served_by"

fun served_by_streaming :: "provider_kind \<Rightarrow> serde_json \<Rightarrow> frame \<Rightarrow> served_by option" where
  "served_by_streaming OpenAi = openai_served_by_streaming"
| "served_by_streaming Anthropic = anthropic_served_by_streaming"

fun translate_request :: "provider_kind \<Rightarrow> serde_json \<Rightarrow> string \<Rightarrow> (string, provider_error) result" where
  "translate_request OpenAi js body = Ok body"
| "translate_request Anthropic js body = anthropic_translate_request js body"

section \<open>Which identifiers are pinned\<close>

definition digits_of :: "nat \<Rightarrow> string \<Rightarrow> bool" where
  "digits_of n s \<longleftrightarrow> length s = n \<and> list_all is_ascii_digit s"

lemma digits_of_0: "digits_of 0 s \<longleftrightarrow> s = []"
  by (auto simp: digits_of_def)

lemma digits_of_Suc: "digits_of (Suc n) s \<longleftrightarrow> (\<exists>c r. s = c # r \<and> is_ascii_digit c \<and> digits_of n r)"
  by (cases s) (auto simp: digits_of_def)

lemma matches_shape_Nil: "matches_shape s [] \<longleftrightarrow> s = []"
  by (auto simp: matches_shape_def)

lemma matches_shape_Cons:
  "matches_shape s (p # shape) \<longleftrightarrow>
    (\<exists>c r. s = c # r \<and> (if p = CHR ''d'' then is_ascii_digit c else c = p) \<and> matches_shape r shape)"
  by (cases s) (auto simp: matches_shape_def)

lemmas shape_simps = matches_shape_Nil matches_shape_Cons digits_of_0 digits_of_Suc numeral_eq_Suc

lemma matches_compact: "matches_shape s ''dddddddd'' \<longleftrightarrow> digits_of 8 s"
  by (simp add: shape_simps)

lemma matches_iso:
  "matches_shape s ''dddd-dd-dd'' \<longleftrightarrow>
    (\<exists>y m d. s = y @ ''-'' @ m @ ''-'' @ d \<and> digits_of 4 y \<and> digits_of 2 m \<and> digits_of 2 d)"
proof
  assume "matches_shape s ''dddd-dd-dd''"
  then obtain a b c e f g h i where s: "s = [a, b, c, e, CHR ''-'', f, g, CHR ''-'', h, i]"
    and "list_all is_ascii_digit [a, b, c, e, f, g, h, i]"
    by (auto simp: shape_simps)
  then have "s = [a, b, c, e] @ ''-'' @ [f, g] @ ''-'' @ [h, i] \<and> digits_of 4 [a, b, c, e] \<and>
      digits_of 2 [f, g] \<and> digits_of 2 [h, i]"
    by (simp add: digits_of_def)
  then show "\<exists>y m d. s = y @ ''-'' @ m @ ''-'' @ d \<and> digits_of 4 y \<and> digits_of 2 m \<and> digits_of 2 d" by blast
qed (auto simp: shape_simps)

text \<open>A dash and a tail of fixed length at the end.\<close>

lemma ends_with_tail:
  "Suc n \<le> length b \<and> b ! (length b - Suc n) = c \<and> P (drop (length b - n) b) \<longleftrightarrow>
    (\<exists>stem t. b = stem @ c # t \<and> length t = n \<and> P t)"
proof
  assume a: "Suc n \<le> length b \<and> b ! (length b - Suc n) = c \<and> P (drop (length b - n) b)"
  then have "Suc (length b - Suc n) = length b - n" "length b - Suc n < length b" by auto
  then have "b = take (length b - Suc n) b @ c # drop (length b - n) b"
    using a id_take_nth_drop [of "length b - Suc n" b] by simp
  moreover have "length (drop (length b - n) b) = n" using a by simp
  ultimately show "\<exists>stem t. b = stem @ c # t \<and> length t = n \<and> P t" using a by blast
qed (auto simp: nth_append)

lemma matches_shape_length: "matches_shape s shape \<Longrightarrow> length s = length shape"
  by (simp add: matches_shape_def)

lemma iso_date_conv:
  "ends_with_iso_date b \<longleftrightarrow>
    (\<exists>stem y m d. b = stem @ ''-'' @ y @ ''-'' @ m @ ''-'' @ d \<and>
      digits_of 4 y \<and> digits_of 2 m \<and> digits_of 2 d)"
proof -
  have "ends_with_iso_date b \<longleftrightarrow>
      (\<exists>stem t. b = stem @ CHR ''-'' # t \<and> length t = 10 \<and> matches_shape t ''dddd-dd-dd'')"
    using ends_with_tail [of 10 b "CHR ''-''" "\<lambda>t. matches_shape t ''dddd-dd-dd''"]
    by (simp add: ends_with_iso_date_def)
  also have "\<dots> \<longleftrightarrow> (\<exists>stem t. b = stem @ CHR ''-'' # t \<and> matches_shape t ''dddd-dd-dd'')"
    using matches_shape_length by fastforce
  finally show ?thesis unfolding matches_iso append.simps by blast
qed

lemma compact_date_conv:
  "ends_with_compact_date b \<longleftrightarrow> (\<exists>stem ymd. b = stem @ ''-'' @ ymd \<and> digits_of 8 ymd)"
proof -
  have "ends_with_compact_date b \<longleftrightarrow>
      (\<exists>stem t. b = stem @ CHR ''-'' # t \<and> length t = 8 \<and> matches_shape t ''dddddddd'')"
    using ends_with_tail [of 8 b "CHR ''-''" "\<lambda>t. matches_shape t ''dddddddd''"]
    by (simp add: ends_with_compact_date_def)
  also have "\<dots> \<longleftrightarrow> (\<exists>stem t. b = stem @ CHR ''-'' # t \<and> matches_shape t ''dddddddd'')"
    using matches_shape_length by fastforce
  finally show ?thesis unfolding matches_compact by simp
qed

text \<open>
  An identifier counts as naming exact weights precisely when it does not end in \<open>-latest\<close> and is,
  for OpenAI, a fine-tune (\<open>ft:\<close>) or some stem with \<open>-YYYY-MM-DD\<close> after it, and for Anthropic
  some stem with \<open>-YYYYMMDD\<close> after it, of digits: nothing else is ever recorded as pinned.
\<close>

theorem looks_pinned_exact:
  "looks_pinned ident kind \<longleftrightarrow>
    (\<nexists>stem. ident = stem @ ''-latest'') \<and>
    (case kind of
       OpenAi \<Rightarrow> (\<exists>rest. ident = ''ft:'' @ rest) \<or>
         (\<exists>stem y m d. ident = stem @ ''-'' @ y @ ''-'' @ m @ ''-'' @ d \<and>
            digits_of 4 y \<and> digits_of 2 m \<and> digits_of 2 d)
     | Anthropic \<Rightarrow> (\<exists>stem ymd. ident = stem @ ''-'' @ ymd \<and> digits_of 8 ymd))"
proof (cases kind)
  case OpenAi
  have "ident = [] \<Longrightarrow> \<not> ends_with_iso_date ident" by (simp add: ends_with_iso_date_def)
  moreover have "ident = [] \<Longrightarrow> \<not> starts_with ident ''ft:''" by (simp add: starts_with_def)
  ultimately have "looks_pinned ident kind \<longleftrightarrow>
      \<not> ends_with ident ''-latest'' \<and> (starts_with ident ''ft:'' \<or> ends_with_iso_date ident)"
    using OpenAi by (auto simp: looks_pinned_def)
  then show ?thesis
    unfolding OpenAi ends_with_conv starts_with_conv iso_date_conv by simp
next
  case Anthropic
  have "ident = [] \<Longrightarrow> \<not> ends_with_compact_date ident" by (simp add: ends_with_compact_date_def)
  then have "looks_pinned ident kind \<longleftrightarrow> \<not> ends_with ident ''-latest'' \<and> ends_with_compact_date ident"
    using Anthropic by (auto simp: looks_pinned_def)
  then show ?thesis
    unfolding Anthropic ends_with_conv compact_date_conv by simp
qed

section \<open>A stream of frames\<close>

definition first_version :: "served_by list \<Rightarrow> served_by" where
  "first_version ss = (case ss of [] \<Rightarrow> served_unknown | s # _ \<Rightarrow> s)"

definition last_count :: "u32 list \<Rightarrow> u32" where
  "last_count ns = last (0 # filter (\<lambda>n. n > 0) ns)"

lemma last_count_snoc: "last_count (ns @ [n]) = (if n > 0 then n else last_count ns)"
  by (simp add: last_count_def)

lemma stream_absorb_all:
  "foldl stream_absorb stream_pins_default ss =
    \<lparr>sp_model_version = (case ss of [] \<Rightarrow> None | s # _ \<Rightarrow> Some (sb_model_version s)),
     sp_flag = (case ss of [] \<Rightarrow> None | s # _ \<Rightarrow> sb_flag s),
     sp_tokens_in = last_count (map sb_tokens_in ss), sp_tokens_out = last_count (map sb_tokens_out ss)\<rparr>"
proof (induction ss rule: rev_induct)
  case Nil
  show ?case by (simp add: stream_pins_default_def last_count_def)
next
  case (snoc s ss)
  have step: "foldl stream_absorb stream_pins_default (ss @ [s]) =
      stream_absorb (foldl stream_absorb stream_pins_default ss) s" by simp
  show ?case unfolding step snoc.IH
    by (cases ss) (simp_all add: stream_absorb_def last_count_snoc Let_def last_count_def)
qed

text \<open>
  What a streamed response is recorded as: the version and the flag of the first frame that
  revealed anything, and of each token count the last positive one; a stream that revealed nothing
  is \<open>unknown\<close> and flagged, with no tokens.
\<close>

theorem stream_pins_exact:
  "stream_finish (foldl stream_absorb stream_pins_default ss) =
    (first_version ss)\<lparr>sb_tokens_in := last_count (map sb_tokens_in ss),
       sb_tokens_out := last_count (map sb_tokens_out ss)\<rparr>"
  unfolding stream_absorb_all
  by (cases ss) (simp_all add: stream_finish_def first_version_def served_unknown_def last_count_def)

text \<open>
  What a provider's documents say, read off the documents themselves: the model is a text under
  \<open>model\<close>, the tokens are counted under \<open>usage\<close>; Anthropic puts the model, and a second count,
  into \<open>message\<close>. The end mark of OpenAI and data that are no document say nothing.
\<close>

fun doc_field :: "string \<Rightarrow> json \<Rightarrow> json option" where
  "doc_field k (JObject es) = map_of es k"
| "doc_field k _ = None"

definition doc_text :: "string \<Rightarrow> json \<Rightarrow> string option" where
  "doc_text k v = (case doc_field k v of Some (JString m) \<Rightarrow> Some m | _ \<Rightarrow> None)"

definition doc_count :: "string \<Rightarrow> json \<Rightarrow> u32" where
  "doc_count k v = (case doc_field k v of Some (JNumber (PosInt n)) \<Rightarrow> ucast n | _ \<Rightarrow> 0)"

definition doc_sub :: "string \<Rightarrow> json \<Rightarrow> json" where
  "doc_sub k v = (case doc_field k v of None \<Rightarrow> JNull | Some x \<Rightarrow> x)"

fun doc_model :: "provider_kind \<Rightarrow> json \<Rightarrow> string option" where
  "doc_model OpenAi v = doc_text ''model'' v"
| "doc_model Anthropic v = doc_text ''model'' (doc_sub ''message'' v)"

fun doc_tokens :: "provider_kind \<Rightarrow> json \<Rightarrow> u32 \<times> u32" where
  "doc_tokens OpenAi v =
     (doc_count ''prompt_tokens'' (doc_sub ''usage'' v), doc_count ''completion_tokens'' (doc_sub ''usage'' v))"
| "doc_tokens Anthropic v =
     (let u = doc_sub ''usage'' v; w = doc_sub ''usage'' (doc_sub ''message'' v)
      in (max (doc_count ''input_tokens'' u) (doc_count ''input_tokens'' w),
          max (doc_count ''output_tokens'' u) (doc_count ''output_tokens'' w)))"

definition tells :: "provider_kind \<Rightarrow> json \<Rightarrow> bool" where
  "tells kind v \<longleftrightarrow> doc_model kind v \<noteq> None \<or> doc_tokens kind v \<noteq> (0, 0)"

definition stream_docs :: "provider_kind \<Rightarrow> serde_json \<Rightarrow> frame list \<Rightarrow> json list" where
  "stream_docs kind js fs = List.map_filter (\<lambda>f.
     if kind = OpenAi \<and> fr_data f = ''[DONE]'' then None else js_from_slice js (fr_data f)) fs"

text \<open>Documents of the providers' shape: objects without repeated keys, each field of its type or absent.\<close>

definition plain_object :: "json \<Rightarrow> bool" where
  "plain_object v \<longleftrightarrow> (case v of JObject es \<Rightarrow> distinct (map fst es) | _ \<Rightarrow> False)"

definition plain_count :: "string \<Rightarrow> json \<Rightarrow> bool" where
  "plain_count k v \<longleftrightarrow> (case doc_field k v of None \<Rightarrow> True
     | Some (JNumber (PosInt n)) \<Rightarrow> unat n < 2 ^ 32 | _ \<Rightarrow> False)"

definition plain_usage :: "string \<Rightarrow> string \<Rightarrow> json \<Rightarrow> bool" where
  "plain_usage i n v \<longleftrightarrow> v = JNull \<or> (plain_object v \<and> plain_count i v \<and> plain_count n v)"

definition plain_response :: "string \<Rightarrow> string \<Rightarrow> json \<Rightarrow> bool" where
  "plain_response i n v \<longleftrightarrow> plain_object v \<and>
     (case doc_field ''model'' v of None \<Rightarrow> True | Some JNull \<Rightarrow> True | Some (JString _) \<Rightarrow> True | _ \<Rightarrow> False) \<and>
     plain_usage i n (doc_sub ''usage'' v)"

fun plain_doc :: "provider_kind \<Rightarrow> json \<Rightarrow> bool" where
  "plain_doc OpenAi v = plain_response ''prompt_tokens'' ''completion_tokens'' v"
| "plain_doc Anthropic v \<longleftrightarrow> plain_object v \<and>
     (doc_sub ''message'' v = JNull \<or> plain_response ''input_tokens'' ''output_tokens'' (doc_sub ''message'' v)) \<and>
     plain_usage ''input_tokens'' ''output_tokens'' (doc_sub ''usage'' v)"

lemma doc_JNull [simp]: "doc_text k JNull = None" "doc_count k JNull = 0" "doc_sub k JNull = JNull"
  by (simp_all add: doc_text_def doc_count_def doc_sub_def)

lemma de_field_distinct:
  "distinct (map fst es) \<Longrightarrow> de_field k d missing es = (case map_of es k of None \<Rightarrow> Some missing | Some v \<Rightarrow> d v)"
proof (induction es)
  case (Cons x es)
  have "k \<notin> fst ` set es \<Longrightarrow> filter (\<lambda>(k', _). k' = k) es = []" by (force simp: filter_empty_conv)
  then show ?case using Cons by (cases x) (auto simp: de_field_def)
qed (simp add: de_field_def)

lemma plain_objectE:
  assumes "plain_object v"
  obtains es where "v = JObject es" "distinct (map fst es)" "\<And>k. doc_field k v = map_of es k"
  using assms by (cases v) (auto simp: plain_object_def)

lemma de_usage_plain:
  assumes "plain_usage i n v"
  shows "\<exists>u. de_option (de_usage i n) v = Some u \<and> token_counts u = (doc_count i v, doc_count n v) \<and>
    (u = None \<longleftrightarrow> v = JNull)"
proof (cases "v = JNull")
  case True
  then show ?thesis by (simp add: token_counts_def doc_count_def)
next
  case False
  then obtain es where es: "v = JObject es" "distinct (map fst es)"
      and c: "plain_count i v" "plain_count n v"
    using assms by (auto simp: plain_usage_def elim: plain_objectE)
  have "de_field k de_u32 0 es = Some (doc_count k v)" if "plain_count k v" for k
    using that es
    by (cases "map_of es k") (auto simp: de_field_distinct plain_count_def doc_count_def split: json.splits number.splits)
  then show ?thesis using es c by (simp add: de_usage_def pair_option_def token_counts_def)
qed

lemma doc_sub_field:
  assumes "distinct (map fst es)"
  shows "de_field k (de_option d) None es = de_option d (doc_sub k (JObject es))"
  using assms by (simp add: de_field_distinct doc_sub_def split: option.split)

lemma de_response_plain:
  assumes "plain_response i n v"
  shows "\<exists>u. de_response (de_usage i n) v = Some \<lparr>rs_model = doc_text ''model'' v, rs_usage = u\<rparr> \<and>
    token_counts u = (doc_count i (doc_sub ''usage'' v), doc_count n (doc_sub ''usage'' v))"
proof -
  obtain es where es: "v = JObject es" "distinct (map fst es)"
    using assms by (auto simp: plain_response_def elim: plain_objectE)
  have "de_field ''model'' (de_option de_string) None es = Some (doc_text ''model'' v)"
    using assms es
    by (cases "map_of es ''model''") (auto simp: de_field_distinct plain_response_def doc_text_def split: json.splits)
  moreover obtain u where "de_option (de_usage i n) (doc_sub ''usage'' v) = Some u"
      "token_counts u = (doc_count i (doc_sub ''usage'' v), doc_count n (doc_sub ''usage'' v))"
    using de_usage_plain [of i n "doc_sub ''usage'' v"] assms by (auto simp: plain_response_def)
  ultimately show ?thesis using es by (simp add: de_response_def pair_option_def doc_sub_field)
qed

text \<open>The adapters read of such a document what it says.\<close>

lemma doc_read:
  assumes "plain_doc kind v" "js_from_slice js (fr_data f) = Some v" "\<not> (kind = OpenAi \<and> is_done f)"
  shows "served_by_streaming kind js f =
    served_frame kind (doc_model kind v) (fst (doc_tokens kind v)) (snd (doc_tokens kind v))"
proof (cases kind)
  case OpenAi
  then obtain u where "de_response openai_usage v = Some \<lparr>rs_model = doc_text ''model'' v, rs_usage = u\<rparr>"
      "token_counts u = doc_tokens OpenAi v"
    using de_response_plain [of "''prompt_tokens''" "''completion_tokens''" v] assms(1)
    by (auto simp: openai_usage_def)
  then show ?thesis using OpenAi assms(2,3) by (auto simp: openai_served_by_streaming_def case_prod_unfold)
next
  case Anthropic
  let ?m = "doc_sub ''message'' v" and ?u = "doc_sub ''usage'' v"
  obtain es where es: "v = JObject es" "distinct (map fst es)"
    using assms(1) Anthropic by (auto elim: plain_objectE)
  obtain u where u: "de_option anthropic_usage ?u = Some u"
      "token_counts u = (doc_count ''input_tokens'' ?u, doc_count ''output_tokens'' ?u)"
    using de_usage_plain [of "''input_tokens''" "''output_tokens''" ?u] assms(1) Anthropic
    by (auto simp: anthropic_usage_def)
  show ?thesis
  proof (cases "?m = JNull")
    case True
    then show ?thesis
      using Anthropic assms(2) es u
      by (simp add: anthropic_served_by_streaming_def de_stream_event_def pair_option_def doc_sub_field Let_def)
  next
    case False
    then have "plain_response ''input_tokens'' ''output_tokens'' ?m" using assms(1) Anthropic by simp
    from de_response_plain [OF this] obtain w where w:
        "de_response anthropic_usage ?m = Some \<lparr>rs_model = doc_text ''model'' ?m, rs_usage = w\<rparr>"
        "token_counts w = (doc_count ''input_tokens'' (doc_sub ''usage'' ?m), doc_count ''output_tokens'' (doc_sub ''usage'' ?m))"
      by (auto simp: anthropic_usage_def)
    have "de_option (de_response anthropic_usage) ?m = map_option Some (de_response anthropic_usage ?m)"
      using False by (cases ?m) simp_all
    moreover have "max a 0 = a" for a :: u32 by (simp add: max_def)
    ultimately show ?thesis
      using Anthropic assms(2) es u w
      by (cases w) (auto simp: anthropic_served_by_streaming_def de_stream_event_def pair_option_def
          doc_sub_field Let_def token_counts_def [of None] token_counts_def [of "Some x" for x])
  qed
qed

definition told :: "provider_kind \<Rightarrow> json \<Rightarrow> served_by" where
  "told kind v = (case doc_model kind v of
     Some m \<Rightarrow> served_as kind m (fst (doc_tokens kind v)) (snd (doc_tokens kind v))
   | None \<Rightarrow> \<lparr>sb_model_version = [], sb_flag = None, sb_tokens_in = fst (doc_tokens kind v),
               sb_tokens_out = snd (doc_tokens kind v)\<rparr>)"

lemma served_frame_told:
  "served_frame kind (doc_model kind v) (fst (doc_tokens kind v)) (snd (doc_tokens kind v)) =
    (if tells kind v then Some (told kind v) else None)"
  by (cases "doc_tokens kind v")
    (auto simp: served_frame_def tells_def told_def word_gt_0 split: option.split)

lemma told_tokens: "sb_tokens_in (told kind v) = fst (doc_tokens kind v)" "sb_tokens_out (told kind v) = snd (doc_tokens kind v)"
  by (auto simp: told_def served_as_def pinned_def unresolved_def split: option.split)

lemma docs_read:
  "list_all (plain_doc kind) (stream_docs kind js fs) \<Longrightarrow>
    List.map_filter (served_by_streaming kind js) fs = map (told kind) (filter (tells kind) (stream_docs kind js fs))"
proof (induction fs)
  case (Cons f fs)
  show ?case
  proof (cases "(kind = OpenAi \<and> is_done f) \<or> js_from_slice js (fr_data f) = None")
    case True
    then have "served_by_streaming kind js f = None"
      by (cases kind) (auto simp: openai_served_by_streaming_def anthropic_served_by_streaming_def)
    moreover have "stream_docs kind js (f # fs) = stream_docs kind js fs"
      using True by (auto simp: stream_docs_def is_done_def map_filter_simps)
    ultimately show ?thesis using Cons by (simp add: map_filter_simps)
  next
    case False
    then obtain v where v: "js_from_slice js (fr_data f) = Some v" by blast
    then have docs: "stream_docs kind js (f # fs) = v # stream_docs kind js fs"
      using False by (auto simp: stream_docs_def is_done_def map_filter_simps)
    have "served_by_streaming kind js f = (if tells kind v then Some (told kind v) else None)"
      using doc_read [OF _ v] Cons.prems docs False served_frame_told by simp
    then show ?thesis using Cons docs by (simp add: map_filter_simps)
  qed
qed (simp add: stream_docs_def map_filter_simps)

lemma last_count_told:
  "last_count (map sb_tokens_in (map (told kind) (filter (tells kind) vs))) = last_count (map (fst \<circ> doc_tokens kind) vs)"
  "last_count (map sb_tokens_out (map (told kind) (filter (tells kind) vs))) = last_count (map (snd \<circ> doc_tokens kind) vs)"
proof -
  have "filter (\<lambda>n. 0 < n) (map sb_tokens_in (map (told kind) (filter (tells kind) vs))) =
      filter (\<lambda>n. 0 < n) (map (fst \<circ> doc_tokens kind) vs)"
    "filter (\<lambda>n. 0 < n) (map sb_tokens_out (map (told kind) (filter (tells kind) vs))) =
      filter (\<lambda>n. 0 < n) (map (snd \<circ> doc_tokens kind) vs)"
    by (induction vs) (auto simp: told_tokens tells_def prod_eq_iff)
  then show "last_count (map sb_tokens_in (map (told kind) (filter (tells kind) vs))) = last_count (map (fst \<circ> doc_tokens kind) vs)"
    "last_count (map sb_tokens_out (map (told kind) (filter (tells kind) vs))) = last_count (map (snd \<circ> doc_tokens kind) vs)"
    by (simp_all add: last_count_def)
qed

text \<open>
  The record of a stream in terms of its documents: when the first that says anything names its model,
  that model decides the version and the flag; of each count the last positive one is kept; a
  stream that says nothing is \<open>unknown\<close> and flagged.
\<close>

lemma stream_docs_exact:
  assumes "list_all (plain_doc kind) (stream_docs kind js fs)"
    and "\<And>d. find (tells kind) (stream_docs kind js fs) = Some d \<Longrightarrow> doc_model kind d \<noteq> None"
  shows "stream_finish (foldl stream_absorb stream_pins_default (List.map_filter (served_by_streaming kind js) fs)) =
    (case Option.bind (find (tells kind) (stream_docs kind js fs)) (doc_model kind) of
       None \<Rightarrow> served_unknown
     | Some m \<Rightarrow> served_as kind m 0 0)
      \<lparr>sb_tokens_in := last_count (map (fst \<circ> doc_tokens kind) (stream_docs kind js fs)),
       sb_tokens_out := last_count (map (snd \<circ> doc_tokens kind) (stream_docs kind js fs))\<rparr>"
proof -
  let ?vs = "stream_docs kind js fs"
  have "(first_version (map (told kind) (filter (tells kind) ?vs)))\<lparr>sb_tokens_in := a, sb_tokens_out := b\<rparr> =
    (case Option.bind (find (tells kind) ?vs) (doc_model kind) of None \<Rightarrow> served_unknown
     | Some m \<Rightarrow> served_as kind m 0 0)\<lparr>sb_tokens_in := a, sb_tokens_out := b\<rparr>" for a b
  proof (cases "filter (tells kind) ?vs")
    case Nil
    then have "find (tells kind) ?vs = None" by (simp add: find_None_iff filter_empty_conv)
    then show ?thesis using Nil by (simp add: first_version_def)
  next
    case (Cons d ds)
    then have d: "find (tells kind) ?vs = Some d" by (induction ?vs) (auto simp: find_dropWhile filter_eq_Cons_iff dropWhile_append)
    then obtain m where "doc_model kind d = Some m" using assms(2) by blast
    then show ?thesis
      using Cons d by (simp add: first_version_def told_def served_as_def pinned_def unresolved_def)
  qed
  then show ?thesis unfolding stream_pins_exact docs_read [OF assms(1)] last_count_told .
qed

text \<open>
  Where the first frame revealed usage only, the record is an empty version without a flag,
  whatever model a later frame names.
\<close>

definition demo_usage_first :: "served_by list" where
  "demo_usage_first =
     List.map_filter (\<lambda>(m, i, n). served_frame OpenAi m i n)
       [(None, 9, 2), (Some ''gpt-4o-2024-08-06'', 0, 0)]"

theorem usage_first_loses_model:
  "stream_finish (foldl stream_absorb stream_pins_default demo_usage_first) =
    \<lparr>sb_model_version = [], sb_flag = None, sb_tokens_in = 9, sb_tokens_out = 2\<rparr>"
  by (simp add: demo_usage_first_def served_frame_def served_as_def pinned_def unresolved_def
      map_filter_simps stream_absorb_def stream_pins_default_def stream_finish_def Let_def)

section \<open>What a translation keeps\<close>

definition role_of :: "json \<Rightarrow> string option" where
  "role_of m = Option.bind (json_get m ''role'') de_string"

definition translatable_role :: "json \<Rightarrow> bool" where
  "translatable_role m \<longleftrightarrow> role_of m \<in> {Some ''system'', Some ''user'', Some ''assistant''}"

definition role_error :: "json \<Rightarrow> provider_error" where
  "role_error m =
     (case role_of m of
        None \<Rightarrow> Untranslatable ''message has no role''
      | Some role \<Rightarrow> Untranslatable (''message role `'' @ role @ ''` has no faithful Anthropic equivalent''))"

text \<open>
  The messages of a request translate exactly when each of them is a system, user or assistant
  message, and the first that is not names the error; then user and assistant messages are
  passed on unchanged and in order, and the contents of the system messages are set apart in
  order.
\<close>

theorem messages_translated:
  "split_messages ms =
    (case find (\<lambda>m. \<not> translatable_role m) ms of
       Some m \<Rightarrow> Err (role_error m)
     | None \<Rightarrow>
         Ok (List.map_filter (\<lambda>m. json_get m ''content'') (filter (\<lambda>m. role_of m = Some ''system'') ms),
             filter (\<lambda>m. role_of m \<noteq> Some ''system'') ms))"
proof (induction ms)
  case Nil
  show ?case by (simp add: map_filter_simps)
next
  case (Cons m ms)
  show ?case
  proof (cases "translatable_role m")
    case True
    then consider "role_of m = Some ''system''" | "role_of m = Some ''user''" | "role_of m = Some ''assistant''"
      by (auto simp: translatable_role_def)
    then show ?thesis
      using Cons.IH True
      by cases (auto simp: role_of_def map_filter_simps split: option.splits)
  next
    case False
    then show ?thesis
      by (cases "role_of m")
        (auto simp: role_of_def translatable_role_def role_error_def)
  qed
qed

definition read_fields :: "string list" where
  "read_fields =
     [''model'', ''messages'', ''tools'', ''tool_choice'', ''functions'', ''response_format'',
      ''max_tokens'', ''max_completion_tokens'', ''stream'', ''temperature'', ''top_p'', ''stop'']"

text \<open>
  A request to Anthropic is translated from twelve of its fields alone: whatever others it
  carries (\<open>n\<close>, \<open>seed\<close>, \<open>presence_penalty\<close>, ..) neither refuse the request nor reach the provider.
\<close>

theorem translation_reads:
  "anthropic_of (req |` set read_fields) = anthropic_of req"
proof -
  have same: "(req |` set read_fields) k = req k" if "k \<in> set read_fields" for k
    using that by simp
  have "(req |` set read_fields) k = req k" if "k \<in> set unsupported_fields" for k
    using that by (intro same) (auto simp: unsupported_fields_def read_fields_def)
  then have found: "find (\<lambda>u. (req |` set read_fields) u \<noteq> None) unsupported_fields =
      find (\<lambda>u. req u \<noteq> None) unsupported_fields"
    by (intro find_cong) auto
  have fields: "(req |` set read_fields) ''model'' = req ''model''"
    "(req |` set read_fields) ''messages'' = req ''messages''"
    "(req |` set read_fields) ''max_tokens'' = req ''max_tokens''"
    "(req |` set read_fields) ''max_completion_tokens'' = req ''max_completion_tokens''"
    "(req |` set read_fields) ''stream'' = req ''stream''"
    "(req |` set read_fields) ''temperature'' = req ''temperature''"
    "(req |` set read_fields) ''top_p'' = req ''top_p''"
    "(req |` set read_fields) ''stop'' = req ''stop''"
    by (rule same, simp add: read_fields_def)+
  show ?thesis unfolding anthropic_of_def max_tokens_of_def found fields ..
qed

end
