(* ===== verification/Telemetry.thy ===== *)
theory Telemetry
  imports Event
begin

text \<open>
  \<open>crates/ancre-gateway/src/telemetry.rs\<close>: the telemetry fork, its drop counter and the batcher.

  The channel is \<open>tokio\<close>'s bounded queue: first in, first out, and whether it takes an event
  is its decision, an argument here. So are the clock, the fresh identifiers, the iteration
  order of the hash map and what a publish answers. A publish that fails may have stored any
  part of its batch.
\<close>

section \<open>Drops by chain\<close>

type_synonym chain_key = "string \<times> string"

record span =
  sn_count :: u64
  sn_first :: i64
  sn_last :: i64

type_synonym chain_spans = "(chain_key \<times> span) list"

record drop_counter =
  dc_total :: u64
  dc_windows :: chain_spans

record drop_window =
  dw_tenant_id :: string
  dw_system_id :: string
  dw_count :: u64
  dw_from :: timestamp
  dw_to :: timestamp

definition MAX_TRACKED_CHAINS :: usize where
  "MAX_TRACKED_CHAINS = 4096"

definition drop_counter_default :: drop_counter where
  "drop_counter_default = \<lparr>dc_total = 0, dc_windows = []\<rparr>"

text \<open>\<open>entry(k).and_modify(f).or_insert(v)\<close>.\<close>

fun entry :: "'k \<Rightarrow> ('v \<Rightarrow> 'v) \<Rightarrow> 'v \<Rightarrow> ('k \<times> 'v) list \<Rightarrow> ('k \<times> 'v) list" where
  "entry k f v [] = [(k, v)]"
| "entry k f v ((k', w) # m) = (if k' = k then (k', f w) # m else (k', w) # entry k f v m)"

definition drop_key :: "chain_spans \<Rightarrow> chain_key \<Rightarrow> chain_key" where
  "drop_key windows k =
     (if length windows \<ge> MAX_TRACKED_CHAINS \<and> k \<notin> fst ` set windows then (UNKNOWN, UNKNOWN) else k)"

definition record_drop :: "i64 \<Rightarrow> chain_key \<Rightarrow> drop_counter \<Rightarrow> drop_counter" where
  "record_drop now k d =
     d\<lparr>dc_total := dc_total d + 1,
       dc_windows := entry (drop_key (dc_windows d) k)
         (\<lambda>s. s\<lparr>sn_count := sn_count s + 1, sn_last := now\<rparr>)
         \<lparr>sn_count = 1, sn_first = now, sn_last = now\<rparr> (dc_windows d)\<rparr>"

definition drop_count :: "drop_counter \<Rightarrow> u64" where
  "drop_count d = dc_total d"

definition window_of :: "chain_key \<times> span \<Rightarrow> drop_window" where
  "window_of e =
     (case e of ((tenant_id, system_id), s) \<Rightarrow>
        \<lparr>dw_tenant_id = tenant_id, dw_system_id = system_id, dw_count = sn_count s,
         dw_from = sn_first s, dw_to = sn_last s\<rparr>)"

definition take_windows :: "(chain_spans \<Rightarrow> chain_spans) \<Rightarrow> drop_counter \<Rightarrow> drop_window list \<times> drop_counter" where
  "take_windows order d = (map window_of (order (dc_windows d)), d\<lparr>dc_windows := []\<rparr>)"

definition restore_one :: "chain_spans \<Rightarrow> drop_window \<Rightarrow> chain_spans" where
  "restore_one windows w =
     entry (dw_tenant_id w, dw_system_id w)
       (\<lambda>s. s\<lparr>sn_count := sn_count s + dw_count w, sn_first := min (sn_first s) (dw_from w),
              sn_last := max (sn_last s) (dw_to w)\<rparr>)
       \<lparr>sn_count = dw_count w, sn_first = dw_from w, sn_last = dw_to w\<rparr> windows"

definition restore :: "drop_window list \<Rightarrow> drop_counter \<Rightarrow> drop_counter" where
  "restore taken d = d\<lparr>dc_windows := foldl restore_one (dc_windows d) taken\<rparr>"

text \<open>\<open>u32::try_from(_).unwrap_or(u32::MAX)\<close>.\<close>

definition u32_of :: "int \<Rightarrow> u32" where
  "u32_of n = (if 0 \<le> n \<and> n < 2 ^ 32 then of_int n else - 1)"

definition into_event :: "uuid \<Rightarrow> string \<Rightarrow> drop_window \<Rightarrow> emitted_event" where
  "into_event fresh node_id w =
     \<lparr>e_tenant_id = dw_tenant_id w, e_system_id = dw_system_id w, e_event_id = fresh,
      e_trace_id = [], e_attempt_seq = 0, e_occurred_at = dw_from w, e_node_id = node_id,
      e_event_type = EvTelemetryDropped, e_outcome = OutcomeError,
      e_pins = gap (dw_system_id w) TelemetryDropped,
      e_request_digest = GENESIS, e_response_digest = GENESIS,
      e_metrics =
        \<lparr>m_provider = [], m_http_status = 0,
         m_latency_ms = u32_of (max (dw_to w - dw_from w) 0 div 1000),
         m_ttft_ms = 0, m_tokens_in = 0, m_tokens_out = u32_of (uint (dw_count w)),
         m_error_code = risk_flag_as_str TelemetryDropped\<rparr>\<rparr>"

section \<open>The fork and the batcher\<close>

record batch_config =
  bc_max_events :: usize
  bc_max_wait_ms :: nat

definition batch_config_default :: batch_config where
  "batch_config_default = \<lparr>bc_max_events = 512, bc_max_wait_ms = 200\<rparr>"

record drain_report =
  dr_published :: u64
  dr_batches :: u64
  dr_failed :: u64
  dr_drop_events :: u64

definition drain_report_default :: drain_report where
  "drain_report_default = \<lparr>dr_published = 0, dr_batches = 0, dr_failed = 0, dr_drop_events = 0\<rparr>"

text \<open>
  Where \<open>run\<close> is suspended: in \<open>recv\<close>, in the publish of a batch, in the publish of drop
  events. The flag says that the flush is the last one.
\<close>

datatype phase =
  Waiting
| Publishing "emitted_event list" bool
| Recovering "drop_window list" bool
| Finished

text \<open>
  A node: the channel, the shared counter, the batcher's state, and the bus: what publishes
  stored that were acknowledged, and what failed publishes had stored.
\<close>

record node =
  nd_queue :: "emitted_event list"
  nd_open :: bool
  nd_drops :: drop_counter
  nd_batch :: "emitted_event list"
  nd_report :: drain_report
  nd_phase :: phase
  nd_stored :: "emitted_event list"
  nd_leaked :: "emitted_event list"

definition node_new :: node where
  "node_new =
     \<lparr>nd_queue = [], nd_open = True, nd_drops = drop_counter_default, nd_batch = [],
      nd_report = drain_report_default, nd_phase = Waiting, nd_stored = [], nd_leaked = []\<rparr>"

definition event_chain :: "emitted_event \<Rightarrow> chain_key" where
  "event_chain e = (e_tenant_id e, e_system_id e)"

definition emit :: "bool \<Rightarrow> i64 \<Rightarrow> emitted_event \<Rightarrow> node \<Rightarrow> node" where
  "emit taken now e n =
     (if taken then n\<lparr>nd_queue := nd_queue n @ [e]\<rparr>
      else n\<lparr>nd_drops := record_drop now (event_chain e) (nd_drops n)\<rparr>)"

text \<open>The loop of \<open>try_recv\<close>; and \<open>drain_now\<close>, which has no limit.\<close>

fun fill_batch :: "usize \<Rightarrow> emitted_event list \<Rightarrow> emitted_event list \<Rightarrow> emitted_event list \<times> emitted_event list" where
  "fill_batch max_events batch [] = (batch, [])"
| "fill_batch max_events batch (e # q) =
     (if length batch < max_events then fill_batch max_events (batch @ [e]) q else (batch, e # q))"

definition drain_now :: "emitted_event list \<Rightarrow> emitted_event list \<times> emitted_event list" where
  "drain_now queue = (queue, [])"

text \<open>\<open>recover\<close> up to its publish, and after it.\<close>

definition flush_done :: "bool \<Rightarrow> node \<Rightarrow> node" where
  "flush_done final n = n\<lparr>nd_phase := if final then Finished else Waiting\<rparr>"

definition start_recover :: "(chain_spans \<Rightarrow> chain_spans) \<Rightarrow> bool \<Rightarrow> node \<Rightarrow> node" where
  "start_recover order final n =
     (case take_windows order (nd_drops n) of
        (windows, d) \<Rightarrow>
          if windows = [] then flush_done final (n\<lparr>nd_drops := d\<rparr>)
          else n\<lparr>nd_drops := d, nd_phase := Recovering windows final\<rparr>)"

definition drop_events :: "(nat \<Rightarrow> uuid) \<Rightarrow> string \<Rightarrow> drop_window list \<Rightarrow> emitted_event list" where
  "drop_events fresh node_id windows = map (\<lambda>(i, w). into_event (fresh i) node_id w) (enumerate 0 windows)"

definition finish_recover :: "emitted_event list \<Rightarrow> emitted_event list option \<Rightarrow> drop_window list \<Rightarrow> bool \<Rightarrow> node \<Rightarrow> node" where
  "finish_recover events failed windows final n =
     flush_done final
       (case failed of
          None \<Rightarrow>
            n\<lparr>nd_stored := nd_stored n @ events,
              nd_report := (nd_report n)\<lparr>dr_drop_events := dr_drop_events (nd_report n) + of_nat (length windows)\<rparr>\<rparr>
        | Some part \<Rightarrow>
            n\<lparr>nd_leaked := nd_leaked n @ part, nd_drops := restore windows (nd_drops n)\<rparr>)"

text \<open>\<open>flush\<close> up to its publish, and after it.\<close>

definition start_flush :: "(chain_spans \<Rightarrow> chain_spans) \<Rightarrow> bool \<Rightarrow> node \<Rightarrow> node" where
  "start_flush order final n =
     (if nd_batch n \<noteq> [] then n\<lparr>nd_batch := [], nd_phase := Publishing (nd_batch n) final\<rparr>
      else start_recover order final n)"

definition record_all :: "(nat \<Rightarrow> i64) \<Rightarrow> chain_key list \<Rightarrow> drop_counter \<Rightarrow> drop_counter" where
  "record_all now keys d = foldl (\<lambda>d (i, k). record_drop (now i) k d) d (enumerate 0 keys)"

definition finish_publish :: "(chain_spans \<Rightarrow> chain_spans) \<Rightarrow> (nat \<Rightarrow> i64) \<Rightarrow> emitted_event list option \<Rightarrow> emitted_event list \<Rightarrow> bool \<Rightarrow> node \<Rightarrow> node" where
  "finish_publish order now failed batch final n =
     start_recover order final
       (case failed of
          None \<Rightarrow>
            n\<lparr>nd_stored := nd_stored n @ batch,
              nd_report := (nd_report n)\<lparr>dr_published := dr_published (nd_report n) + of_nat (length batch),
                dr_batches := dr_batches (nd_report n) + 1\<rparr>,
              nd_batch := []\<rparr>
        | Some part \<Rightarrow>
            n\<lparr>nd_leaked := nd_leaked n @ part,
              nd_report := (nd_report n)\<lparr>dr_failed := dr_failed (nd_report n) + of_nat (length batch)\<rparr>,
              nd_drops := record_all now (map event_chain batch) (nd_drops n),
              nd_batch := []\<rparr>)"

text \<open>The arms of \<open>run\<close>: an event, the closed channel, the elapsed wait.\<close>

definition on_event :: "batch_config \<Rightarrow> (chain_spans \<Rightarrow> chain_spans) \<Rightarrow> node \<Rightarrow> node" where
  "on_event config order n =
     (case nd_queue n of
        [] \<Rightarrow> n
      | e # queue \<Rightarrow>
          (case fill_batch (bc_max_events config) (nd_batch n @ [e]) queue of
             (batch, queue) \<Rightarrow>
               let n = n\<lparr>nd_batch := batch, nd_queue := queue\<rparr> in
               if length batch \<ge> bc_max_events config then start_flush order False n else n))"

definition on_closed :: "(chain_spans \<Rightarrow> chain_spans) \<Rightarrow> node \<Rightarrow> node" where
  "on_closed order n = start_flush order True n"

definition on_elapsed :: "(chain_spans \<Rightarrow> chain_spans) \<Rightarrow> node \<Rightarrow> node" where
  "on_elapsed order n = start_flush order False n"

section \<open>Steps\<close>

text \<open>
  What the requests and the batcher's task do in turn. Requests emit whenever the batcher is
  suspended, its publishes included, as long as there is a fork.
\<close>

inductive node_step :: "batch_config \<Rightarrow> node \<Rightarrow> emitted_event list \<Rightarrow> node \<Rightarrow> bool" for config where
  Emit: "nd_open n \<Longrightarrow> node_step config n [e] (emit taken now e n)"
| Close: "nd_open n \<Longrightarrow> node_step config n [] (n\<lparr>nd_open := False\<rparr>)"
| Event: "nd_phase n = Waiting \<Longrightarrow> nd_queue n \<noteq> [] \<Longrightarrow> (\<And>ws. mset (order ws) = mset ws) \<Longrightarrow>
    node_step config n [] (on_event config order n)"
| Closed: "nd_phase n = Waiting \<Longrightarrow> nd_queue n = [] \<Longrightarrow> \<not> nd_open n \<Longrightarrow> (\<And>ws. mset (order ws) = mset ws) \<Longrightarrow>
    node_step config n [] (on_closed order n)"
| Elapsed: "nd_phase n = Waiting \<Longrightarrow> nd_queue n = [] \<Longrightarrow> nd_open n \<Longrightarrow> (\<And>ws. mset (order ws) = mset ws) \<Longrightarrow>
    node_step config n [] (on_elapsed order n)"
| Published: "nd_phase n = Publishing batch final \<Longrightarrow> (\<And>ws. mset (order ws) = mset ws) \<Longrightarrow>
    set (case failed of None \<Rightarrow> [] | Some part \<Rightarrow> part) \<subseteq> set batch \<Longrightarrow>
    node_step config n [] (finish_publish order now failed batch final n)"
| Recovered: "nd_phase n = Recovering windows final \<Longrightarrow>
    set (case failed of None \<Rightarrow> [] | Some part \<Rightarrow> part) \<subseteq> set (drop_events fresh node_id windows) \<Longrightarrow>
    node_step config n [] (finish_recover (drop_events fresh node_id windows) failed windows final n)"

inductive node_run :: "batch_config \<Rightarrow> node \<Rightarrow> emitted_event list \<Rightarrow> node \<Rightarrow> bool" for config where
  Start: "node_run config n [] n"
| Step: "node_run config m es n \<Longrightarrow> node_step config n fs n' \<Longrightarrow> node_run config m (es @ fs) n'"

section \<open>Accounting\<close>

text \<open>
  What an event says of its chain: itself, or, for the event of a drop window, the number of
  events it stands for.
\<close>

definition weight :: "chain_key \<Rightarrow> emitted_event \<Rightarrow> nat" where
  "weight c e =
     (if event_chain e \<noteq> c then 0
      else if e_event_type e = EvTelemetryDropped then unat (m_tokens_out (e_metrics e)) else 1)"

definition weigh :: "chain_key \<Rightarrow> emitted_event list \<Rightarrow> nat" where
  "weigh c es = sum_list (map (weight c) es)"

definition pending :: "chain_key \<Rightarrow> chain_spans \<Rightarrow> nat" where
  "pending c ws = sum_list (map (\<lambda>(k, s). if k = c then unat (sn_count s) else 0) ws)"

definition window_chain :: "drop_window \<Rightarrow> chain_key" where
  "window_chain w = (dw_tenant_id w, dw_system_id w)"

definition taken_out :: "chain_key \<Rightarrow> drop_window list \<Rightarrow> nat" where
  "taken_out c ws = sum_list (map (\<lambda>w. if window_chain w = c then unat (dw_count w) else 0) ws)"

lemma weigh_simps [simp]:
  "weigh c [] = 0" "weigh c (e # es) = weight c e + weigh c es" "weigh c (es @ fs) = weigh c es + weigh c fs"
  by (simp_all add: weigh_def)

lemma pending_simps [simp]:
  "pending c [] = 0" "pending c ((k, s) # ws) = (if k = c then unat (sn_count s) else 0) + pending c ws"
  by (simp_all add: pending_def)

lemma taken_out_simps [simp]:
  "taken_out c [] = 0"
  "taken_out c (w # ws) = (if window_chain w = c then unat (dw_count w) else 0) + taken_out c ws"
  by (simp_all add: taken_out_def)

lemma unat_plus: "unat a + unat b < 2 ^ 64 \<Longrightarrow> unat (a + b :: u64) = unat a + unat b"
  by (simp add: unat_word_ariths)

lemma entry_keys: "fst ` set (entry k f v ws) = insert k (fst ` set ws)"
  by (induction k f v ws rule: entry.induct) auto

lemma entry_distinct: "distinct (map fst ws) \<Longrightarrow> distinct (map fst (entry k f v ws))"
  by (induction k f v ws rule: entry.induct) (auto simp: entry_keys dest: image_eqI)

lemma pending_entry:
  assumes "sn_count v = n" "\<And>s. sn_count (f s) = sn_count s + n" "pending k ws + unat n < 2 ^ 64"
  shows "pending c (entry k f v ws) = pending c ws + (if c = k then unat n else 0)"
  using assms
proof (induction k f v ws rule: entry.induct)
  case (2 k f v k' s ws)
  show ?case
  proof (cases "k' = k")
    case True
    then have "unat (sn_count s) + unat n < 2 ^ 64" using 2(4) by simp
    then show ?thesis using True 2(3) unat_plus by auto
  next
    case False
    then show ?thesis using 2 by auto
  qed
qed auto

lemma drop_key_tracked:
  assumes "distinct (map fst ws)" "fst ` set ws \<subseteq> C" "k \<in> C" "finite C" "card C \<le> MAX_TRACKED_CHAINS"
  shows "drop_key ws k = k"
proof (rule ccontr)
  assume "drop_key ws k \<noteq> k"
  then have long: "length ws \<ge> MAX_TRACKED_CHAINS" "k \<notin> fst ` set ws" by (auto simp: drop_key_def split: if_splits)
  have "card (insert k (fst ` set ws)) = Suc (length ws)"
    using long(2) distinct_card [OF assms(1)] by simp
  moreover have "card (insert k (fst ` set ws)) \<le> card C" using assms by (intro card_mono) auto
  ultimately show False using long(1) assms(5) by simp
qed

lemma record_drop_tracked:
  assumes "distinct (map fst (dc_windows d))" "fst ` set (dc_windows d) \<subseteq> C" "k \<in> C" "finite C"
    "card C \<le> MAX_TRACKED_CHAINS" "pending k (dc_windows d) + 1 < 2 ^ 64"
  shows "distinct (map fst (dc_windows (record_drop now k d)))"
    "fst ` set (dc_windows (record_drop now k d)) \<subseteq> C"
    "pending c (dc_windows (record_drop now k d)) = pending c (dc_windows d) + (if c = k then 1 else 0)"
proof -
  have key: "drop_key (dc_windows d) k = k" using drop_key_tracked assms by metis
  show "distinct (map fst (dc_windows (record_drop now k d)))"
    "fst ` set (dc_windows (record_drop now k d)) \<subseteq> C"
    using assms by (simp_all add: record_drop_def key entry_distinct entry_keys)
  show "pending c (dc_windows (record_drop now k d)) = pending c (dc_windows d) + (if c = k then 1 else 0)"
    using pending_entry [of _ 1 _ k "dc_windows d" c] assms(6) by (simp add: record_drop_def key)
qed

lemma record_all_snoc:
  "record_all now (ks @ [k]) d = record_drop (now (length ks)) k (record_all now ks d)"
  by (simp add: record_all_def enumerate_append_eq)

lemma record_all_tracked:
  assumes "distinct (map fst (dc_windows d))" "fst ` set (dc_windows d) \<subseteq> C" "set ks \<subseteq> C" "finite C"
    "card C \<le> MAX_TRACKED_CHAINS" "\<And>c. pending c (dc_windows d) + count_list ks c < 2 ^ 64"
  shows "distinct (map fst (dc_windows (record_all now ks d))) \<and>
    fst ` set (dc_windows (record_all now ks d)) \<subseteq> C \<and>
    (\<forall>c. pending c (dc_windows (record_all now ks d)) = pending c (dc_windows d) + count_list ks c)"
  using assms(3, 6)
proof (induction ks rule: rev_induct)
  case Nil
  then show ?case using assms(1, 2) by (simp add: record_all_def)
next
  case (snoc k ks)
  have less: "pending c (dc_windows d) + count_list ks c < 2 ^ 64" for c
    using snoc.prems(2) [of c] by simp
  have "set ks \<subseteq> C" using snoc.prems(1) by simp
  note both = snoc.IH [OF this less]
  note IH = both [THEN conjunct1] both [THEN conjunct2, THEN conjunct1]
    both [THEN conjunct2, THEN conjunct2, rule_format]
  have "pending k (dc_windows (record_all now ks d)) + 1 < 2 ^ 64"
    using IH(3) snoc.prems(2) [of k] by simp
  then show ?case
    using record_drop_tracked [OF IH(1,2) _ assms(4,5), of k] snoc.prems(1) IH(3)
    by (auto simp: record_all_snoc)
qed

lemma weigh_plain:
  "\<forall>e \<in> set es. e_event_type e \<noteq> EvTelemetryDropped \<Longrightarrow> weigh c es = count_list (map event_chain es) c"
  by (induction es) (auto simp: weight_def)

lemma pending_mset: "mset ws = mset ws' \<Longrightarrow> pending c ws = pending c ws'"
proof -
  have "pending c ws = (\<Sum>e\<in>#mset ws. case e of (k, s) \<Rightarrow> if k = c then unat (sn_count s) else 0)" for ws
    unfolding pending_def by (simp flip: sum_mset_sum_list)
  then show "mset ws = mset ws' \<Longrightarrow> pending c ws = pending c ws'" by simp
qed

lemma taken_out_windows: "taken_out c (map window_of ws) = pending c ws"
  by (induction ws) (auto simp: window_of_def window_chain_def split: prod.splits)

lemma window_chain_window_of [simp]: "window_chain (window_of e) = fst e"
  by (simp add: window_of_def window_chain_def split: prod.splits)

lemma restore_one_tracked:
  assumes "distinct (map fst ws)" "pending (window_chain w) ws + unat (dw_count w) < 2 ^ 64"
  shows "distinct (map fst (restore_one ws w))"
    "fst ` set (restore_one ws w) = insert (window_chain w) (fst ` set ws)"
    "pending c (restore_one ws w) = pending c ws + (if c = window_chain w then unat (dw_count w) else 0)"
  using assms pending_entry [of _ "dw_count w" _ "window_chain w" ws c]
  by (simp_all add: restore_one_def entry_distinct entry_keys window_chain_def)

lemma restore_tracked:
  assumes "distinct (map fst ws)" "\<And>c. pending c ws + taken_out c taken < 2 ^ 64"
  shows "distinct (map fst (foldl restore_one ws taken)) \<and>
    fst ` set (foldl restore_one ws taken) = window_chain ` set taken \<union> fst ` set ws \<and>
    (\<forall>c. pending c (foldl restore_one ws taken) = pending c ws + taken_out c taken)"
  using assms
proof (induction taken arbitrary: ws)
  case (Cons w taken)
  have "pending (window_chain w) ws + unat (dw_count w) < 2 ^ 64"
    using Cons.prems(2) [of "window_chain w"] by simp
  note one = restore_one_tracked [OF Cons.prems(1) this]
  have "pending c (restore_one ws w) + taken_out c taken < 2 ^ 64" for c
    using Cons.prems(2) [of c] one(3) [of c] by (auto split: if_splits)
  from Cons.IH [OF one(1) this] show ?case using one(2,3) by auto
qed simp

lemma u32_of_small:
  fixes n :: u64
  assumes "unat n < 2 ^ 32"
  shows "unat (u32_of (uint n)) = unat n"
proof -
  have "nat (uint n) < 2 ^ 32" using assms by (simp only: unat_eq_nat_uint)
  then have "uint n < 2 ^ 32" by (simp only: nat_less_iff [OF unsigned_greater_eq]) simp
  then have "u32_of (uint n) = of_int (uint n)" by (simp add: u32_of_def)
  also have "\<dots> = of_nat (unat n)" by (metis of_int_of_nat_eq uint_nat)
  finally show ?thesis using assms by (simp add: unsigned_of_nat take_bit_nat_eq_self del: of_nat_unat)
qed

lemma weigh_drop_events:
  assumes "\<And>c. taken_out c ws < 2 ^ 32"
  shows "weigh c (drop_events fresh node_id ws) = taken_out c ws"
proof -
  have "weigh c (map (\<lambda>(i, w). into_event (fresh i) node_id w) (enumerate k ws)) = taken_out c ws"
    if "\<And>c. taken_out c ws < 2 ^ 32" for k
    using that
  proof (induction ws arbitrary: k)
    case (Cons w ws)
    have few: "unat (dw_count w) < 2 ^ 32" using Cons.prems [of "window_chain w"] by simp
    have "unat (u32_of (uint (dw_count w))) = unat (dw_count w)" by (rule u32_of_small [OF few])
    then have "weight c (into_event (fresh k) node_id w) = (if window_chain w = c then unat (dw_count w) else 0)"
      by (simp add: weight_def into_event_def event_chain_def window_chain_def)
    moreover have "taken_out c ws < 2 ^ 32" for c using Cons.prems [of c] by simp
    ultimately show ?case using Cons.IH by simp
  qed simp
  then show ?thesis using assms by (simp add: drop_events_def)
qed

section \<open>Every emitted event is accounted for\<close>

definition in_flight :: "node \<Rightarrow> emitted_event list" where
  "in_flight n = (case nd_phase n of Publishing batch _ \<Rightarrow> batch | _ \<Rightarrow> [])"

definition recovering :: "node \<Rightarrow> drop_window list" where
  "recovering n = (case nd_phase n of Recovering windows _ \<Rightarrow> windows | _ \<Rightarrow> [])"

definition unpublished :: "node \<Rightarrow> emitted_event list" where
  "unpublished n = nd_queue n @ nd_batch n @ in_flight n"

definition accounted :: "chain_key \<Rightarrow> node \<Rightarrow> nat" where
  "accounted c n =
     weigh c (unpublished n) + weigh c (nd_stored n) + pending c (dc_windows (nd_drops n)) +
     taken_out c (recovering n)"

definition genuine :: "emitted_event list \<Rightarrow> bool" where
  "genuine es \<longleftrightarrow> (\<forall>e \<in> set es. e_event_type e \<noteq> EvTelemetryDropped)"

text \<open>Which chains and events the node holds.\<close>

definition keeps_chains :: "chain_key set \<Rightarrow> node \<Rightarrow> bool" where
  "keeps_chains C n \<longleftrightarrow>
     genuine (unpublished n) \<and> event_chain ` set (unpublished n) \<subseteq> C \<and>
     distinct (map fst (dc_windows (nd_drops n))) \<and> fst ` set (dc_windows (nd_drops n)) \<subseteq> C \<and>
     window_chain ` set (recovering n) \<subseteq> C \<and>
     (nd_phase n \<noteq> Waiting \<longrightarrow> nd_batch n = [])"

definition lawful :: "chain_key set \<Rightarrow> emitted_event list \<Rightarrow> node \<Rightarrow> bool" where
  "lawful C es n \<longleftrightarrow> (\<forall>c. accounted c n = weigh c es) \<and> keeps_chains C n"

lemma lawfulI: "(\<And>c. accounted c n = weigh c es) \<Longrightarrow> keeps_chains C n \<Longrightarrow> lawful C es n"
  by (simp add: lawful_def)

lemma lawfulD: "lawful C es n \<Longrightarrow> accounted c n = weigh c es" "lawful C es n \<Longrightarrow> keeps_chains C n"
  by (cases c) (simp_all add: lawful_def)

lemma genuine_simps [simp]:
  "genuine []" "genuine (e # es) \<longleftrightarrow> e_event_type e \<noteq> EvTelemetryDropped \<and> genuine es"
  "genuine (es @ fs) \<longleftrightarrow> genuine es \<and> genuine fs"
  by (auto simp: genuine_def)

lemma weigh_genuine: "genuine es \<Longrightarrow> weigh c es = count_list (map event_chain es) c"
  by (simp add: genuine_def weigh_plain)

lemmas acct_simps = accounted_def unpublished_def in_flight_def recovering_def
lemmas node_simps = keeps_chains_def unpublished_def in_flight_def recovering_def

lemma weigh_mset: "mset es = mset fs \<Longrightarrow> weigh c es = weigh c fs"
proof -
  have "weigh c es = (\<Sum>e\<in>#mset es. weight c e)" for es
    unfolding weigh_def by (simp flip: sum_mset_sum_list)
  then show "mset es = mset fs \<Longrightarrow> weigh c es = weigh c fs" by simp
qed

lemma start_recover_lawful:
  assumes "lawful C es (n\<lparr>nd_phase := Waiting\<rparr>)" "nd_batch n = []" "\<And>ws. mset (order ws) = mset ws"
  shows "lawful C es (start_recover order final n)"
proof (rule lawfulI)
  let ?ws = "dc_windows (nd_drops n)"
  have count: "taken_out c (map window_of (order ?ws)) = pending c ?ws" for c
    unfolding taken_out_windows by (rule pending_mset) (rule assms(3))
  have chains: "window_chain ` set (map window_of (order ?ws)) = fst ` set ?ws"
    using mset_eq_setD [OF assms(3), of ?ws] by (simp add: image_image)
  fix c
  show "accounted c (start_recover order final n) = weigh c es"
    using lawfulD(1) [OF assms(1), of c] assms(2) count [of c]
    by (cases "order ?ws = []") (simp_all add: start_recover_def take_windows_def flush_done_def acct_simps)
  show "keeps_chains C (start_recover order final n)"
    using lawfulD(2) [OF assms(1)] assms(2) chains
    by (simp add: start_recover_def take_windows_def flush_done_def node_simps)
qed

lemma start_flush_lawful:
  assumes "lawful C es n" "nd_phase n = Waiting" "\<And>ws. mset (order ws) = mset ws"
  shows "lawful C es (start_flush order final n)"
proof (cases "nd_batch n = []")
  case True
  have same: "n\<lparr>nd_phase := Waiting\<rparr> = n" using assms(2) by (cases n) simp
  have "lawful C es (start_recover order final n)"
    by (rule start_recover_lawful) (simp_all only: same assms True)
  then show ?thesis using True by (simp add: start_flush_def)
next
  case False
  show ?thesis
  proof (rule lawfulI)
    fix c
    show "accounted c (start_flush order final n) = weigh c es"
      using lawfulD(1) [OF assms(1), of c] assms(2) False by (simp add: start_flush_def acct_simps)
    show "keeps_chains C (start_flush order final n)"
      using lawfulD(2) [OF assms(1)] assms(2) False by (simp add: start_flush_def node_simps)
  qed
qed

lemma fill_batch_eq:
  "fill_batch m b q = (b @ take (m - length b) q, drop (m - length b) q)"
proof (induction m b q rule: fill_batch.induct)
  case (2 m b e q)
  show ?case
  proof (cases "length b < m")
    case True
    then have "m - length b = Suc (m - length (b @ [e]))" by simp
    then show ?thesis using 2 True by simp
  qed simp
qed simp

lemma on_event_lawful:
  assumes "lawful C es n" "nd_phase n = Waiting" "nd_queue n \<noteq> []" "\<And>ws. mset (order ws) = mset ws"
  shows "lawful C es (on_event config order n)"
proof -
  obtain e q where q: "nd_queue n = e # q" using assms(3) by (cases "nd_queue n") auto
  let ?k = "bc_max_events config - length (nd_batch n @ [e])"
  let ?n = "n\<lparr>nd_batch := (nd_batch n @ [e]) @ take ?k q, nd_queue := drop ?k q\<rparr>"
  have "mset (take ?k q) + mset (drop ?k q) = mset q" by (metis append_take_drop_id mset_append)
  then have events: "mset (unpublished ?n) = mset (unpublished n)"
    using assms(2) q by (simp add: unpublished_def in_flight_def ac_simps)
  have "set (unpublished ?n) = set (unpublished n)" using mset_eq_setD [OF events] .
  then have "keeps_chains C ?n"
    using lawfulD(2) [OF assms(1)] assms(2) unfolding keeps_chains_def genuine_def by (simp add: recovering_def)
  moreover have "accounted c ?n = weigh c es" for c
    using weigh_mset [OF events] lawfulD(1) [OF assms(1), of c] by (simp add: accounted_def recovering_def)
  ultimately have new: "lawful C es ?n" by (intro lawfulI)
  have flush: "lawful C es (start_flush order False ?n)"
    by (rule start_flush_lawful [OF new]) (simp_all add: assms(2,4))
  show ?thesis
    by (simp only: on_event_def q list.case fill_batch_eq prod.case Let_def new flush split: if_split) simp
qed

lemma emit_lawful:
  assumes "lawful C es n" "e_event_type e \<noteq> EvTelemetryDropped" "event_chain e \<in> C" "finite C"
    "card C \<le> MAX_TRACKED_CHAINS" "\<And>c. weigh c es < 2 ^ 32"
  shows "lawful C (es @ [e]) (emit taken now e n)"
proof (rule lawfulI)
  let ?ws = "dc_windows (nd_drops n)"
  have "pending (event_chain e) ?ws \<le> weigh (event_chain e) es"
    using lawfulD(1) [OF assms(1), of "event_chain e"] by (simp add: accounted_def)
  then have "pending (event_chain e) ?ws + 1 < 2 ^ 64" using assms(6) [of "event_chain e"] by simp
  note one = record_drop_tracked [OF _ _ assms(3,4,5) this]
  note held = lawfulD(2) [OF assms(1)]
  have w: "weight c e = (if c = event_chain e then 1 else 0)" for c
    using assms(2) by (simp add: weight_def)
  fix c
  show "accounted c (emit taken now e n) = weigh c (es @ [e])"
    using lawfulD(1) [OF assms(1), of c] w [of c] one(3) [where now = now and c = c] held
    by (cases taken) (simp_all add: emit_def accounted_def unpublished_def in_flight_def recovering_def
      keeps_chains_def del: split_paired_All)
  show "keeps_chains C (emit taken now e n)"
    using held one(1,2) [where now = now] assms(2,3)
    by (cases taken) (simp_all add: emit_def node_simps)
qed

lemma finish_publish_lawful:
  assumes "lawful C es n" "nd_phase n = Publishing batch final" "\<And>ws. mset (order ws) = mset ws"
    "finite C" "card C \<le> MAX_TRACKED_CHAINS" "\<And>c. weigh c es < 2 ^ 32"
  shows "lawful C es (finish_publish order now failed batch final n)"
proof (cases failed)
  case None
  show ?thesis
    unfolding finish_publish_def None option.case
  proof (intro start_recover_lawful lawfulI)
    fix c
    show "accounted c (n\<lparr>nd_stored := nd_stored n @ batch,
        nd_report := (nd_report n)\<lparr>dr_published := dr_published (nd_report n) + of_nat (length batch),
          dr_batches := dr_batches (nd_report n) + 1\<rparr>, nd_batch := [], nd_phase := Waiting\<rparr>) = weigh c es"
      using lawfulD(1) [OF assms(1), of c] lawfulD(2) [OF assms(1)] assms(2) by (simp add: acct_simps keeps_chains_def)
  qed (use lawfulD(2) [OF assms(1)] assms(2,3) in \<open>simp_all add: node_simps image_Un\<close>)
next
  case (Some part)
  let ?ws = "dc_windows (nd_drops n)" and ?keys = "map event_chain batch"
  let ?d = "record_all now ?keys (nd_drops n)"
  note held = lawfulD(2) [OF assms(1)]
  have weigh: "weigh c batch = count_list ?keys c" for c
    using held assms(2) by (intro weigh_genuine) (simp add: node_simps)
  have "pending c ?ws + count_list ?keys c < 2 ^ 64" for c
  proof -
    have "pending c ?ws + count_list ?keys c \<le> accounted c n"
      using assms(2) weigh by (simp add: accounted_def unpublished_def in_flight_def)
    then show ?thesis using lawfulD(1) [OF assms(1), of c] assms(6) [of c] by simp
  qed
  note all = record_all_tracked [OF _ _ _ assms(4,5) this]
  have d: "distinct (map fst (dc_windows ?d)) \<and> fst ` set (dc_windows ?d) \<subseteq> C \<and>
    (\<forall>c. pending c (dc_windows ?d) = pending c ?ws + count_list ?keys c)"
    by (rule all) (use held assms(2) in \<open>simp_all add: node_simps image_Un\<close>)
  note d = d [THEN conjunct1] d [THEN conjunct2, THEN conjunct1] d [THEN conjunct2, THEN conjunct2, THEN spec]
  show ?thesis
    unfolding finish_publish_def Some option.case
  proof (intro start_recover_lawful lawfulI)
    fix c
    show "accounted c (n\<lparr>nd_leaked := nd_leaked n @ part,
        nd_report := (nd_report n)\<lparr>dr_failed := dr_failed (nd_report n) + of_nat (length batch)\<rparr>,
        nd_drops := ?d, nd_batch := [], nd_phase := Waiting\<rparr>) = weigh c es"
      using lawfulD(1) [OF assms(1), of c] lawfulD(2) [OF assms(1)] assms(2) d(3) [of c] weigh [of c] by (simp add: acct_simps keeps_chains_def)
  qed (use held assms(2,3) d(1,2) in \<open>simp_all add: node_simps image_Un\<close>)
qed

lemma finish_recover_lawful:
  assumes "lawful C es n" "nd_phase n = Recovering windows final" "\<And>c. weigh c es < 2 ^ 32"
  shows "lawful C es (finish_recover (drop_events fresh node_id windows) failed windows final n)"
proof -
  let ?ws = "dc_windows (nd_drops n)"
  note held = lawfulD(2) [OF assms(1)]
  have all: "pending c ?ws + taken_out c windows < 2 ^ 32" for c
  proof -
    have "pending c ?ws + taken_out c windows \<le> accounted c n"
      using assms(2) by (simp add: accounted_def recovering_def)
    also have "\<dots> = weigh c es" by (rule lawfulD(1) [OF assms(1)])
    also have "\<dots> < 2 ^ 32" by (rule assms(3))
    finally show ?thesis .
  qed
  have "taken_out c windows < 2 ^ 32" for c using all [of c] by simp
  then have stands: "weigh c (drop_events fresh node_id windows) = taken_out c windows" for c
    by (rule weigh_drop_events)
  have "pending c ?ws + taken_out c windows < 2 ^ 64" for c using all [of c] by simp
  then have restored: "distinct (map fst (foldl restore_one ?ws windows))"
    "fst ` set (foldl restore_one ?ws windows) = window_chain ` set windows \<union> fst ` set ?ws"
    "\<And>c. pending c (foldl restore_one ?ws windows) = pending c ?ws + taken_out c windows"
    using restore_tracked [of ?ws windows, THEN conjunct1] restore_tracked [of ?ws windows, THEN conjunct2, THEN conjunct1]
      restore_tracked [of ?ws windows, THEN conjunct2, THEN conjunct2, THEN spec] held
    by (simp_all add: keeps_chains_def)
  show ?thesis
  proof (rule lawfulI)
    fix c
    show "accounted c (finish_recover (drop_events fresh node_id windows) failed windows final n) = weigh c es"
      using lawfulD(1) [OF assms(1), of c] assms(2) stands [of c] restored(3) [of c]
      by (cases failed) (simp_all add: finish_recover_def flush_done_def restore_def acct_simps)
    show "keeps_chains C (finish_recover (drop_events fresh node_id windows) failed windows final n)"
      using held assms(2) restored(1,2)
      by (cases failed) (simp_all add: finish_recover_def flush_done_def restore_def node_simps image_Un)
  qed
qed


lemma weigh_le: "genuine es \<Longrightarrow> weigh c es \<le> length es"
  by (metis count_le_length length_map weigh_genuine)

lemma node_step_lawful:
  assumes "node_step config n fs n'" "lawful C es n" "genuine fs" "event_chain ` set fs \<subseteq> C"
    "finite C" "card C \<le> MAX_TRACKED_CHAINS" "\<And>c. weigh c es < 2 ^ 32"
  shows "lawful C (es @ fs) n'"
  using assms(1)
proof cases
  case (Emit e taken now)
  then show ?thesis using emit_lawful [OF assms(2) _ _ assms(5-7)] assms(3,4) by simp
next
  case Close
  have "accounted c n' = accounted c n" for c using Close(2) by (simp add: acct_simps)
  moreover have "keeps_chains C n' = keeps_chains C n" using Close(2) by (simp add: node_simps)
  ultimately show ?thesis using Close assms(2) by (simp add: lawful_def)
next
  case (Event order)
  then show ?thesis using on_event_lawful [OF assms(2)] by simp
next
  case (Closed order)
  then show ?thesis using start_flush_lawful [OF assms(2)] by (simp add: on_closed_def)
next
  case (Elapsed order)
  then show ?thesis using start_flush_lawful [OF assms(2)] by (simp add: on_elapsed_def)
next
  case (Published batch final order failed now)
  then show ?thesis using finish_publish_lawful [OF assms(2) _ _ assms(5-7)] by simp
next
  case (Recovered windows final failed fresh node_id)
  then show ?thesis using finish_recover_lawful [OF assms(2) _ assms(7)] by simp
qed

lemma node_run_lawful:
  assumes "node_run config node_new es n" "finite C" "card C \<le> MAX_TRACKED_CHAINS" "length es < 2 ^ 32"
    "genuine es" "event_chain ` set es \<subseteq> C"
  shows "lawful C es n"
  using assms(1,4-6)
proof (induction node_new es n)
  case Start
  show ?case
    by (rule lawfulI) (simp_all add: node_new_def drop_counter_default_def acct_simps node_simps)
next
  case (Step es n fs n')
  then have less: "length es < 2 ^ 32" and es: "genuine es" "genuine fs" "event_chain ` set es \<subseteq> C"
    "event_chain ` set fs \<subseteq> C"
    by auto
  then have old: "lawful C es n" using Step by blast
  have "weigh c es < 2 ^ 32" for c using weigh_le [OF es(1), of c] less by (rule le_less_trans)
  then show ?case using node_step_lawful [OF Step(3) old es(2,4) assms(2,3)] by blast
qed

lemma node_accounts:
  assumes "node_run config node_new es n" "length es < 2 ^ 32" "genuine es"
    "card (event_chain ` set es) \<le> MAX_TRACKED_CHAINS"
  shows "length (filter (\<lambda>e. event_chain e = c) es) =
    weigh c (nd_queue n) + weigh c (nd_batch n) + weigh c (in_flight n) + weigh c (nd_stored n) +
    pending c (dc_windows (nd_drops n)) + taken_out c (recovering n)"
proof -
  have "lawful (event_chain ` set es) es n"
    using node_run_lawful [OF assms(1) _ assms(4,2,3)] by simp
  then have "accounted c n = weigh c es" by (rule lawfulD)
  moreover have "weigh c es = length (filter (\<lambda>e. event_chain e = c) es)"
    using assms(3) by (induction es) (auto simp: weight_def)
  ultimately show ?thesis by (simp add: accounted_def unpublished_def)
qed

text \<open>
  No event vanishes without a trace: whatever requests and the batcher do in turn, and whichever
  publishes fail, each chain's emitted events are exactly those still on the node, those
  acknowledged by the bus, and those counted in a drop window, which is pending, being
  published, or acknowledged as an event of that chain. (At most 4096 chains, fewer than
  \<open>2 ^ 32\<close> events, none emitted as a drop event itself.)
\<close>

theorem no_silent_loss:
  assumes "node_run config node_new es n" "length es < 2 ^ 32" "genuine es"
    "card (event_chain ` set es) \<le> MAX_TRACKED_CHAINS"
  shows "length (filter (\<lambda>e. event_chain e = c) es) =
    weigh c (nd_queue n) + weigh c (nd_batch n) + weigh c (in_flight n) + weigh c (nd_stored n) +
    pending c (dc_windows (nd_drops n)) + taken_out c (recovering n)"
  using node_accounts [OF assms] .

definition demo_window :: drop_window where
  "demo_window =
     \<lparr>dw_tenant_id = ''acme'', dw_system_id = ''hr'', dw_count = 1, dw_from = 5, dw_to = 5\<rparr>"

definition demo_event :: emitted_event where
  "demo_event = (into_event 7 ''gw-1'' demo_window)\<lparr>e_event_type := LlmRequest\<rparr>"

text \<open>One event is taken, one is refused; the batch and then the drop window are published.\<close>

definition demo_node :: node where
  "demo_node =
     (let n = emit False 5 demo_event (emit True 4 demo_event node_new);
          n = on_elapsed (\<lambda>ws. ws) (on_event batch_config_default (\<lambda>ws. ws) n);
          n = finish_publish (\<lambda>ws. ws) (\<lambda>_. 6) None [demo_event] False n
      in finish_recover (drop_events (\<lambda>_. 8) ''gw-1'' [demo_window]) None [demo_window] False n)"

lemmas demo_node_simps = demo_event_def demo_window_def demo_node_def emit_def node_new_def
  drop_counter_default_def on_elapsed_def on_event_def batch_config_default_def start_flush_def
  finish_publish_def finish_recover_def start_recover_def take_windows_def window_of_def
  flush_done_def record_drop_def drop_key_def event_chain_def into_event_def drop_events_def
  MAX_TRACKED_CHAINS_def

lemma demo_node_run: "node_run batch_config_default node_new [demo_event, demo_event] demo_node"
proof -
  define n1 where "n1 = emit True 4 demo_event node_new"
  define n2 where "n2 = emit False 5 demo_event n1"
  define n3 where "n3 = on_event batch_config_default (\<lambda>ws. ws) n2"
  define n4 where "n4 = on_elapsed (\<lambda>ws. ws) n3"
  define n5 where "n5 = finish_publish (\<lambda>ws. ws) (\<lambda>_. 6) None [demo_event] False n4"
  have n2: "nd_phase n2 = Waiting" "nd_queue n2 = [demo_event]" "nd_open n2" "nd_batch n2 = []"
    by (simp_all add: n2_def n1_def emit_def node_new_def)
  then have n3: "nd_phase n3 = Waiting" "nd_queue n3 = []" "nd_open n3" "nd_batch n3 = [demo_event]"
    "nd_drops n3 = nd_drops n2"
    by (simp_all add: n3_def on_event_def batch_config_default_def)
  then have n4: "nd_phase n4 = Publishing [demo_event] False" "nd_drops n4 = nd_drops n2"
    by (simp_all add: n4_def on_elapsed_def start_flush_def)
  have "dc_windows (nd_drops n2) = [((''acme'', ''hr''), \<lparr>sn_count = 1, sn_first = 5, sn_last = 5\<rparr>)]"
    by (simp add: n2_def n1_def demo_node_simps)
  then have n5: "nd_phase n5 = Recovering [demo_window] False"
    using n4(2) by (simp add: n5_def finish_publish_def start_recover_def take_windows_def window_of_def demo_window_def)
  have "node_run batch_config_default node_new ([] @ [demo_event]) n1"
    unfolding n1_def by (rule node_run.Step [OF node_run.Start node_step.Emit]) (simp add: node_new_def)
  then have "node_run batch_config_default node_new (([] @ [demo_event]) @ [demo_event]) n2"
    unfolding n2_def by (rule node_run.Step [OF _ node_step.Emit]) (simp add: n1_def emit_def node_new_def)
  then have "node_run batch_config_default node_new ((([] @ [demo_event]) @ [demo_event]) @ []) n3"
    unfolding n3_def by (rule node_run.Step [OF _ node_step.Event]) (simp_all add: n2)
  then have "node_run batch_config_default node_new (((([] @ [demo_event]) @ [demo_event]) @ []) @ []) n4"
    unfolding n4_def by (rule node_run.Step [OF _ node_step.Elapsed]) (simp_all add: n3)
  then have "node_run batch_config_default node_new ((((([] @ [demo_event]) @ [demo_event]) @ []) @ []) @ []) n5"
    unfolding n5_def by (rule node_run.Step [OF _ node_step.Published]) (simp_all add: n4)
  then have "node_run batch_config_default node_new (((((([] @ [demo_event]) @ [demo_event]) @ []) @ []) @ []) @ [])
      (finish_recover (drop_events (\<lambda>_. 8) ''gw-1'' [demo_window]) None [demo_window] False n5)"
    by (rule node_run.Step [OF _ node_step.Recovered]) (simp_all add: n5)
  moreover have "demo_node = finish_recover (drop_events (\<lambda>_. 8) ''gw-1'' [demo_window]) None [demo_window] False n5"
    by (simp add: demo_node_def n5_def n4_def n3_def n2_def n1_def Let_def)
  ultimately show ?thesis by simp
qed

theorem no_silent_loss_witness:
  "2 = weigh (''acme'', ''hr'') (nd_queue demo_node) + weigh (''acme'', ''hr'') (nd_batch demo_node) +
    weigh (''acme'', ''hr'') (in_flight demo_node) + weigh (''acme'', ''hr'') (nd_stored demo_node) +
    pending (''acme'', ''hr'') (dc_windows (nd_drops demo_node)) +
    taken_out (''acme'', ''hr'') (recovering demo_node)"
proof -
  have "event_chain demo_event = (''acme'', ''hr'')" "e_event_type demo_event = LlmRequest"
    by (simp_all add: demo_event_def event_chain_def into_event_def demo_window_def)
  then show ?thesis
    using no_silent_loss [OF demo_node_run, of "(''acme'', ''hr'')"]
    by (simp add: MAX_TRACKED_CHAINS_def)
qed

section \<open>What the batcher does not bound\<close>

text \<open>Events that arrive one by one, each before the wait for the next has elapsed.\<close>

definition trickle :: "batch_config \<Rightarrow> (chain_spans \<Rightarrow> chain_spans) \<Rightarrow> i64 \<Rightarrow> emitted_event list \<Rightarrow> node \<Rightarrow> node" where
  "trickle config order now es n = foldl (\<lambda>n e. on_event config order (emit True now e n)) n es"

text \<open>
  The wait starts again with every event: as long as events keep coming one by one, however slowly
  within \<open>max_wait\<close> of each other, none is published before \<open>max_events\<close> have gathered.
\<close>

theorem trickle_unpublished:
  assumes "nd_queue n = []" "length (nd_batch n) + length es < bc_max_events config"
  shows "trickle config order now es n = n\<lparr>nd_batch := nd_batch n @ es\<rparr>"
  using assms
proof (induction es arbitrary: n)
  case (Cons e es)
  have "on_event config order (emit True now e n) = n\<lparr>nd_batch := nd_batch n @ [e]\<rparr>"
    using Cons.prems by (simp add: on_event_def emit_def)
  then show ?case using Cons by (simp add: trickle_def)
qed (simp add: trickle_def)

lemma trickle_witness:
  "trickle batch_config_default (\<lambda>ws. ws) 0 [demo_event] node_new = node_new\<lparr>nd_batch := [demo_event]\<rparr>"
  by (subst trickle_unpublished) (simp_all add: node_new_def batch_config_default_def)

lemma length_entry: "length (entry k f v ws) = (if k \<in> fst ` set ws then length ws else Suc (length ws))"
  by (induction k f v ws rule: entry.induct) auto

text \<open>The bound on tracked chains is asked when a drop is recorded; \<open>restore\<close> adds whatever it is given.\<close>

theorem restore_unbounded:
  assumes "distinct (map window_chain taken)" "window_chain ` set taken \<inter> fst ` set (dc_windows d) = {}"
  shows "length (dc_windows (restore taken d)) = length (dc_windows d) + length taken"
proof -
  have "length (foldl restore_one ws taken) = length ws + length taken"
    if "distinct (map window_chain taken)" "window_chain ` set taken \<inter> fst ` set ws = {}" for ws
    using that
  proof (induction taken arbitrary: ws)
    case (Cons w taken)
    have "length (restore_one ws w) = Suc (length ws)" "fst ` set (restore_one ws w) = insert (window_chain w) (fst ` set ws)"
      using Cons.prems(2) by (auto simp: restore_one_def length_entry entry_keys window_chain_def)
    then show ?case using Cons.IH [of "restore_one ws w"] Cons.prems by auto
  qed simp
  then show ?thesis using assms by (simp add: restore_def)
qed

text \<open>
  A recovery that fails after its events were stored is tried again under fresh identifiers, so
  the bus holds the same drops twice.
\<close>

theorem failed_recovery_counts_twice:
  assumes "nd_phase n = Recovering [w] False" "dc_windows (nd_drops n) = []" "nd_batch n = []"
    "unat (dw_count w) < 2 ^ 32"
    "n' = on_elapsed (\<lambda>ws. ws)
      (finish_recover (drop_events fresh node_id [w]) (Some (drop_events fresh node_id [w])) [w] False n)"
    "n'' = finish_recover (drop_events fresh' node_id [w]) None [w] False n'"
  shows "nd_phase n' = Recovering [w] False \<and>
    weigh (window_chain w) (nd_leaked n'' @ nd_stored n'') =
      2 * unat (dw_count w) + weigh (window_chain w) (nd_leaked n @ nd_stored n)"
proof -
  have one: "weigh (window_chain w) (drop_events f node_id [w]) = unat (dw_count w)" for f
    using weigh_drop_events [of "[w]" "window_chain w" f node_id] assms(4) by simp
  have again: "window_of ((dw_tenant_id w, dw_system_id w),
      \<lparr>sn_count = dw_count w, sn_first = dw_from w, sn_last = dw_to w\<rparr>) = w"
    by (simp add: window_of_def)
  show ?thesis
    using assms(2,3) unfolding assms(5,6)
    by (simp add: finish_recover_def on_elapsed_def start_flush_def start_recover_def restore_def
        restore_one_def again take_windows_def flush_done_def one)
qed

section \<open>When the batcher ends\<close>

definition is_final :: "phase \<Rightarrow> bool" where
  "is_final p =
     (case p of Waiting \<Rightarrow> False | Publishing _ final \<Rightarrow> final | Recovering _ final \<Rightarrow> final | Finished \<Rightarrow> True)"

definition drained :: "node \<Rightarrow> bool" where
  "drained n \<longleftrightarrow> is_final (nd_phase n) \<longrightarrow> \<not> nd_open n \<and> nd_queue n = []"

lemma start_recover_keeps:
  "nd_open (start_recover order final n) = nd_open n" "nd_queue (start_recover order final n) = nd_queue n"
  "is_final (nd_phase (start_recover order final n)) = final"
  by (simp_all add: start_recover_def take_windows_def flush_done_def is_final_def)

lemma start_flush_keeps:
  "nd_open (start_flush order final n) = nd_open n" "nd_queue (start_flush order final n) = nd_queue n"
  "is_final (nd_phase (start_flush order final n)) = final"
  by (simp_all add: start_flush_def start_recover_keeps) (simp add: is_final_def)

lemma node_step_drained: "node_step config n fs n' \<Longrightarrow> drained n \<Longrightarrow> drained n'"
proof (induction rule: node_step.induct)
  case (Emit n e taken now)
  then show ?case by (simp add: drained_def emit_def)
next
  case (Close n)
  then show ?case by (simp add: drained_def)
next
  case (Event n order)
  have "\<not> is_final (nd_phase (on_event config order n))"
    using Event by (simp add: on_event_def fill_batch_eq Let_def start_flush_keeps split: list.split)
      (simp add: is_final_def)
  then show ?case by (simp add: drained_def)
next
  case (Closed n order)
  then show ?case by (simp add: drained_def on_closed_def start_flush_keeps)
next
  case (Elapsed n order)
  then show ?case by (simp add: drained_def on_elapsed_def start_flush_keeps)
next
  case (Published n batch final order failed now)
  then show ?case
    by (simp add: drained_def finish_publish_def start_recover_keeps split: option.split) (simp add: is_final_def)
next
  case (Recovered n windows final failed fresh node_id)
  then show ?case
    by (simp add: drained_def finish_recover_def flush_done_def is_final_def split: option.split)
qed

lemma node_run_drained: "node_run config n es n' \<Longrightarrow> drained n \<Longrightarrow> drained n'"
  by (induction rule: node_run.induct) (auto dest: node_step_drained)

text \<open>
  A batcher that has ended leaves nothing behind on the node: each chain's emitted events were
  acknowledged by the bus, or stand in an acknowledged drop event, or are in the drop counter,
  which outlives it.
\<close>

theorem ended_batcher_accounts:
  assumes "node_run config node_new es n" "length es < 2 ^ 32" "genuine es"
    "card (event_chain ` set es) \<le> MAX_TRACKED_CHAINS" "nd_phase n = Finished"
  shows "length (filter (\<lambda>e. event_chain e = c) es) =
    weigh c (nd_stored n) + pending c (dc_windows (nd_drops n))"
proof -
  have "drained node_new" by (simp add: drained_def node_new_def is_final_def)
  then have "drained n" using node_run_drained assms(1) by blast
  then have "nd_queue n = []" using assms(5) by (simp add: drained_def is_final_def)
  moreover have held: "lawful (event_chain ` set es) es n"
    using node_run_lawful [OF assms(1) _ assms(4,2,3)] by simp
  moreover have "nd_batch n = []" using lawfulD(2) [OF held] assms(5) by (simp add: keeps_chains_def)
  moreover have "weigh c es = length (filter (\<lambda>e. event_chain e = c) es)"
    using assms(3) by (induction es) (auto simp: weight_def)
  ultimately show ?thesis
    using lawfulD(1) [OF held, of c] assms(5) by (simp add: acct_simps)
qed

end
