(* ===== verification/Tap.thy ===== *)
theory Tap
  imports Resolver Provider Telemetry
begin

text \<open>
  \<open>crates/ancre-gateway/src/tap.rs\<close>: the observing body.

  What the inner body yields at each poll is an argument, with whether it is at its end
  afterwards; so are the clocks and the fresh identifier of the event. A poll yields the event
  it emits, if any.
\<close>

record request_ctx =
  rc_trace_id :: string
  rc_attempt_seq :: u16
  rc_pins :: pins
  rc_started :: instant

record tap =
  tp_ctx :: request_ctx
  tp_tenant_id :: string
  tp_node_id :: string
  tp_provider :: provider_kind
  tp_http_status :: u16
  tp_request_digest :: hash32
  tp_streaming :: bool

record tapped_body =
  tb_tap :: "tap option"
  tb_scanner :: frame_scanner
  tb_pins :: stream_pins
  tb_buffered :: string
  tb_hasher :: hasher
  tb_started :: instant
  tb_ttft :: "instant option"
  tb_outcome :: outcome

definition tapped_body_new :: "tap \<Rightarrow> tapped_body" where
  "tapped_body_new t =
     \<lparr>tb_tap = Some t, tb_scanner = scanner_new, tb_pins = stream_pins_default, tb_buffered = [],
      tb_hasher = hasher_new, tb_started = rc_started (tp_ctx t), tb_ttft = None,
      tb_outcome = OutcomeOk\<rparr>"

definition millis_since :: "instant \<Rightarrow> instant \<Rightarrow> u32" where
  "millis_since since now = u32_of (int ((now - since) div 1000000))"

text \<open>The callback on each frame.\<close>

definition absorb_frames :: "provider_kind \<Rightarrow> serde_json \<Rightarrow> frame list \<Rightarrow> stream_pins \<Rightarrow> stream_pins" where
  "absorb_frames kind js fs p = foldl stream_absorb p (List.map_filter (served_by_streaming kind js) fs)"

definition observe :: "serde_json \<Rightarrow> instant \<Rightarrow> string \<Rightarrow> tapped_body \<Rightarrow> tapped_body" where
  "observe js now chunk b =
     (let b = (if tb_ttft b = None then b\<lparr>tb_ttft := Some now\<rparr> else b);
          b = b\<lparr>tb_hasher := update (tb_hasher b) (str_bytes chunk)\<rparr>
      in case tb_tap b of
           None \<Rightarrow> b
         | Some t \<Rightarrow>
             if \<not> tp_streaming t then b\<lparr>tb_buffered := tb_buffered b @ chunk\<rparr>
             else (case feed (tb_scanner b) chunk of
                 (s, fs, _) \<Rightarrow> b\<lparr>tb_scanner := s, tb_pins := absorb_frames (tp_provider t) js fs (tb_pins b)\<rparr>))"

definition error_code_of :: "u16 \<Rightarrow> string" where
  "error_code_of status = (if status \<ge> 400 then ''http_'' @ dec_nat (unat status) else [])"

record finish_env =
  fe_now :: instant
  fe_timestamp :: timestamp
  fe_event_id :: uuid

definition push_flag :: "risk_flag option \<Rightarrow> risk_flag list \<Rightarrow> risk_flag list" where
  "push_flag flag flags =
     (case flag of None \<Rightarrow> flags | Some f \<Rightarrow> if f \<in> set flags then flags else flags @ [f])"

definition finish_event :: "hash_fn \<Rightarrow> finish_env \<Rightarrow> served_by \<Rightarrow> tap \<Rightarrow> tapped_body \<Rightarrow> emitted_event" where
  "finish_event H env served t b =
     (let pins = rc_pins (tp_ctx t);
          pins = pins\<lparr>p_model_version := sb_model_version served,
            p_risk_flags := push_flag (sb_flag served) (p_risk_flags pins)\<rparr>
      in \<lparr>e_tenant_id = tp_tenant_id t, e_system_id = p_system_id pins, e_event_id = fe_event_id env,
          e_trace_id = rc_trace_id (tp_ctx t), e_attempt_seq = rc_attempt_seq (tp_ctx t),
          e_occurred_at = fe_timestamp env, e_node_id = tp_node_id t, e_event_type = LlmRequest,
          e_outcome = tb_outcome b, e_pins = pins, e_request_digest = tp_request_digest t,
          e_response_digest = finalize H (tb_hasher b),
          e_metrics =
            \<lparr>m_provider = provider_kind_as_str (tp_provider t), m_http_status = tp_http_status t,
             m_latency_ms = millis_since (tb_started b) (fe_now env),
             m_ttft_ms = (case tb_ttft b of None \<Rightarrow> 0 | Some first \<Rightarrow> millis_since (tb_started b) first),
             m_tokens_in = sb_tokens_in served, m_tokens_out = sb_tokens_out served,
             m_error_code = error_code_of (tp_http_status t)\<rparr>\<rparr>)"

text \<open>What the response said of itself: the rest of the stream, or the whole document.\<close>

definition served_at_end :: "serde_json \<Rightarrow> tap \<Rightarrow> tapped_body \<Rightarrow> served_by" where
  "served_at_end js t b =
     (if tp_streaming t
      then stream_finish (absorb_frames (tp_provider t) js (snd (finish (tb_scanner b))) (tb_pins b))
      else (case provider_served_by (tp_provider t) js (tb_buffered b) of
              Inl _ \<Rightarrow> served_unknown
            | Inr s \<Rightarrow> s))"

definition tap_finish :: "hash_fn \<Rightarrow> serde_json \<Rightarrow> finish_env \<Rightarrow> tapped_body \<Rightarrow> tapped_body \<times> emitted_event option" where
  "tap_finish H js env b =
     (case tb_tap b of
        None \<Rightarrow> (b, None)
      | Some t \<Rightarrow>
          (b\<lparr>tb_tap := None,
             tb_scanner := (if tp_streaming t then fst (finish (tb_scanner b)) else tb_scanner b),
             tb_pins := (if tp_streaming t then stream_pins_default else tb_pins b)\<rparr>,
           Some (finish_event H env (served_at_end js t b) t b)))"

text \<open>What a poll of the inner body yields: bytes, another frame, an error, the end, or nothing yet.\<close>

datatype inner_poll =
  PollData string
| PollOther
| PollErr
| PollEnd
| PollPending

record poll_env =
  pe_inner :: inner_poll
  pe_end_stream :: bool
  pe_seen_at :: instant
  pe_finish :: finish_env

definition poll_frame :: "hash_fn \<Rightarrow> serde_json \<Rightarrow> poll_env \<Rightarrow> tapped_body \<Rightarrow> tapped_body \<times> emitted_event option" where
  "poll_frame H js p b =
     (case pe_inner p of
        PollData chunk \<Rightarrow>
          let b = observe js (pe_seen_at p) chunk b in
          if pe_end_stream p then tap_finish H js (pe_finish p) b else (b, None)
      | PollOther \<Rightarrow> if pe_end_stream p then tap_finish H js (pe_finish p) b else (b, None)
      | PollErr \<Rightarrow> tap_finish H js (pe_finish p) (b\<lparr>tb_outcome := OutcomeError\<rparr>)
      | PollEnd \<Rightarrow> tap_finish H js (pe_finish p) b
      | PollPending \<Rightarrow> (b, None))"

definition tap_drop :: "hash_fn \<Rightarrow> serde_json \<Rightarrow> finish_env \<Rightarrow> tapped_body \<Rightarrow> tapped_body \<times> emitted_event option" where
  "tap_drop H js env b =
     (if tb_tap b \<noteq> None then tap_finish H js env (b\<lparr>tb_outcome := OutcomeInterrupted\<rparr>) else (b, None))"

text \<open>The life of a body: polls, then the drop. Its events in order.\<close>

definition option_list :: "'a option \<Rightarrow> 'a list" where
  "option_list x = (case x of None \<Rightarrow> [] | Some a \<Rightarrow> [a])"

fun body_polls :: "hash_fn \<Rightarrow> serde_json \<Rightarrow> poll_env list \<Rightarrow> tapped_body \<Rightarrow> tapped_body \<times> emitted_event list" where
  "body_polls H js [] b = (b, [])"
| "body_polls H js (p # ps) b =
     (case poll_frame H js p b of
        (b, e) \<Rightarrow> (case body_polls H js ps b of (b, es) \<Rightarrow> (b, option_list e @ es)))"

definition body_life :: "hash_fn \<Rightarrow> serde_json \<Rightarrow> poll_env list \<Rightarrow> finish_env \<Rightarrow> tapped_body \<Rightarrow> emitted_event list" where
  "body_life H js ps env b =
     (case body_polls H js ps b of (b, es) \<Rightarrow> es @ option_list (snd (tap_drop H js env b)))"

section \<open>Exactly one event\<close>

lemma observe_tap [simp]: "tb_tap (observe js now chunk b) = tb_tap b"
  by (simp add: observe_def Let_def split: option.splits prod.splits)

text \<open>A poll either leaves the tap in place and emits nothing, or takes it and emits its event.\<close>

definition event_of :: "hash_fn \<Rightarrow> tap \<Rightarrow> emitted_event \<Rightarrow> bool" where
  "event_of H t e \<longleftrightarrow> (\<exists>env s b. e = finish_event H env s t b)"

lemma event_of_fields:
  assumes "event_of H t e"
  shows "e_tenant_id e = tp_tenant_id t" "e_system_id e = p_system_id (rc_pins (tp_ctx t))"
    "e_request_digest e = tp_request_digest t" "e_event_type e = LlmRequest"
    "p_config_generation (e_pins e) = p_config_generation (rc_pins (tp_ctx t))"
    "p_config_hash (e_pins e) = p_config_hash (rc_pins (tp_ctx t))"
    "m_http_status (e_metrics e) = tp_http_status t"
  using assms by (auto simp: event_of_def finish_event_def Let_def)

lemma tap_finish_event:
  "tap_finish H js env b = (b', None) \<Longrightarrow> tb_tap b = None \<and> tb_tap b' = None"
  "tap_finish H js env b = (b', Some e) \<Longrightarrow> tb_tap b' = None \<and> (\<exists>t. tb_tap b = Some t \<and> event_of H t e)"
  by (auto simp: tap_finish_def event_of_def split: option.splits)

lemma poll_frame_tap:
  "poll_frame H js p b = (b', None) \<Longrightarrow> tb_tap b' = tb_tap b"
  "poll_frame H js p b = (b', Some e) \<Longrightarrow> tb_tap b' = None \<and> (\<exists>t. tb_tap b = Some t \<and> event_of H t e)"
  by (auto simp: poll_frame_def Let_def split: inner_poll.splits if_splits dest: tap_finish_event)

lemma body_polls_tap:
  "body_polls H js ps b = (b', es) \<Longrightarrow>
    (tb_tap b' = tb_tap b \<and> es = []) \<or> (\<exists>t e. tb_tap b' = None \<and> tb_tap b = Some t \<and> es = [e] \<and> event_of H t e)"
proof (induction ps arbitrary: b b' es)
  case (Cons p ps)
  obtain b1 e1 where one: "poll_frame H js p b = (b1, e1)" by fastforce
  obtain b2 es2 where rest: "body_polls H js ps b1 = (b2, es2)" by fastforce
  have both: "b' = b2" "es = option_list e1 @ es2" using Cons.prems one rest by auto
  show ?case
  proof (cases e1)
    case None
    then show ?thesis using Cons.IH [OF rest] poll_frame_tap(1) one both by (simp add: option_list_def)
  next
    case (Some e)
    then show ?thesis using Cons.IH [OF rest] poll_frame_tap(2) [of H js p b b1 e] one both
      by (auto simp: option_list_def)
  qed
qed simp

lemma body_life_event: "\<exists>e. body_life H js ps env (tapped_body_new t) = [e] \<and> event_of H t e"
proof -
  obtain b es where run: "body_polls H js ps (tapped_body_new t) = (b, es)" by fastforce
  have "tb_tap (tapped_body_new t) = Some t" by (simp add: tapped_body_new_def)
  then consider "tb_tap b = Some t" "es = []" | e where "tb_tap b = None" "es = [e]" "event_of H t e"
    using body_polls_tap [OF run] by auto
  then show ?thesis
  proof cases
    case 1
    then show ?thesis
      by (auto simp: body_life_def run tap_drop_def tap_finish_def option_list_def event_of_def)
  next
    case 2
    then show ?thesis by (simp add: body_life_def run tap_drop_def option_list_def)
  qed
qed

text \<open>
  C17. Every response body leaves exactly one audit event: whatever the upstream yields, in
  whatever order and however often the body is polled after its end, and whether or not the
  client stays to the end.
\<close>

theorem exactly_one_event: "length (body_life H js ps env (tapped_body_new t)) = 1"
  using body_life_event [of H js ps env t] by auto

section \<open>No false pin\<close>

definition honest :: "provider_kind \<Rightarrow> string \<Rightarrow> risk_flag option \<Rightarrow> bool" where
  "honest kind version flag \<longleftrightarrow> flag = Some UnpinnedModel \<or> version = [] \<or> looks_pinned version kind"

definition honest_pins :: "provider_kind \<Rightarrow> stream_pins \<Rightarrow> bool" where
  "honest_pins kind p \<longleftrightarrow> (case sp_model_version p of None \<Rightarrow> True | Some v \<Rightarrow> honest kind v (sp_flag p))"

lemma served_as_honest: "honest kind (sb_model_version (served_as kind m i n)) (sb_flag (served_as kind m i n))"
  by (simp add: served_as_def honest_def pinned_def unresolved_def)

lemma served_frame_honest:
  "served_frame kind m i n = Some s \<Longrightarrow> honest kind (sb_model_version s) (sb_flag s)"
  by (cases m) (auto simp: served_frame_def served_as_honest, simp_all add: honest_def split: if_splits, auto)

lemma served_by_streaming_honest:
  "served_by_streaming kind js f = Some s \<Longrightarrow> honest kind (sb_model_version s) (sb_flag s)"
  by (cases kind)
    (auto simp: openai_served_by_streaming_def anthropic_served_by_streaming_def bind_eq_Some_conv
        case_prod_unfold Let_def
      split: if_splits option.splits dest: served_frame_honest)

lemma provider_served_by_honest:
  "provider_served_by kind js body = Inr s \<Longrightarrow> honest kind (sb_model_version s) (sb_flag s)"
  by (cases kind)
    (auto simp: openai_served_by_def anthropic_served_by_def served_unknown_def
      split: option.splits prod.splits intro: served_as_honest, simp_all add: honest_def)

lemma stream_absorb_honest:
  "honest kind (sb_model_version s) (sb_flag s) \<Longrightarrow> honest_pins kind p \<Longrightarrow> honest_pins kind (stream_absorb p s)"
  by (cases "sp_model_version p") (simp_all add: honest_pins_def stream_absorb_def Let_def)

lemma absorb_frames_honest:
  "honest_pins kind p \<Longrightarrow> honest_pins kind (absorb_frames kind js fs p)"
  unfolding absorb_frames_def
proof (induction fs arbitrary: p)
  case (Cons f fs)
  show ?case
  proof (cases "served_by_streaming kind js f")
    case None
    then show ?thesis using Cons by (simp add: map_filter_simps)
  next
    case (Some s)
    then have "honest_pins kind (stream_absorb p s)"
      using stream_absorb_honest served_by_streaming_honest Cons.prems by blast
    then show ?thesis using Cons.IH Some by (simp add: map_filter_simps)
  qed
qed (simp add: map_filter_simps)

lemma stream_finish_honest:
  "honest_pins kind p \<Longrightarrow> honest kind (sb_model_version (stream_finish p)) (sb_flag (stream_finish p))"
  by (simp add: honest_pins_def stream_finish_def served_unknown_def split: option.splits)
    (simp add: honest_def)

definition honest_body :: "tap \<Rightarrow> tapped_body \<Rightarrow> bool" where
  "honest_body t b \<longleftrightarrow> (tb_tap b = None \<or> tb_tap b = Some t) \<and>
     (tb_tap b = Some t \<longrightarrow> honest_pins (tp_provider t) (tb_pins b))"

lemma observe_honest: "honest_body t b \<Longrightarrow> honest_body t (observe js now chunk b)"
  by (auto simp: honest_body_def observe_def Let_def absorb_frames_honest split: option.splits prod.splits)

lemma tap_finish_honest:
  assumes "honest_body t b"
  shows "honest_body t (fst (tap_finish H js env b)) \<and>
    (case snd (tap_finish H js env b) of
       None \<Rightarrow> True
     | Some e \<Rightarrow> UnpinnedModel \<in> set (p_risk_flags (e_pins e)) \<or>
         p_model_version (e_pins e) = [] \<or> looks_pinned (p_model_version (e_pins e)) (tp_provider t))"
proof (cases "tb_tap b")
  case None
  then show ?thesis using assms by (simp add: tap_finish_def)
next
  case (Some t')
  then have t: "t' = t" "honest_pins (tp_provider t) (tb_pins b)" using assms by (auto simp: honest_body_def)
  let ?s = "served_at_end js t b"
  have "honest (tp_provider t) (sb_model_version ?s) (sb_flag ?s)"
  proof (cases "tp_streaming t")
    case True
    then show ?thesis
      unfolding served_at_end_def using stream_finish_honest absorb_frames_honest t(2) by simp
  next
    case False
    then show ?thesis
      using provider_served_by_honest [of "tp_provider t" js "tb_buffered b"]
      by (auto simp: served_at_end_def served_unknown_def honest_def split: sum.split)
  qed
  then show ?thesis
    using Some t(1) assms
    by (auto simp: tap_finish_def finish_event_def Let_def honest_def push_flag_def honest_body_def split: option.splits)
qed

lemma poll_frame_honest:
  assumes "honest_body t b"
  shows "honest_body t (fst (poll_frame H js p b)) \<and>
    (case snd (poll_frame H js p b) of
       None \<Rightarrow> True
     | Some e \<Rightarrow> UnpinnedModel \<in> set (p_risk_flags (e_pins e)) \<or>
         p_model_version (e_pins e) = [] \<or> looks_pinned (p_model_version (e_pins e)) (tp_provider t))"
proof -
  have "honest_body t (b\<lparr>tb_outcome := x\<rparr>)" for x using assms by (simp add: honest_body_def)
  then show ?thesis
    using assms observe_honest [OF assms] tap_finish_honest
    by (simp add: poll_frame_def Let_def split: inner_poll.split)
qed

text \<open>
  C16. The record never claims a pin it cannot stand behind: in every life of a response body,
  an event without the \<open>unpinned\_model\<close> flag names, as the model that ran, an identifier of exact
  weights in the provider's shape, or leaves it empty.
\<close>

theorem unflagged_event_is_pinned:
  "list_all (\<lambda>e. UnpinnedModel \<in> set (p_risk_flags (e_pins e)) \<or>
      p_model_version (e_pins e) = [] \<or> looks_pinned (p_model_version (e_pins e)) (tp_provider t))
    (body_life H js ps env (tapped_body_new t))"
proof -
  let ?ok = "\<lambda>e. UnpinnedModel \<in> set (p_risk_flags (e_pins e)) \<or>
      p_model_version (e_pins e) = [] \<or> looks_pinned (p_model_version (e_pins e)) (tp_provider t)"
  have polls: "honest_body t b \<Longrightarrow> case body_polls H js ps b of (b', es) \<Rightarrow> honest_body t b' \<and> list_all ?ok es" for b
  proof (induction ps arbitrary: b)
    case (Cons p ps)
    obtain b1 e where one: "poll_frame H js p b = (b1, e)" by fastforce
    then show ?case
      using poll_frame_honest [OF Cons.prems, of H js p] Cons.IH [of b1]
      by (cases e) (auto simp: option_list_def split: prod.splits)
  qed simp
  have "honest_body t (tapped_body_new t)"
    by (simp add: honest_body_def tapped_body_new_def honest_pins_def stream_pins_default_def)
  then obtain b es where run: "body_polls H js ps (tapped_body_new t) = (b, es)" "honest_body t b" "list_all ?ok es"
    using polls by (cases "body_polls H js ps (tapped_body_new t)") fastforce
  have "honest_body t (b\<lparr>tb_outcome := OutcomeInterrupted\<rparr>)" using run(2) by (simp add: honest_body_def)
  then have "list_all ?ok (option_list (snd (tap_drop H js env b)))"
    using tap_finish_honest [of t "b\<lparr>tb_outcome := OutcomeInterrupted\<rparr>" H js env]
    by (simp add: tap_drop_def option_list_def split: option.splits)
  then show ?thesis using run by (simp add: body_life_def)
qed

section \<open>What a stream leaves on record\<close>

definition quiet :: "poll_env \<Rightarrow> bool" where
  "quiet p \<longleftrightarrow> \<not> pe_end_stream p \<and>
     (case pe_inner p of PollErr \<Rightarrow> False | PollEnd \<Rightarrow> False | _ \<Rightarrow> True)"

fun chunks_of :: "poll_env list \<Rightarrow> string list" where
  "chunks_of [] = []"
| "chunks_of (p # ps) = (case pe_inner p of PollData chunk \<Rightarrow> chunk # chunks_of ps | _ \<Rightarrow> chunks_of ps)"

lemma absorb_frames_append:
  "absorb_frames kind js (fs @ gs) p = absorb_frames kind js gs (absorb_frames kind js fs p)"
  by (simp add: absorb_frames_def map_filter_def)

lemma absorb_frames_Nil [simp]: "absorb_frames kind js [] p = p"
  by (simp add: absorb_frames_def map_filter_def)

lemma quiet_polls:
  assumes "list_all quiet ps" "tb_tap b = Some t" "tp_streaming t"
    "feed_all (tb_scanner b) (chunks_of ps) = (s, fs, Inr u)"
  shows "\<exists>first. body_polls H js ps b =
    (b\<lparr>tb_scanner := s, tb_pins := absorb_frames (tp_provider t) js fs (tb_pins b),
       tb_hasher := tb_hasher b @ str_bytes (concat (chunks_of ps)), tb_ttft := first\<rparr>, [])"
  using assms
proof (induction ps arbitrary: b fs)
  case Nil
  have "str_bytes [] = []" by (simp add: str_bytes_def)
  then have "body_polls H js [] b = (b\<lparr>tb_scanner := s, tb_pins := absorb_frames (tp_provider t) js fs (tb_pins b),
       tb_hasher := tb_hasher b @ str_bytes (concat (chunks_of [])), tb_ttft := tb_ttft b\<rparr>, [])"
    using Nil by (cases b) simp
  then show ?case by blast
next
  case (Cons p ps)
  show ?case
  proof (cases "\<exists>chunk. pe_inner p = PollData chunk")
    case False
    then have "body_polls H js (p # ps) b = body_polls H js ps b" "chunks_of (p # ps) = chunks_of ps"
      using Cons.prems(1)
      by (auto simp: poll_frame_def quiet_def option_list_def split: inner_poll.splits)
    then show ?thesis using Cons by simp
  next
    case True
    then obtain chunk where chunk: "pe_inner p = PollData chunk" by blast
    obtain s1 fs1 r1 where fed: "feed (tb_scanner b) chunk = (s1, fs1, r1)" by (metis prod_cases3)
    then obtain v fs2 where r1: "r1 = Inr v" and suf: "feed_all s1 (chunks_of ps) = (s, fs2, Inr u)"
      and fs: "fs = fs1 @ fs2"
      using Cons.prems(4) chunk by (cases r1) (auto split: prod.splits)
    let ?b = "observe js (pe_seen_at p) chunk b"
    have b1: "tb_scanner ?b = s1" "tb_pins ?b = absorb_frames (tp_provider t) js fs1 (tb_pins b)"
      "tb_hasher ?b = tb_hasher b @ str_bytes chunk" "tb_tap ?b = Some t"
      using Cons.prems(2,3) fed by (simp_all add: observe_def Let_def update_def)
    have outside: "?b\<lparr>tb_scanner := x, tb_pins := y, tb_hasher := z, tb_ttft := w\<rparr> =
        b\<lparr>tb_scanner := x, tb_pins := y, tb_hasher := z, tb_ttft := w\<rparr>" for x y z w
      using Cons.prems(2,3) fed by (cases b) (simp add: observe_def Let_def)
    obtain first where ps: "body_polls H js ps ?b =
        (?b\<lparr>tb_scanner := s, tb_pins := absorb_frames (tp_provider t) js fs2 (tb_pins ?b),
          tb_hasher := tb_hasher ?b @ str_bytes (concat (chunks_of ps)), tb_ttft := first\<rparr>, [])"
      using Cons.IH [of ?b fs2] Cons.prems(1,3) b1(1,4) suf by auto
    have "body_polls H js (p # ps) b = body_polls H js ps ?b"
      using Cons.prems(1) chunk by (simp add: poll_frame_def quiet_def option_list_def Let_def)
    then have "body_polls H js (p # ps) b =
        (b\<lparr>tb_scanner := s, tb_pins := absorb_frames (tp_provider t) js fs (tb_pins b),
          tb_hasher := tb_hasher b @ str_bytes (concat (chunks_of (p # ps))), tb_ttft := first\<rparr>, [])"
      unfolding ps outside b1 fs absorb_frames_append by (simp add: chunk str_bytes_append)
    then show ?thesis by blast
  qed
qed

text \<open>What the frames of a whole stream are absorbed to is what its event records.\<close>

lemma stream_recorded_frames:
  assumes "tp_streaming t" "list_all quiet ps" "pe_inner p = PollEnd"
    "list_all (\<lambda>n. n \<le> MAX_FRAME_BYTES) (unterminated [] (chunks_of ps))"
    "list_all plain_frame fs" "concat (chunks_of ps) @ replicate n LF = concat (map render_frame fs)" "n \<le> 2"
    "s = stream_finish (absorb_frames (tp_provider t) js fs stream_pins_default)"
  shows "\<exists>e. body_life H js (ps @ [p]) env (tapped_body_new t) = [e] \<and>
    e_outcome e = OutcomeOk \<and>
    e_response_digest e = hash_bytes H (str_bytes (concat (chunks_of ps))) \<and>
    e_pins e = (rc_pins (tp_ctx t))\<lparr>p_model_version := sb_model_version s,
      p_risk_flags := push_flag (sb_flag s) (p_risk_flags (rc_pins (tp_ctx t)))\<rparr> \<and>
    m_tokens_in (e_metrics e) = sb_tokens_in s \<and> m_tokens_out (e_metrics e) = sb_tokens_out s"
proof -
  obtain sc gs r where fed: "feed_all scanner_new (chunks_of ps) = (sc, gs, r)" by (metis prod_cases3)
  have "find_separator (fs_carry scanner_new) = None" by (simp add: scanner_new_def find_separator_def)
  then obtain u where r: "r = Inr u" and scan: "scan_chunk (concat (chunks_of ps)) = (gs, fs_carry sc)"
    using feed_all_eq [of scanner_new "chunks_of ps"] fed assms(4)
    by (cases r) (auto simp: scanner_new_def list_ex_iff list_all_iff)
  have new: "tb_tap (tapped_body_new t) = Some t" by (simp add: tapped_body_new_def)
  have start: "feed_all (tb_scanner (tapped_body_new t)) (chunks_of ps) = (sc, gs, Inr u)"
    using fed r by (simp add: tapped_body_new_def)
  obtain first where ps: "body_polls H js ps (tapped_body_new t) =
      ((tapped_body_new t)\<lparr>tb_scanner := sc,
        tb_pins := absorb_frames (tp_provider t) js gs (tb_pins (tapped_body_new t)),
        tb_hasher := tb_hasher (tapped_body_new t) @ str_bytes (concat (chunks_of ps)), tb_ttft := first\<rparr>, [])"
    using quiet_polls [OF assms(2) new assms(1) start] by blast
  have split: "body_polls H js (qs @ [p]) b =
      (case body_polls H js qs b of (b, es) \<Rightarrow> case poll_frame H js p b of (b, e) \<Rightarrow> (b, es @ option_list e))"
    for qs b
    by (induction qs arbitrary: b) (auto split: prod.splits)
  let ?b = "fst (body_polls H js ps (tapped_body_new t))"
  have b: "tb_tap ?b = Some t" "tb_outcome ?b = OutcomeOk" "tb_hasher ?b = str_bytes (concat (chunks_of ps))"
    "tb_pins ?b = absorb_frames (tp_provider t) js gs stream_pins_default" "tb_scanner ?b = sc"
    unfolding ps by (simp_all add: tapped_body_new_def hasher_new_def)
  have "gs @ frames_of (fs_carry sc) = fs" using frames_read_cut [OF assms(5-7)] scan by simp
  then have "served_at_end js t ?b = s"
    using assms(1,8) b by (simp add: served_at_end_def finish_def absorb_frames_append [symmetric])
  then have life: "body_life H js (ps @ [p]) env (tapped_body_new t) = [finish_event H (pe_finish p) s t ?b]"
    using b(1) assms(3) ps
    by (simp add: body_life_def split poll_frame_def tap_finish_def tap_drop_def option_list_def)
  show ?thesis
    by (rule exI [of _ "finish_event H (pe_finish p) s t ?b"])
      (simp add: life finish_event_def Let_def b hash_bytes_def hasher_simps)
qed

text \<open>
  C15. A stream that runs to its end leaves on record what its documents say, however the network cut
  it. Take any frames a provider writes, its last one complete or not, whose documents are of the
  provider's shape. If the first document that says anything names the model, the one event has that
  identifier as its model version when it has the shape of exact weights, and otherwise the
  identifier under \<open>unresolved:\<close>, flagged; a stream that says nothing is \<open>unknown\<close> and flagged. Each
  token count is the last positive one the documents give, the digest is that of the bytes the client
  got, and of the route's pins only the version and the flags change. (No more than a mebibyte is
  left unterminated. A document that counts tokens before any names the model is left out: that
  stream is recorded without a model, see \<open>usage_first_loses_model\<close>.)
\<close>

theorem stream_recorded_whole:
  assumes "tp_streaming t" "list_all quiet ps" "pe_inner p = PollEnd"
    and "list_all (\<lambda>n. n \<le> MAX_FRAME_BYTES) (unterminated [] (chunks_of ps))"
    and "list_all plain_frame fs" "concat (chunks_of ps) @ replicate n LF = concat (map render_frame fs)" "n \<le> 2"
    and "docs = stream_docs (tp_provider t) js fs" "list_all (plain_doc (tp_provider t)) docs"
    and "\<And>d. find (tells (tp_provider t)) docs = Some d \<Longrightarrow> doc_model (tp_provider t) d \<noteq> None"
  shows "\<exists>e v flags. body_life H js (ps @ [p]) env (tapped_body_new t) = [e] \<and>
    e_outcome e = OutcomeOk \<and>
    e_response_digest e = hash_bytes H (str_bytes (concat (chunks_of ps))) \<and>
    e_pins e = (rc_pins (tp_ctx t))\<lparr>p_model_version := v, p_risk_flags := flags\<rparr> \<and>
    set (p_risk_flags (rc_pins (tp_ctx t))) \<subseteq> set flags \<and>
    (case Option.bind (find (tells (tp_provider t)) docs) (doc_model (tp_provider t)) of
       None \<Rightarrow> v = ''unknown'' \<and> UnpinnedModel \<in> set flags
     | Some m \<Rightarrow>
         if looks_pinned m (tp_provider t) then v = m \<and> flags = p_risk_flags (rc_pins (tp_ctx t))
         else v = ''unresolved:'' @ m \<and> UnpinnedModel \<in> set flags) \<and>
    m_tokens_in (e_metrics e) = last (0 # filter (\<lambda>n. 0 < n) (map (fst \<circ> doc_tokens (tp_provider t)) docs)) \<and>
    m_tokens_out (e_metrics e) = last (0 # filter (\<lambda>n. 0 < n) (map (snd \<circ> doc_tokens (tp_provider t)) docs))"
proof -
  let ?kind = "tp_provider t" and ?route = "rc_pins (tp_ctx t)"
  let ?base = "case Option.bind (find (tells ?kind) docs) (doc_model ?kind) of
    None \<Rightarrow> served_unknown | Some m \<Rightarrow> served_as ?kind m 0 0"
  let ?s = "?base\<lparr>sb_tokens_in := last_count (map (fst \<circ> doc_tokens ?kind) docs),
    sb_tokens_out := last_count (map (snd \<circ> doc_tokens ?kind) docs)\<rparr>"
  have "?s = stream_finish (absorb_frames ?kind js fs stream_pins_default)"
    using stream_docs_exact [of ?kind js fs] assms(8-10) by (simp add: absorb_frames_def)
  from stream_recorded_frames [OF assms(1-7) this]
  obtain e where e: "body_life H js (ps @ [p]) env (tapped_body_new t) = [e]" "e_outcome e = OutcomeOk"
      "e_response_digest e = hash_bytes H (str_bytes (concat (chunks_of ps)))"
      "e_pins e = ?route\<lparr>p_model_version := sb_model_version ?base,
        p_risk_flags := push_flag (sb_flag ?base) (p_risk_flags ?route)\<rparr>"
      "m_tokens_in (e_metrics e) = last_count (map (fst \<circ> doc_tokens ?kind) docs)"
      "m_tokens_out (e_metrics e) = last_count (map (snd \<circ> doc_tokens ?kind) docs)"
    by auto
  have flag: "set (p_risk_flags ?route) \<subseteq> set (push_flag x (p_risk_flags ?route))"
    "UnpinnedModel \<in> set (push_flag (Some UnpinnedModel) fl)" "push_flag None fl = fl" for x fl
    by (auto simp: push_flag_def split: option.split)
  show ?thesis
    using e flag
    by (intro exI [of _ e] exI [of _ "sb_model_version ?base"]
        exI [of _ "push_flag (sb_flag ?base) (p_risk_flags ?route)"])
      (auto simp: served_as_def pinned_def unresolved_def served_unknown_def UNKNOWN_def UNRESOLVED_PREFIX_def
        last_count_def split: option.split)
qed

definition demo_js :: serde_json where
  "demo_js =
     \<lparr>js_from_slice = (\<lambda>s. if s = ''m'' then Some (JObject [(''model'', JString ''gpt-4o-2024-08-06'')])
        else if s = ''u'' then Some (JObject [(''usage'', JObject [(''prompt_tokens'', JNumber (PosInt 9)), (''completion_tokens'', JNumber (PosInt 2))])])
        else None),
      js_value_from_slice = (\<lambda>_. None), js_map_from_slice = (\<lambda>_. None), js_error = (\<lambda>_ _. []), js_to_vec = (\<lambda>_. Ok [])\<rparr>"

definition demo_tap :: tap where
  "demo_tap =
     \<lparr>tp_ctx = \<lparr>rc_trace_id = ''t'', rc_attempt_seq = 0, rc_pins = null_baseline, rc_started = 0\<rparr>,
      tp_tenant_id = ''acme'', tp_node_id = ''gw-1'', tp_provider = OpenAi, tp_http_status = 200,
      tp_request_digest = GENESIS, tp_streaming = True\<rparr>"

definition demo_env :: finish_env where
  "demo_env = \<lparr>fe_now = 9, fe_timestamp = 9, fe_event_id = 1\<rparr>"

definition demo_poll :: "inner_poll \<Rightarrow> poll_env" where
  "demo_poll i = \<lparr>pe_inner = i, pe_end_stream = False, pe_seen_at = 3, pe_finish = demo_env\<rparr>"

definition demo_polls :: "poll_env list" where
  "demo_polls = map demo_poll
     [PollData (''data: m'' @ [LF]), PollPending, PollData ([LF] @ ''data: u'')]"

text \<open>The separator is cut in two and the last frame is not terminated.\<close>

theorem stream_recorded_whole_witness:
  "\<exists>e. body_life (\<lambda>_. GENESIS) demo_js (demo_polls @ [demo_poll PollEnd]) demo_env (tapped_body_new demo_tap) = [e] \<and>
    p_model_version (e_pins e) = ''gpt-4o-2024-08-06'' \<and> p_risk_flags (e_pins e) = [] \<and>
    m_tokens_in (e_metrics e) = 9 \<and> m_tokens_out (e_metrics e) = 2"
proof -
  let ?fs = "[\<lparr>fr_event = None, fr_data = ''m''\<rparr>, \<lparr>fr_event = None, fr_data = ''u''\<rparr>]"
  let ?m = "JObject [(''model'', JString ''gpt-4o-2024-08-06'')]"
  let ?u = "JObject [(''usage'', JObject [(''prompt_tokens'', JNumber (PosInt 9)), (''completion_tokens'', JNumber (PosInt 2))])]"
  have chunks: "chunks_of demo_polls = [''data: m'' @ [LF], [LF] @ ''data: u'']"
    by (simp add: demo_polls_def demo_poll_def)
  have scan: "scan_chunk (''data: m'' @ [LF, LF] @ ''data: u'') = ([\<lparr>fr_event = None, fr_data = ''m''\<rparr>], ''data: u'')"
    "scan_chunk (''data: m'' @ [LF]) = ([], ''data: m'' @ [LF])"
    by (simp_all add: scan_chunk.simps find_separator_def frames_of_def parse_frame_def parse_line_def
      strip_cr_def starts_with_def)
  have left: "unterminated [] (chunks_of demo_polls) = [8, 7]"
    using scan by (simp add: unterminated_def chunks upt_rec numeral_2_eq_2)
  have docs: "stream_docs OpenAi demo_js ?fs = [?m, ?u]"
    by (simp add: stream_docs_def map_filter_simps demo_js_def)
  have said: "doc_model OpenAi ?m = Some ''gpt-4o-2024-08-06''" "doc_tokens OpenAi ?m = (0, 0)"
    "doc_tokens OpenAi ?u = (9, 2)" "plain_doc OpenAi ?m" "plain_doc OpenAi ?u" "tells OpenAi ?m"
    by (simp_all add: doc_text_def doc_count_def doc_sub_def plain_response_def plain_object_def plain_usage_def
      plain_count_def tells_def)
  have pinned: "looks_pinned ''gpt-4o-2024-08-06'' OpenAi"
    by (simp add: looks_pinned_def ends_with_def starts_with_def ends_with_iso_date_def matches_shape_def
      is_ascii_digit_def)
  have wire: "concat (chunks_of demo_polls) @ replicate 2 LF = concat (map render_frame ?fs)"
    by (simp add: chunks render_frame_def numeral_2_eq_2)
  have find: "find (tells OpenAi) [?m, ?u] = Some ?m" using said(6) by simp
  have "list_all plain_frame ?fs" "list_all quiet demo_polls" "tp_streaming demo_tap" "tp_provider demo_tap = OpenAi"
    by (simp_all add: plain_frame_def one_line_def demo_polls_def demo_poll_def quiet_def demo_tap_def)
  then show ?thesis
    using stream_recorded_whole [of demo_tap demo_polls "demo_poll PollEnd" ?fs 2 "[?m, ?u]" demo_js "\<lambda>_. GENESIS"
        demo_env] left docs said pinned wire find
    by (auto simp: MAX_FRAME_BYTES_def demo_poll_def demo_tap_def null_baseline_def)
qed

end
