(* ===== verification/Gateway.thy ===== *)
theory Gateway
  imports Tap
begin

text \<open>
  \<open>crates/ancre-gateway/src/{auth,upstream,proxy}.rs\<close>: admission, the request to the provider,
  the hot path.

  A header map is the list of its entries with lower-case names, as \<open>http\<close> keeps them. The
  body of a request, what the upstream answers, which header values are text, how \<open>{:?}\<close>
  quotes a string and the fresh trace identifier are arguments.
\<close>

section \<open>Keys and overrides\<close>

definition HEADER_MODEL_VERSION :: string where
  "HEADER_MODEL_VERSION = ''x-ancre-pin-model-version''"

definition HEADER_PROMPT_VERSION :: string where
  "HEADER_PROMPT_VERSION = ''x-ancre-pin-prompt-version''"

definition key_hash :: "hash_fn \<Rightarrow> string \<Rightarrow> hash32" where
  "key_hash H bearer = hash_bytes H (str_bytes bearer)"

definition bearer_token :: "string \<Rightarrow> string option" where
  "bearer_token header =
     Option.bind (split_once CHR '' '' header) (\<lambda>(scheme, token).
       if eq_ignore_ascii_case scheme ''bearer''
       then (let t = trim token in if t = [] then None else Some t)
       else None)"

definition find_header :: "(string \<times> string) list \<Rightarrow> string \<Rightarrow> string option" where
  "find_header headers name =
     Option.bind (map_option snd (find (\<lambda>(n, _). eq_ignore_ascii_case n name) headers))
       (\<lambda>v. if v = [] then None else Some v)"

definition overrides_from_headers :: "(string \<times> string) list \<Rightarrow> pin_overrides" where
  "overrides_from_headers headers =
     \<lparr>po_model_version = find_header headers HEADER_MODEL_VERSION,
      po_prompt_version = find_header headers HEADER_PROMPT_VERSION\<rparr>"

definition overridden_fields :: "pin_overrides \<Rightarrow> string list" where
  "overridden_fields ov =
     (if po_model_version ov \<noteq> None then [''model_version''] else []) @
     (if po_prompt_version ov \<noteq> None then [''prompt_version''] else [])"

section \<open>The request upstream\<close>

record credentials =
  cr_openai :: "string option"
  cr_anthropic :: "string option"

fun credentials_get :: "credentials \<Rightarrow> provider_kind \<Rightarrow> string option" where
  "credentials_get c OpenAi = cr_openai c"
| "credentials_get c Anthropic = cr_anthropic c"

definition configured :: "credentials \<Rightarrow> string list" where
  "configured c =
     (if cr_openai c \<noteq> None then [''openai''] else []) @
     (if cr_anthropic c \<noteq> None then [''anthropic''] else [])"

record endpoints =
  ep_openai :: string
  ep_anthropic :: string

definition default_endpoints :: endpoints where
  "default_endpoints =
     \<lparr>ep_openai = ''https://api.openai.com'', ep_anthropic = ''https://api.anthropic.com''\<rparr>"

fun endpoint_base :: "endpoints \<Rightarrow> provider_kind \<Rightarrow> string" where
  "endpoint_base e OpenAi = ep_openai e"
| "endpoint_base e Anthropic = ep_anthropic e"

type_synonym header_map = "(string \<times> string) list"

definition header_remove :: "string \<Rightarrow> header_map \<Rightarrow> header_map" where
  "header_remove name h = filter (\<lambda>(n, _). n \<noteq> name) h"

definition header_insert :: "string \<Rightarrow> string \<Rightarrow> header_map \<Rightarrow> header_map" where
  "header_insert name v h = header_remove name h @ [(name, v)]"

record http_request =
  hr_method :: string
  hr_path :: string
  hr_path_and_query :: "string option"
  hr_headers :: header_map

datatype box_error = InvalidUri string | InvalidHeader string | ClientError string | BodyError string

text \<open>What \<open>http\<close> decides: a URI, a header value, and a header value as text.\<close>

record http_lib =
  ht_uri_ok :: "string \<Rightarrow> bool"
  ht_value_ok :: "string \<Rightarrow> bool"
  ht_to_str :: "string \<Rightarrow> string option"

fun insert_headers :: "http_lib \<Rightarrow> provider_kind \<Rightarrow> (string \<times> string) list \<Rightarrow> header_map \<Rightarrow> (header_map, box_error) result" where
  "insert_headers L kind [] h = Ok h"
| "insert_headers L kind ((name, v) # hs) h =
     (if ht_value_ok L v then insert_headers L kind hs (header_insert name v h)
      else Err (InvalidHeader (name @ '' for '' @
        (case kind of OpenAi \<Rightarrow> ''OpenAi'' | Anthropic \<Rightarrow> ''Anthropic'') @ '' is not a valid header value'')))"

record upstream_request =
  ur_method :: string
  ur_uri :: string
  ur_headers :: header_map
  ur_body :: string

text \<open>\<open>send\<close> up to the client's call.\<close>

definition upstream_send :: "http_lib \<Rightarrow> endpoints \<Rightarrow> credentials \<Rightarrow> provider_kind \<Rightarrow> http_request \<Rightarrow> string \<Rightarrow> (upstream_request, box_error) result" where
  "upstream_send L eps creds kind req body =
     (let base = endpoint_base eps kind;
          ingress = (case hr_path_and_query req of None \<Rightarrow> ''/'' | Some p \<Rightarrow> p);
          uri = base @ upstream_path kind ingress
      in if \<not> ht_uri_ok L uri then Err (InvalidUri uri)
         else
           let h = header_remove ''authorization'' (hr_headers req);
               h = header_remove ''host'' h;
               h = header_remove ''content-length'' h
           in and_then (insert_headers L kind (upstream_headers kind (credentials_get creds kind)) h) (\<lambda>h.
                Ok \<lparr>ur_method = hr_method req, ur_uri = uri, ur_headers = h, ur_body = body\<rparr>))"

section \<open>The hot path\<close>

definition provider_for :: "string \<Rightarrow> provider_kind" where
  "provider_for model_id = (if starts_with model_id ''claude-'' then Anthropic else OpenAi)"

definition extract_model :: "serde_json \<Rightarrow> string \<Rightarrow> string option" where
  "extract_model js body =
     Option.bind (js_value_from_slice js body) (\<lambda>v. Option.bind (json_get v ''model'') de_string)"

fun as_bool :: "json \<Rightarrow> bool option" where
  "as_bool (JBool b) = Some b"
| "as_bool _ = None"

definition is_streaming :: "serde_json \<Rightarrow> string \<Rightarrow> bool" where
  "is_streaming js body =
     (case Option.bind (js_value_from_slice js body) (\<lambda>v. Option.bind (json_get v ''stream'') as_bool) of
        None \<Rightarrow> False
      | Some b \<Rightarrow> b)"

fun provider_error_to_string :: "provider_error \<Rightarrow> string" where
  "provider_error_to_string (Malformed m) = ''malformed provider response: '' @ m"
| "provider_error_to_string (Untranslatable m) = ''cannot translate request faithfully: '' @ m"
| "provider_error_to_string (Upstream status) = ''upstream returned '' @ dec_nat (unat status)"
| "provider_error_to_string (Transport m) = ''transport: '' @ m"

fun resolve_error_to_string :: "resolve_error \<Rightarrow> string" where
  "resolve_error_to_string UnknownKey = ''unknown api key''"
| "resolve_error_to_string (UnknownSystem s) = ''unknown system: '' @ s"
| "resolve_error_to_string (StaleConfigFailClosed generation) =
     ''config stale past budget, failing closed at generation '' @ dec_nat (unat generation)"
| "resolve_error_to_string ColdStartError = ''no snapshot yet: cold start fails closed''"

text \<open>The body of a response: the upstream's behind a tap, or a fixed text.\<close>

datatype proxy_body =
  Tapped tapped_body
| Fixed "string option"

text \<open>
  \<open>ProxyBody\<close> as the server polls it: an upstream's frames pass through the tap as they are; a
  fixed text is one frame, then the end. How the upstream's body answers is an argument.
\<close>

fun proxy_poll :: "hash_fn \<Rightarrow> serde_json \<Rightarrow> poll_env \<Rightarrow> proxy_body \<Rightarrow> proxy_body \<times> inner_poll \<times> emitted_event option" where
  "proxy_poll H js p (Tapped b) = (case poll_frame H js p b of (b, event) \<Rightarrow> (Tapped b, pe_inner p, event))"
| "proxy_poll H js p (Fixed (Some d)) = (Fixed None, PollData d, None)"
| "proxy_poll H js p (Fixed None) = (Fixed None, PollEnd, None)"

fun proxy_is_end_stream :: "bool \<Rightarrow> proxy_body \<Rightarrow> bool" where
  "proxy_is_end_stream inner (Tapped b) = inner"
| "proxy_is_end_stream inner (Fixed d) = (d = None)"

fun proxy_size_hint :: "'h \<Rightarrow> (nat \<Rightarrow> 'h) \<Rightarrow> proxy_body \<Rightarrow> 'h" where
  "proxy_size_hint inner with_exact (Tapped b) = inner"
| "proxy_size_hint inner with_exact (Fixed (Some d)) = with_exact (length d)"
| "proxy_size_hint inner with_exact (Fixed None) = with_exact 0"

record proxy_response =
  px_status :: u16
  px_headers :: header_map
  px_body :: proxy_body

definition refuse :: "(string \<Rightarrow> string) \<Rightarrow> u16 \<Rightarrow> string \<Rightarrow> proxy_response" where
  "refuse quote status message =
     \<lparr>px_status = status, px_headers = [(''content-type'', ''application/json'')],
      px_body = Fixed (Some (''{\"error\":{\"message\":'' @ quote message @ '',\"type\":\"ancre_gateway\"}}''))\<rparr>"

text \<open>\<open>StatusCode::from_u16\<close> takes 100 to 999.\<close>

definition refuse_resolve :: "(string \<Rightarrow> string) \<Rightarrow> resolve_error \<Rightarrow> proxy_response" where
  "refuse_resolve quote e =
     (let s = resolve_http_status e in
      refuse quote (if 100 \<le> s \<and> s < 1000 then s else 503) (resolve_error_to_string e))"

record gateway_state =
  gs_node_id :: string
  gs_pinning_enabled :: bool

text \<open>The upstream: what it answers a translated request with, its status and headers.\<close>

type_synonym upstream = "provider_kind \<Rightarrow> http_request \<Rightarrow> string \<Rightarrow> (u16 \<times> header_map, box_error) result"

record request_env =
  re_body :: "(string, box_error) result"
  re_started :: instant
  re_resolved_at :: instant
  re_trace_id :: string

definition text_headers :: "http_lib \<Rightarrow> header_map \<Rightarrow> (string \<times> string) list" where
  "text_headers L h = List.map_filter (\<lambda>(n, v). map_option (Pair n) (ht_to_str L v)) h"

definition request_bearer :: "(string \<times> string) list \<Rightarrow> string option" where
  "request_bearer headers =
     Option.bind (find (\<lambda>(n, _). eq_ignore_ascii_case n ''authorization'') headers) (\<lambda>(_, v). bearer_token v)"

definition tenant_of :: "config_snapshot \<Rightarrow> hash32 \<Rightarrow> string" where
  "tenant_of snap k = (case key_binding_of snap k of None \<Rightarrow> ''unknown'' | Some b \<Rightarrow> b_tenant_id b)"

text \<open>
  One request. The resolver is read twice: \<open>r\<close> is what \<open>resolve\<close> sees, \<open>r'\<close> what \<open>snapshot\<close> sees
  afterwards. \<open>None\<close> is the panic of \<open>resolve\<close>.
\<close>

definition handle ::
    "hash_fn \<Rightarrow> http_lib \<Rightarrow> serde_json \<Rightarrow> (string \<Rightarrow> string) \<Rightarrow> upstream \<Rightarrow> gateway_state \<Rightarrow>
     pin_resolver \<Rightarrow> pin_resolver \<Rightarrow> request_env \<Rightarrow> http_request \<Rightarrow>
     (proxy_response, box_error) result option" where
  "handle H L js quote up state r r' env req =
     (let headers = text_headers L (hr_headers req) in
      case request_bearer headers of
        None \<Rightarrow> Some (Ok (refuse quote 401 ''missing bearer token''))
      | Some bearer \<Rightarrow>
      case re_body env of
        Inl e \<Rightarrow> Some (Err e)
      | Inr body \<Rightarrow>
          let request_digest = hash_bytes H (str_bytes body);
              meta = \<lparr>im_path = hr_path req, im_model_alias = extract_model js body,
                im_api_key_hash = key_hash H bearer, im_headers = headers,
                im_overrides = overrides_from_headers headers\<rparr>
          in case (if gs_pinning_enabled state then resolve r meta (re_resolved_at env)
                   else Some (Ok null_baseline)) of
               None \<Rightarrow> None
             | Some (Inl e) \<Rightarrow> Some (Ok (refuse_resolve quote e))
             | Some (Inr pins) \<Rightarrow>
                 let tenant_id = tenant_of (ld_snap (pr_current r')) (im_api_key_hash meta);
                     provider = provider_for (p_model_id pins);
                     ctx = \<lparr>rc_trace_id = re_trace_id env, rc_attempt_seq = 0, rc_pins = pins,
                       rc_started = re_started env\<rparr>;
                     streaming = is_streaming js body
                 in case translate_request provider js body of
                      Inl e \<Rightarrow> Some (Ok (refuse quote 400 (provider_error_to_string e)))
                    | Inr translated \<Rightarrow>
                        (case up provider req translated of
                           Inl e \<Rightarrow> Some (Err e)
                         | Inr (status, response_headers) \<Rightarrow>
                             Some (Ok
                               \<lparr>px_status = status, px_headers = response_headers,
                                px_body = Tapped (tapped_body_new
                                  \<lparr>tp_ctx = ctx, tp_tenant_id = tenant_id, tp_node_id = gs_node_id state,
                                   tp_provider = provider, tp_http_status = status,
                                   tp_request_digest = request_digest, tp_streaming = streaming\<rparr>)\<rparr>)))"

text \<open>The events of a response body over its life: a fixed one has none.\<close>

definition response_events :: "hash_fn \<Rightarrow> serde_json \<Rightarrow> poll_env list \<Rightarrow> finish_env \<Rightarrow> proxy_response \<Rightarrow> emitted_event list" where
  "response_events H js ps env resp =
     (case px_body resp of Fixed _ \<Rightarrow> [] | Tapped b \<Rightarrow> body_life H js ps env b)"

section \<open>The virtual key stays here\<close>

lemma filter_header_remove:
  "filter (\<lambda>(n, _). n = name) (header_remove name' h) = (if name = name' then [] else filter (\<lambda>(n, _). n = name) h)"
  by (auto simp: header_remove_def filter_empty_conv filter_filter intro!: filter_cong)

lemma filter_header_insert:
  "filter (\<lambda>(n, _). n = name) (header_insert name' v h) =
    (if name = name' then [(name, v)] else filter (\<lambda>(n, _). n = name) h)"
  by (auto simp: header_insert_def filter_header_remove)

lemmas header_simps = filter_header_remove filter_header_insert

text \<open>
  C19. A caller's virtual key never reaches a provider: whatever headers a request carries, the
  only \<open>authorization\<close> it is sent on with is the deployment's own credential for OpenAI, and its
  \<open>host\<close> and \<open>content-length\<close> are not sent on at all.
\<close>

theorem virtual_key_not_forwarded:
  "case upstream_send L eps creds kind req body of
     Inl _ \<Rightarrow> True
   | Inr u \<Rightarrow>
       filter (\<lambda>(n, _). n = ''authorization'') (ur_headers u) =
         (case kind of
            OpenAi \<Rightarrow> (case cr_openai creds of None \<Rightarrow> [] | Some c \<Rightarrow> [(''authorization'', ''Bearer '' @ c)])
          | Anthropic \<Rightarrow> []) \<and>
       filter (\<lambda>(n, _). n = ''host'') (ur_headers u) = [] \<and>
       filter (\<lambda>(n, _). n = ''content-length'') (ur_headers u) = []"
  by (cases kind)
    (auto simp: upstream_send_def Let_def header_simps split: option.splits sum.splits if_splits)

text \<open>A caller's \<open>x-api-key\<close> does, where the deployment has no Anthropic credential.\<close>

theorem caller_api_key_forwarded:
  "case upstream_send L eps creds kind req body of
     Inl _ \<Rightarrow> True
   | Inr u \<Rightarrow>
       filter (\<lambda>(n, _). n = ''x-api-key'') (ur_headers u) =
         (case (kind, cr_anthropic creds) of
            (Anthropic, Some c) \<Rightarrow> [(''x-api-key'', c)]
          | _ \<Rightarrow> filter (\<lambda>(n, _). n = ''x-api-key'') (hr_headers req))"
  by (cases kind)
    (auto simp: upstream_send_def Let_def header_simps split: option.splits sum.splits if_splits)

section \<open>What an admitted request leaves on record\<close>

lemma resolved_binding:
  assumes "resolver_ok policy r heard" "resolve r req now = Some (Inr p)"
  shows "\<exists>b. key_binding_of (ld_snap (pr_current r)) (im_api_key_hash req) = Some b \<and>
    p_system_id p = b_system_id b \<and>
    p_config_generation p = cfg_generation (ld_snap (pr_current r)) \<and>
    p_config_hash p = cfg_content_hash (ld_snap (pr_current r))"
proof -
  note ans = resolve_answers [OF assms(1), of req now]
  have warm: "\<not> is_cold r" using ans assms(2) by auto
  then obtain b where b: "cfg_keys (ld_snap (pr_current r)) (im_api_key_hash req) = Some b"
    using ans assms(2) by (cases "cfg_keys (ld_snap (pr_current r)) (im_api_key_hash req)") simp_all
  obtain sys where "cfg_systems (ld_snap (pr_current r)) (b_system_id b) = Some sys"
      "sc_system_id sys = b_system_id b"
    using bound_system [OF _ b] assms(1) unfolding resolver_ok_def by blast
  then show ?thesis
    using ans assms(2) warm b by (auto simp: key_binding_of_def resolved_pins_def Let_def split: if_splits)
qed

text \<open>What \<open>handle\<close> hands a tap.\<close>

lemma handle_tapped:
  assumes "handle H L js quote up state r r' env req = Some (Inr resp)" "px_body resp = Tapped b"
    "gs_pinning_enabled state"
  shows "\<exists>bearer meta pins t content.
    request_bearer (text_headers L (hr_headers req)) = Some bearer \<and> re_body env = Inr content \<and>
    im_api_key_hash meta = key_hash H bearer \<and> resolve r meta (re_resolved_at env) = Some (Inr pins) \<and>
    b = tapped_body_new t \<and> rc_pins (tp_ctx t) = pins \<and> tp_request_digest t = hash_bytes H (str_bytes content) \<and>
    tp_http_status t = px_status resp \<and>
    tp_tenant_id t = tenant_of (ld_snap (pr_current r')) (key_hash H bearer)"
proof -
  obtain bearer where bearer: "request_bearer (text_headers L (hr_headers req)) = Some bearer"
    using assms(1,2) by (cases "request_bearer (text_headers L (hr_headers req))") (auto simp: handle_def refuse_def)
  obtain content where content: "re_body env = Inr content"
    using assms(1) bearer by (cases "re_body env") (auto simp: handle_def)
  let ?meta = "\<lparr>im_path = hr_path req, im_model_alias = extract_model js content,
    im_api_key_hash = key_hash H bearer, im_headers = text_headers L (hr_headers req),
    im_overrides = overrides_from_headers (text_headers L (hr_headers req))\<rparr>"
  obtain pins where pins: "resolve r ?meta (re_resolved_at env) = Some (Inr pins)"
    using assms bearer content
    by (auto simp: handle_def Let_def refuse_resolve_def refuse_def split: option.splits sum.splits)
  show ?thesis
    using assms bearer content pins
    by (auto simp: handle_def Let_def refuse_def split: sum.splits
      intro!: exI [of _ bearer] exI [of _ ?meta] exI [of _ pins] exI [of _ content])
qed

text \<open>The request goes to the provider: what is answered depends on what the provider answers.\<close>

definition consults ::
    "hash_fn \<Rightarrow> http_lib \<Rightarrow> serde_json \<Rightarrow> (string \<Rightarrow> string) \<Rightarrow> gateway_state \<Rightarrow>
     pin_resolver \<Rightarrow> pin_resolver \<Rightarrow> request_env \<Rightarrow> http_request \<Rightarrow> bool" where
  "consults H L js quote state r r' env req \<longleftrightarrow>
     (\<exists>up up'. handle H L js quote up state r r' env req \<noteq> handle H L js quote up' state r r' env req)"

lemma handle_Fixed:
  assumes "handle H L js quote up state r r' env req = Some (Inr resp)" "px_body resp = Fixed d"
  shows "handle H L js quote up' state r r' env req = Some (Inr resp)"
  using assms
  by (cases "gs_pinning_enabled state") (auto simp: handle_def Let_def split: option.splits sum.splits)

lemma handle_Tapped:
  assumes "handle H L js quote up state r r' env req = Some (Inr resp)" "px_body resp = Tapped b"
  shows "handle H L js quote (\<lambda>_ _ _. Inl e) state r r' env req = Some (Inl e)"
  using assms
  by (cases "gs_pinning_enabled state")
    (auto simp: handle_def Let_def refuse_def refuse_resolve_def split: option.splits sum.splits)

lemma consults_iff:
  assumes "handle H L js quote up state r r' env req = Some (Inr resp)"
  shows "consults H L js quote state r r' env req \<longleftrightarrow> (\<exists>b. px_body resp = Tapped b)"
proof (cases "px_body resp")
  case (Tapped b)
  then have "handle H L js quote up state r r' env req \<noteq>
      handle H L js quote (\<lambda>_ _ _. Inl (InvalidUri [])) state r r' env req"
    using handle_Tapped [OF assms Tapped] assms by simp
  then show ?thesis using Tapped unfolding consults_def by blast
next
  case (Fixed d)
  then show ?thesis using handle_Fixed [OF assms Fixed] by (simp add: consults_def)
qed

text \<open>
  C14. A request that reaches a provider is recorded once, in the chain of its key. Where the answer
  depends on the provider's, whatever its status, the whole life of the response leaves exactly one
  event: in the system that the presented key is bound to in the snapshot \<open>resolve\<close> read, under
  that snapshot's generation and content hash, with the digest of the request's body and the status
  that was answered, and in the tenant of the key in the snapshot of the second read (the same
  one, unless a reload fell between the two; \<open>unknown\<close> where that one does not hold the key). Any
  other answer is the gateway's own, and leaves none.
\<close>

theorem admitted_request_recorded:
  assumes "resolver_run P policy r heard" "gs_pinning_enabled state"
    "handle H L js quote up state r r' env req = Some (Ok resp)"
  shows "if consults H L js quote state r r' env req
    then \<exists>bearer content k e. request_bearer (text_headers L (hr_headers req)) = Some bearer \<and>
      re_body env = Ok content \<and>
      key_binding_of (ld_snap (pr_current r)) (key_hash H bearer) = Some k \<and>
      response_events H js ps fe resp = [e] \<and>
      e_system_id e = b_system_id k \<and>
      p_config_generation (e_pins e) = cfg_generation (ld_snap (pr_current r)) \<and>
      p_config_hash (e_pins e) = cfg_content_hash (ld_snap (pr_current r)) \<and>
      e_request_digest e = hash_bytes H (str_bytes content) \<and>
      m_http_status (e_metrics e) = px_status resp \<and>
      e_tenant_id e = (case key_binding_of (ld_snap (pr_current r')) (key_hash H bearer) of
        None \<Rightarrow> ''unknown'' | Some k' \<Rightarrow> b_tenant_id k')
    else response_events H js ps fe resp = []"
proof (cases "px_body resp")
  case (Tapped b)
  obtain bearer meta pins t content where t: "request_bearer (text_headers L (hr_headers req)) = Some bearer"
      "re_body env = Inr content" "im_api_key_hash meta = key_hash H bearer"
      "resolve r meta (re_resolved_at env) = Some (Inr pins)" "b = tapped_body_new t"
      "rc_pins (tp_ctx t) = pins" "tp_request_digest t = hash_bytes H (str_bytes content)"
      "tp_http_status t = px_status resp"
      "tp_tenant_id t = tenant_of (ld_snap (pr_current r')) (key_hash H bearer)"
    using handle_tapped [OF assms(3) Tapped assms(2)] by auto
  obtain k where k: "key_binding_of (ld_snap (pr_current r)) (key_hash H bearer) = Some k"
      "p_system_id pins = b_system_id k"
      "p_config_generation pins = cfg_generation (ld_snap (pr_current r))"
      "p_config_hash pins = cfg_content_hash (ld_snap (pr_current r))"
    using resolved_binding [OF resolver_run_ok [OF assms(1)] t(4)] t(3) by auto
  obtain e where e: "body_life H js ps fe (tapped_body_new t) = [e]" "event_of H t e"
    using body_life_event by blast
  show ?thesis
    using k t e Tapped event_of_fields [OF e(2)] consults_iff [OF assms(3)]
    by (auto simp: response_events_def tenant_of_def intro!: exI [of _ bearer] exI [of _ content])
next
  case (Fixed d)
  then show ?thesis using consults_iff [OF assms(3)] by (simp add: response_events_def)
qed

text \<open>
  The second read may see a newer snapshot: where that one no longer holds the key, the event
  goes to the tenant \<open>unknown\<close>, with the pins of the older one.
\<close>

theorem reload_moves_tenant:
  assumes "handle H L js quote up state r r' env req = Some (Ok resp)" "px_body resp = Tapped b"
    "gs_pinning_enabled state" "request_bearer (text_headers L (hr_headers req)) = Some bearer"
    "key_binding_of (ld_snap (pr_current r')) (key_hash H bearer) = None"
  shows "\<exists>e. response_events H js ps fe resp = [e] \<and> e_tenant_id e = UNKNOWN"
proof -
  obtain t where t: "b = tapped_body_new t" "tp_tenant_id t = tenant_of (ld_snap (pr_current r')) (key_hash H bearer)"
    using handle_tapped [OF assms(1-3)] assms(4) by auto
  obtain e where e: "body_life H js ps fe (tapped_body_new t) = [e]" "event_of H t e"
    using body_life_event by blast
  show ?thesis
    using t e event_of_fields(1) [OF e(2)] assms(2,5)
    by (intro exI [of _ e]) (simp add: response_events_def tenant_of_def UNKNOWN_def)
qed

section \<open>A concrete request\<close>

definition demo_http :: http_lib where
  "demo_http = \<lparr>ht_uri_ok = (\<lambda>_. True), ht_value_ok = (\<lambda>_. True), ht_to_str = Some\<rparr>"

definition demo_http_request :: http_request where
  "demo_http_request =
     \<lparr>hr_method = ''POST'', hr_path = ''/v1/chat/completions'', hr_path_and_query = Some ''/v1/chat/completions'',
      hr_headers = [(''host'', ''gw''), (''authorization'', ''Bearer k'')]\<rparr>"

definition demo_request_env :: request_env where
  "demo_request_env = \<lparr>re_body = Ok ''{}'', re_started = 100, re_resolved_at = 100, re_trace_id = ''t1''\<rparr>"

definition demo_gateway :: gateway_state where
  "demo_gateway = \<lparr>gs_node_id = ''gw-1'', gs_pinning_enabled = True\<rparr>"

definition demo_handle :: "(proxy_response, box_error) result option" where
  "demo_handle =
     handle (\<lambda>_. GENESIS) demo_http demo_js (\<lambda>s. s) (\<lambda>_ _ _. Ok (200, [])) demo_gateway
       demo_resolver demo_resolver demo_request_env demo_http_request"

lemma demo_bearer: "bearer_token ''Bearer k'' = Some ''k''"
  by code_simp

lemma demo_request_bearer: "request_bearer (text_headers demo_http (hr_headers demo_http_request)) = Some ''k''"
proof -
  have "text_headers demo_http (hr_headers demo_http_request) = [(''host'', ''gw''), (''authorization'', ''Bearer k'')]"
    by (simp add: text_headers_def demo_http_def demo_http_request_def map_filter_simps)
  moreover have "\<not> eq_ignore_ascii_case ''host'' ''authorization''" by code_simp
  ultimately show ?thesis by (simp add: request_bearer_def demo_bearer)
qed

lemma demo_handled: "\<exists>resp b. demo_handle = Some (Ok resp) \<and> px_body resp = Tapped b"
proof -
  let ?meta = "\<lparr>im_path = hr_path demo_http_request, im_model_alias = extract_model demo_js ''{}'',
    im_api_key_hash = GENESIS, im_headers = text_headers demo_http (hr_headers demo_http_request),
    im_overrides = overrides_from_headers (text_headers demo_http (hr_headers demo_http_request))\<rparr>"
  obtain p where p: "resolve demo_resolver ?meta 100 = Some (Ok p)" "p_model_id p = ''m''"
    using resolve_answers [OF resolver_run_ok [OF demo_resolver_run], of ?meta 100]
    by (auto simp: Let_def build_system_def demo_system_def build_route_def pick_route_def resolved_pins_def)
  then show ?thesis
    by (simp add: demo_handle_def handle_def demo_request_bearer demo_request_env_def key_hash_def
        hash_bytes_def hasher_simps demo_gateway_def Let_def provider_for_def starts_with_def)
qed

theorem admitted_request_recorded_witness:
  "\<exists>resp e. demo_handle = Some (Ok resp) \<and>
    response_events (\<lambda>_. GENESIS) demo_js [] demo_env resp = [e] \<and>
    e_tenant_id e = ''t'' \<and> e_system_id e = ''a'' \<and> p_config_generation (e_pins e) = 41"
proof -
  obtain resp b where h: "demo_handle = Some (Ok resp)" "px_body resp = Tapped b" using demo_handled by blast
  have "gs_pinning_enabled demo_gateway" by (simp add: demo_gateway_def)
  from admitted_request_recorded [OF demo_resolver_run this h(1) [unfolded demo_handle_def],
      where ps = "[]" and fe = demo_env]
  show ?thesis
    using h demo_request_bearer consults_iff [OF h(1) [unfolded demo_handle_def]]
    by (auto simp: key_binding_of_def key_hash_def hash_bytes_def hasher_simps)
qed

end
