(* ===== verification/Feed.thy ===== *)
theory Feed
  imports Diff Telemetry Format "HOL-Library.Product_Lexorder"
begin

text \<open>
  \<open>crates/ancre-gateway/src/config_feed.rs\<close> and \<open>control.rs\<close>: how a node learns its
  configuration, installs it and records that it did.

  Clocks, fresh identifiers and the iteration orders of the hash maps are arguments, and so is
  what the control plane answers. Applications are one after the other. \<open>None\<close> is the panic of an
  index out of bounds.
\<close>

section \<open>Applying an envelope\<close>

datatype feed_error = Unreachable string | Refused snapshot_error

record applied =
  ap_generation :: u64
  ap_outcome :: reload_outcome
  ap_events :: usize

record feed_env =
  fd_node_id :: string
  fd_built_at :: timestamp
  fd_reload_clock :: timestamp
  fd_now :: instant
  fd_timestamp :: timestamp
  fd_event_id :: "nat \<Rightarrow> uuid"
  fd_prev_systems :: "string list"
  fd_next_systems :: "string list"
  fd_prev_bindings :: "key_binding list"
  fd_next_bindings :: "key_binding list"

text \<open>One system against one binding: the inner loop body of \<open>affected_chains\<close>.\<close>

definition push_chain :: "string \<Rightarrow> key_binding \<Rightarrow> chain_key list \<Rightarrow> chain_key list" where
  "push_chain system_id b out =
     (if b_system_id b = system_id \<and> \<not> list_ex (\<lambda>(t, s). t = b_tenant_id b \<and> s = system_id) out
      then out @ [(b_tenant_id b, b_system_id b)] else out)"

definition affected_systems :: "reload_outcome \<Rightarrow> string list" where
  "affected_systems outcome =
     map ch_system_id (out_changes outcome) @ out_systems_added outcome @ out_systems_removed outcome"

definition affected_chains :: "key_binding list \<Rightarrow> key_binding list \<Rightarrow> reload_outcome \<Rightarrow> chain_key list" where
  "affected_chains previous current outcome =
     sort (foldl (\<lambda>out system_id. foldl (\<lambda>out b. push_chain system_id b out) out (current @ previous))
       [] (affected_systems outcome))"

definition class_of :: "reload_outcome \<Rightarrow> string \<Rightarrow> change_class option" where
  "class_of outcome system_id = map_option ch_class (find (\<lambda>c. ch_system_id c = system_id) (out_changes outcome))"

definition applied_pins :: "config_snapshot \<Rightarrow> change_class option \<Rightarrow> system_config \<Rightarrow> pins option" where
  "applied_pins current class sys =
     (if sc_default_route sys < length (sc_routes sys) then
        let route = sc_routes sys ! sc_default_route sys in
        Some \<lparr>p_config_generation = cfg_generation current, p_config_hash = cfg_content_hash current,
          p_system_id = sc_system_id sys, p_system_version = sc_system_version sys,
          p_ifu_version = sc_ifu_version sys, p_model_id = rt_model_id route,
          p_model_version = rt_model_version route, p_prompt_id = rt_prompt_id route,
          p_prompt_version = rt_prompt_version route, p_policy_id = sc_policy_id sys,
          p_policy_version = sc_policy_version sys, p_gateway_version = cfg_gateway_version current,
          p_risk_class = sc_risk_class sys, p_resolved_stale = False,
          p_risk_flags = (if class = Some Substantial then [SubstantialCandidate] else [])\<rparr>
      else None)"

definition applied_event ::
    "feed_env \<Rightarrow> config_snapshot \<Rightarrow> config_snapshot \<Rightarrow> reload_outcome \<Rightarrow> nat \<Rightarrow> chain_key \<Rightarrow> emitted_event option" where
  "applied_event env previous current outcome i k =
     (case k of (tenant_id, system_id) \<Rightarrow>
        let class = class_of outcome system_id in
        map_option (\<lambda>pins.
          \<lparr>e_tenant_id = tenant_id, e_system_id = system_id, e_event_id = fd_event_id env i, e_trace_id = [],
           e_attempt_seq = 0, e_occurred_at = fd_timestamp env, e_node_id = fd_node_id env,
           e_event_type = ConfigGenerationApplied, e_outcome = OutcomeOk, e_pins = pins,
           e_request_digest = cfg_content_hash previous, e_response_digest = cfg_content_hash current,
           e_metrics =
             \<lparr>m_provider = [], m_http_status = 0, m_latency_ms = out_propagation_ms outcome, m_ttft_ms = 0,
              m_tokens_in = 0, m_tokens_out = 0,
              m_error_code = (case class of None \<Rightarrow> ''none'' | Some c \<Rightarrow> change_class_as_str c)\<rparr>\<rparr>)
          (case (case system current system_id of None \<Rightarrow> system previous system_id | Some s \<Rightarrow> Some s) of
             None \<Rightarrow> Some null_baseline
           | Some sys \<Rightarrow> applied_pins current class sys))"

text \<open>All events, or the panic of the first that panics.\<close>

fun all_some :: "'a option list \<Rightarrow> 'a list option" where
  "all_some [] = Some []"
| "all_some (x # xs) = Option.bind x (\<lambda>a. map_option ((#) a) (all_some xs))"

definition record_applied :: "feed_env \<Rightarrow> config_snapshot \<Rightarrow> config_snapshot \<Rightarrow> reload_outcome \<Rightarrow> emitted_event list option" where
  "record_applied env previous current outcome =
     (if outcome_is_empty outcome then Some []
      else all_some (map (\<lambda>(i, k). applied_event env previous current outcome i k)
        (enumerate 0 (affected_chains (fd_prev_bindings env) (fd_next_bindings env) outcome))))"

text \<open>\<open>apply\<close>: the resolver after it, what it answers, and the events handed to the fork.\<close>

definition feed_apply ::
    "canon_prims \<Rightarrow> feed_env \<Rightarrow> snapshot_envelope \<Rightarrow> pin_resolver \<Rightarrow>
     (pin_resolver \<times> (applied, feed_error) result \<times> emitted_event list) option" where
  "feed_apply P env e r =
     (let previous = ld_snap (pr_current r) in
      case install P (fd_built_at env) e of
        Inl x \<Rightarrow> Some (r, Err (Refused x), [])
      | Inr next \<Rightarrow>
          (case reload r next (fd_prev_systems env) (fd_next_systems env) (fd_reload_clock env) (fd_now env) of
             (r, outcome) \<Rightarrow>
               map_option (\<lambda>events.
                 (r, Ok \<lparr>ap_generation = env_generation e, ap_outcome = outcome, ap_events = length events\<rparr>, events))
                 (record_applied env previous (ld_snap (pr_current r)) outcome)))"

definition poll_once ::
    "canon_prims \<Rightarrow> feed_env \<Rightarrow> (snapshot_envelope, feed_error) result \<Rightarrow> pin_resolver \<Rightarrow>
     (pin_resolver \<times> (applied option, feed_error) result \<times> emitted_event list) option" where
  "poll_once P env fetched r =
     (case fetched of
        Inl x \<Rightarrow> Some (r, Err x, [])
      | Inr e \<Rightarrow>
          if env_generation e = resolver_generation r \<and> \<not> is_cold r
          then Some (confirm_fresh r (fd_now env), Ok None, [])
          else map_option (\<lambda>(r, a, events). (r, (case a of Inl x \<Rightarrow> Err x | Inr a \<Rightarrow> Ok (Some a)), events))
                 (feed_apply P env e r))"

section \<open>The control plane's answer\<close>

definition CONFIG_STREAM :: string where
  "CONFIG_STREAM = ''ANCRE_CONFIG''"

text \<open>\<open>format!("{}/v1/snapshot", base.trim_end_matches('/'))\<close>\<close>

definition snapshot_url :: "string \<Rightarrow> string" where
  "snapshot_url base = rev (dropWhile (\<lambda>c. c = CHR ''/'') (rev base)) @ ''/v1/snapshot''"

definition with_token :: "string option \<Rightarrow> string option" where
  "with_token token = (case token of None \<Rightarrow> None | Some t \<Rightarrow> if t = [] then None else Some t)"

definition fetch_headers :: "string option \<Rightarrow> (string \<times> string) list" where
  "fetch_headers token =
     (''accept'', ''application/json'') #
     (case token of None \<Rightarrow> [] | Some t \<Rightarrow> [(''authorization'', ''Bearer '' @ t)])"

text \<open>
  What \<open>fetch\<close> makes of the client's answer: an error, or a status with a body. How a status
  prints, the lossy text of a body and the reading of an envelope are arguments.
\<close>

definition fetch ::
    "(u16 \<Rightarrow> string) \<Rightarrow> (string \<Rightarrow> string) \<Rightarrow> (string \<Rightarrow> (snapshot_envelope, string) result) \<Rightarrow>
     (u16 \<times> string, string) result \<Rightarrow> (snapshot_envelope, feed_error) result" where
  "fetch status_text text_of parse answer =
     (case answer of
        Inl e \<Rightarrow> Err (Unreachable e)
      | Inr (status, body) \<Rightarrow>
          if status = 401 then
            Err (Unreachable (''control plane refused this node's credential. Set '' @
              ''ANCRE_CONTROL_TOKEN to the control plane's ANCRE_ADMIN_TOKEN''))
          else if \<not> (200 \<le> status \<and> status < 300) then
            Err (Unreachable (''control plane returned '' @ status_text status @ '': '' @ trim (text_of body)))
          else map_err (\<lambda>e. Unreachable (''decoding: '' @ e)) (parse body))"

text \<open>A message of the bus: it is acknowledged, and applied when it reads as an envelope.\<close>

definition watch_message ::
    "canon_prims \<Rightarrow> feed_env \<Rightarrow> (snapshot_envelope, string) result \<Rightarrow> pin_resolver \<Rightarrow>
     (pin_resolver \<times> emitted_event list) option" where
  "watch_message P env parsed r =
     (case parsed of
        Inl _ \<Rightarrow> Some (r, [])
      | Inr e \<Rightarrow> map_option (\<lambda>(r, _, events). (r, events)) (feed_apply P env e r))"

section \<open>The feed keeps the resolver's contract\<close>

text \<open>
  A node from its cold start: messages of the bus, whatever they read as, and polls, whatever
  they fetch. A run carries the instant of the last contact that succeeded, and the envelopes that
  were delivered to the node, in order, whether they were applied or not.
\<close>

definition arrived :: "(snapshot_envelope, 'e) result \<Rightarrow> snapshot_envelope list" where
  "arrived x = (case x of Inl _ \<Rightarrow> [] | Inr e \<Rightarrow> [e])"

definition installs :: "canon_prims \<Rightarrow> feed_env \<Rightarrow> (snapshot_envelope, 'e) result \<Rightarrow> bool" where
  "installs P env x = (case x of Inl _ \<Rightarrow> False | Inr e \<Rightarrow> (case install P (fd_built_at env) e of Inl _ \<Rightarrow> False | Inr _ \<Rightarrow> True))"

inductive feed_run ::
    "canon_prims \<Rightarrow> staleness_policy \<Rightarrow> pin_resolver \<Rightarrow> instant \<Rightarrow> snapshot_envelope list \<Rightarrow> bool"
  for P :: canon_prims and policy :: staleness_policy where
  feed_cold: "feed_run P policy (cold policy built now) now []"
| feed_message: "feed_run P policy r heard log \<Longrightarrow> watch_message P env parsed r = Some (r', events) \<Longrightarrow>
    feed_run P policy r' (if installs P env parsed then fd_now env else heard) (log @ arrived parsed)"
| feed_poll: "feed_run P policy r heard log \<Longrightarrow> poll_once P env fetched r = Some (r', answer, events) \<Longrightarrow>
    feed_run P policy r' (case answer of Inl _ \<Rightarrow> heard | Inr _ \<Rightarrow> fd_now env) (log @ arrived fetched)"

lemma feed_apply_cases:
  assumes "feed_apply P env e r = Some (r', answer, events)"
  shows "(\<exists>x. install P (fd_built_at env) e = Inl x \<and> answer = Inl (Refused x) \<and> r' = r \<and> events = []) \<or>
    (\<exists>snap a. install P (fd_built_at env) e = Inr snap \<and> answer = Inr a \<and> r' = store_next r snap (fd_now env))"
  using assms by (auto simp: feed_apply_def Let_def reload_def split: sum.splits)

text \<open>
  An envelope vouches for a snapshot: its contents hash to the hash it states and carry the
  generation it states, and they are what the snapshot was built from, under both.
\<close>

definition vouches :: "canon_prims \<Rightarrow> snapshot_envelope \<Rightarrow> config_snapshot \<Rightarrow> bool" where
  "vouches P e snap \<longleftrightarrow> spec_hash P (env_spec e) = Ok (env_content_hash e) \<and>
     ss_generation (env_spec e) = env_generation e \<and> (\<exists>t. build P t (env_spec e) = Ok snap) \<and>
     cfg_generation snap = env_generation e \<and> cfg_content_hash snap = env_content_hash e"

lemma install_vouches: "install P t e = Inr snap \<Longrightarrow> vouches P e snap"
  unfolding vouches_def by (auto simp: install_eq_Inr envelope_verify_eq_Inr build_eq_Inr)

definition verified_snapshot :: "canon_prims \<Rightarrow> snapshot_envelope list \<Rightarrow> pin_resolver \<Rightarrow> bool" where
  "verified_snapshot P log r \<longleftrightarrow> is_cold r \<or> (\<exists>e \<in> set log. vouches P e (ld_snap (pr_current r)))"

lemma verified_snapshot_mono: "verified_snapshot P log r \<Longrightarrow> verified_snapshot P (log @ later) r"
  by (auto simp: verified_snapshot_def)

lemma feed_apply_kept:
  assumes "feed_apply P env e r = Some (r', answer, events)" "resolver_run P policy r heard" "verified_snapshot P log r"
  shows "resolver_run P policy r' (case answer of Inl _ \<Rightarrow> heard | Inr _ \<Rightarrow> fd_now env) \<and>
    verified_snapshot P (log @ [e]) r'"
  using feed_apply_cases [OF assms(1)]
proof (elim disjE exE conjE)
  fix snap a
  assume inst: "install P (fd_built_at env) e = Inr snap" and r': "answer = Inr a" "r' = store_next r snap (fd_now env)"
  have "verified_snapshot P (log @ [e]) r'"
    using install_vouches [OF inst] r'(2) by (auto simp: verified_snapshot_def store_next_def)
  moreover have "build P (fd_built_at env) (env_spec e) = Inr snap" using inst by (simp add: install_eq_Inr)
  ultimately show ?thesis using run_reload [OF assms(2)] r' by simp
qed (use assms(2,3) verified_snapshot_mono in simp)

lemma feed_run_kept: "feed_run P policy r heard log \<Longrightarrow> resolver_run P policy r heard \<and> verified_snapshot P log r"
proof (induction rule: feed_run.induct)
  case (feed_cold built now)
  have "is_cold (cold policy built now)" by (simp add: is_cold_def cold_def)
  then show ?case by (simp add: run_cold verified_snapshot_def)
next
  case (feed_message r heard log env parsed r' events)
  show ?case
  proof (cases parsed)
    case (Inl x)
    then show ?thesis using feed_message by (simp add: watch_message_def installs_def arrived_def)
  next
    case (Inr e)
    then obtain answer es where ap: "feed_apply P env e r = Some (r', answer, es)"
      using feed_message(2) by (auto simp: watch_message_def)
    have "installs P env parsed \<longleftrightarrow> (case answer of Inl _ \<Rightarrow> False | Inr _ \<Rightarrow> True)"
      using feed_apply_cases [OF ap] Inr by (auto simp: installs_def)
    then show ?thesis using feed_apply_kept [OF ap] feed_message.IH Inr by (auto simp: arrived_def split: sum.splits)
  qed
next
  case (feed_poll r heard log env fetched r' answer events)
  show ?case
  proof (cases fetched)
    case (Inl x)
    then show ?thesis using feed_poll by (auto simp: poll_once_def arrived_def)
  next
    case (Inr e)
    show ?thesis
    proof (cases "env_generation e = resolver_generation r \<and> \<not> is_cold r")
      case True
      then have "r' = confirm_fresh r (fd_now env)" "answer = Inr None" "\<not> is_cold r"
        using feed_poll(2) Inr by (auto simp: poll_once_def)
      moreover have "verified_snapshot P log (confirm_fresh r (fd_now env))"
        using feed_poll.IH by (auto simp: verified_snapshot_def confirm_fresh_def is_cold_def Let_def)
      ultimately show ?thesis
        using run_confirm [of P policy r heard "fd_now env"] feed_poll.IH verified_snapshot_mono by simp
    next
      case False
      then obtain a where ap: "feed_apply P env e r = Some (r', a, events)"
          and ans: "answer = (case a of Inl x \<Rightarrow> Inl x | Inr a \<Rightarrow> Inr (Some a))"
        using feed_poll(2) Inr by (auto simp: poll_once_def)
      then show ?thesis using feed_apply_kept [OF ap] feed_poll.IH Inr by (auto simp: arrived_def split: sum.splits)
    qed
  qed
qed

section \<open>Which chains an application is recorded in\<close>

lemma push_chain_fold:
  "distinct out \<Longrightarrow>
    distinct (foldl (\<lambda>out b. push_chain i b out) out bs) \<and>
    set (foldl (\<lambda>out b. push_chain i b out) out bs) =
      set out \<union> {(b_tenant_id b, b_system_id b) | b. b \<in> set bs \<and> b_system_id b = i}"
proof (induction bs arbitrary: out)
  case (Cons b bs)
  have "distinct (push_chain i b out)"
    "set (push_chain i b out) = set out \<union> (if b_system_id b = i then {(b_tenant_id b, b_system_id b)} else {})"
    using Cons.prems by (auto simp: push_chain_def list_ex_iff)
  then show ?case using Cons.IH [of "push_chain i b out"] by auto
qed simp

lemma affected_fold:
  "distinct out \<Longrightarrow>
    distinct (foldl (\<lambda>out i. foldl (\<lambda>out b. push_chain i b out) out bs) out ids) \<and>
    set (foldl (\<lambda>out i. foldl (\<lambda>out b. push_chain i b out) out bs) out ids) =
      set out \<union> {(b_tenant_id b, b_system_id b) | b. b \<in> set bs \<and> b_system_id b \<in> set ids}"
proof (induction ids arbitrary: out)
  case (Cons i ids)
  note one = push_chain_fold [OF Cons.prems, of i bs]
  then show ?case using Cons.IH [of "foldl (\<lambda>out b. push_chain i b out) out bs"] by auto
qed simp

lemma affected_chains_eq:
  "distinct (affected_chains prev cur out)"
  "set (affected_chains prev cur out) =
    {(b_tenant_id b, b_system_id b) | b. b \<in> set prev \<union> set cur \<and> b_system_id b \<in> set (affected_systems out)}"
  using affected_fold [of "[]" "cur @ prev" "affected_systems out"]
  by (auto simp: affected_chains_def)

text \<open>A system is affected when its tracked configuration is not the same before and after.\<close>

definition differs :: "config_snapshot \<Rightarrow> config_snapshot \<Rightarrow> string \<Rightarrow> bool" where
  "differs prev next i \<longleftrightarrow> map_option tracked (cfg_systems prev i) \<noteq> map_option tracked (cfg_systems next i)"

lemma affected_systems_eq:
  assumes "enumerates po prev" "enumerates no next"
  shows "set (affected_systems (diff prev next po no clock)) = {i. differs prev next i}"
proof -
  have changed: "i \<in> ch_system_id ` set (out_changes (diff prev next po no clock)) \<longleftrightarrow>
      (\<exists>c. change_of prev next i = Some c)" for i
    unfolding diff_changes [OF assms(2)] using change_of_id by fastforce
  have "ch_system_id ` set (out_changes (diff prev next po no clock)) =
      {i. \<exists>p n. cfg_systems prev i = Some p \<and> cfg_systems next i = Some n \<and> tracked p \<noteq> tracked n}"
    using changed unfolding change_of_eq_Some changed_fields_tracked [symmetric] by blast
  then show ?thesis
    unfolding affected_systems_def
    using diff_added_removed [OF assms(2,1)]
    by (auto simp: differs_def split: option.splits)
qed

lemma all_some_map: "(\<And>x. x \<in> set xs \<Longrightarrow> f x = Some (g x)) \<Longrightarrow> all_some (map f xs) = Some (map g xs)"
  by (induction xs) auto

lemma applied_event_total:
  assumes "snapshot_ok previous" "snapshot_ok current"
  shows "\<exists>e. applied_event env previous current outcome i k = Some e \<and> event_chain e = k \<and>
    e_event_type e = ConfigGenerationApplied \<and>
    e_request_digest e = cfg_content_hash previous \<and> e_response_digest e = cfg_content_hash current \<and>
    (cfg_systems current (snd k) = None \<longrightarrow> cfg_systems previous (snd k) \<noteq> None \<longrightarrow> p_config_generation (e_pins e) = cfg_generation current)"
proof -
  obtain t s where k: "k = (t, s)" by fastforce
  have "sc_default_route sys < length (sc_routes sys)"
    if "(case cfg_systems current s of None \<Rightarrow> cfg_systems previous s | Some x \<Rightarrow> Some x) = Some sys" for sys
    using assms that by (auto simp: snapshot_ok_def split: option.splits)
  then show ?thesis
    by (cases "case cfg_systems current s of None \<Rightarrow> cfg_systems previous s | Some x \<Rightarrow> Some x")
      (auto simp: applied_event_def k Let_def system_def event_chain_def applied_pins_def split: option.splits)
qed

lemma record_applied_total:
  assumes "snapshot_ok previous" "snapshot_ok current"
  shows "\<exists>es. record_applied env previous current outcome = Some es \<and>
    map event_chain es = (if outcome_is_empty outcome then []
      else affected_chains (fd_prev_bindings env) (fd_next_bindings env) outcome) \<and>
    list_all (\<lambda>e. e_event_type e = ConfigGenerationApplied \<and>
      e_request_digest e = cfg_content_hash previous \<and> e_response_digest e = cfg_content_hash current) es"
proof (cases "outcome_is_empty outcome")
  case False
  let ?ks = "affected_chains (fd_prev_bindings env) (fd_next_bindings env) outcome"
  let ?f = "\<lambda>x. applied_event env previous current outcome (fst x) (snd x)"
  let ?g = "\<lambda>x. the (?f x)"
  have ev: "?f x = Some (?g x) \<and> event_chain (?g x) = snd x \<and>
      e_event_type (?g x) = ConfigGenerationApplied \<and>
      e_request_digest (?g x) = cfg_content_hash previous \<and> e_response_digest (?g x) = cfg_content_hash current" for x
    using applied_event_total [OF assms, of env outcome "fst x" "snd x"] by auto
  then have "record_applied env previous current outcome = Some (map ?g (enumerate 0 ?ks))"
    unfolding record_applied_def case_prod_unfold using False all_some_map [of "enumerate 0 ?ks" ?f ?g] by simp
  moreover have "map event_chain (map ?g (enumerate 0 ?ks)) = ?ks"
    using ev by (simp add: comp_def)
  moreover have "list_all (\<lambda>e. e_event_type e = ConfigGenerationApplied \<and>
      e_request_digest e = cfg_content_hash previous \<and> e_response_digest e = cfg_content_hash current)
    (map ?g (enumerate 0 ?ks))"
    using ev by (simp add: list_all_iff)
  ultimately show ?thesis using False by simp
qed (simp add: record_applied_def)

section \<open>Properties\<close>

lemma feed_apply_total:
  assumes "feed_run P policy r heard log"
  shows "feed_apply P env e r \<noteq> None"
proof (cases "install P (fd_built_at env) e")
  case (Inr snap)
  have ok: "snapshot_ok (ld_snap (pr_current r))"
    using resolver_run_ok [of P policy r heard] feed_run_kept [OF assms] by (simp add: resolver_ok_def)
  have "snapshot_ok snap" using Inr built_snapshot_ok [of P "fd_built_at env" "env_spec e" snap] by (simp add: install_eq_Inr)
  then have "record_applied env (ld_snap (pr_current r)) snap out \<noteq> None" for out
    using record_applied_total [OF ok, of snap env out] by auto
  then show ?thesis
    using Inr by (simp add: feed_apply_def Let_def reload_def store_next_def)
qed (simp add: feed_apply_def)

text \<open>
  C20. A node never serves a configuration it has not verified: whatever arrives on the bus and
  whatever its polls fetch, the snapshot it holds after cold start was built from the contents of
  an envelope that was delivered to it, those contents hash to the hash and carry the generation
  that envelope states, and the snapshot stands under both. Every state the node reaches is one of the
  resolver's (with the last successful contact as the instant staleness is measured from), and
  applying an envelope never panics.
\<close>

theorem feed_serves_verified:
  assumes "feed_run P policy r heard delivered"
  shows "resolver_run P policy r heard \<and>
    (is_cold r \<or> (\<exists>e \<in> set delivered. \<exists>t.
       spec_hash P (env_spec e) = Ok (env_content_hash e) \<and> ss_generation (env_spec e) = env_generation e \<and>
       build P t (env_spec e) = Ok (ld_snap (pr_current r)) \<and>
       cfg_generation (ld_snap (pr_current r)) = env_generation e \<and>
       cfg_content_hash (ld_snap (pr_current r)) = env_content_hash e)) \<and>
    feed_apply P env e r \<noteq> None"
  using feed_run_kept [OF assms] feed_apply_total [OF assms] by (auto simp: verified_snapshot_def vouches_def)

definition demo_feed_env :: feed_env where
  "demo_feed_env =
     \<lparr>fd_node_id = ''gw-1'', fd_built_at = 0, fd_reload_clock = 0, fd_now = 7, fd_timestamp = 0,
      fd_event_id = of_nat, fd_prev_systems = [], fd_next_systems = [''a''], fd_prev_bindings = [],
      fd_next_bindings = [\<lparr>b_tenant_id = ''t'', b_system_id = ''a''\<rparr>]\<rparr>"

theorem feed_serves_verified_witness:
  "\<exists>r h. \<not> is_cold r \<and> resolver_run (demo_prims []) default_policy r 7 \<and>
    feed_run (demo_prims []) default_policy r 7 [envelope_seal (demo_spec 41) h] \<and>
    spec_hash (demo_prims []) (demo_spec 41) = Ok h \<and> cfg_content_hash (ld_snap (pr_current r)) = h \<and>
    feed_apply (demo_prims []) demo_feed_env (envelope_seal (demo_spec 41) GENESIS) r \<noteq> None"
proof -
  obtain h where h: "spec_hash (demo_prims []) (demo_spec 41) = Ok h" using demo_spec_hashes by blast
  let ?e = "envelope_seal (demo_spec 41) h" and ?c = "cold default_policy 0 0"
  have inst: "install (demo_prims []) 0 ?e = Ok (demo_snapshot 41 0)"
    using h demo_builds [of 0 41] by (simp add: install_eq_Inr envelope_verify_def envelope_seal_def)
  have "watch_message (demo_prims []) demo_feed_env (Ok ?e) ?c =
      Some (store_next ?c (demo_snapshot 41 0) 7, [])"
    using inst by (simp add: watch_message_def feed_apply_def demo_feed_env_def reload_def cold_def
      record_applied_def first_snapshot_def outcome_is_empty_def Let_def)
  from feed_message [OF feed_cold this]
  have run: "feed_run (demo_prims []) default_policy (store_next ?c (demo_snapshot 41 0) 7) 7 [?e]"
    using inst by (simp add: installs_def demo_feed_env_def arrived_def)
  have warm: "\<not> is_cold (store_next ?c (demo_snapshot 41 0) 7)" by (simp add: is_cold_def store_next_def)
  show ?thesis
    using feed_serves_verified [OF run, of demo_feed_env "envelope_seal (demo_spec 41) GENESIS"] warm run h
    by (intro exI [of _ "store_next ?c (demo_snapshot 41 0) 7"] exI [of _ h]) (auto simp: envelope_seal_def)
qed

text \<open>
  C23. An applied generation is recorded in exactly the chains it concerns: one event for each tenant
  and system that a key of the old or the new snapshot binds, where the system's tracked
  configuration differs between the two, or is in one of them only; in sorted order, so that
  every node records the same, and each between the two content hashes.
\<close>

theorem generation_recorded_exactly:
  assumes "snapshot_ok prev" "snapshot_ok next" "enumerates po prev" "enumerates no next"
    "set (fd_prev_bindings env) = ran (cfg_keys prev)" "set (fd_next_bindings env) = ran (cfg_keys next)"
  shows "\<exists>es. record_applied env prev next (diff prev next po no clock) = Some es \<and>
    distinct (map event_chain es) \<and> sorted (map event_chain es) \<and>
    event_chain ` set es =
      {(b_tenant_id b, b_system_id b) | b. b \<in> ran (cfg_keys prev) \<union> ran (cfg_keys next) \<and>
        map_option tracked (cfg_systems prev (b_system_id b)) \<noteq> map_option tracked (cfg_systems next (b_system_id b))} \<and>
    list_all (\<lambda>e. e_event_type e = ConfigGenerationApplied \<and>
      e_request_digest e = cfg_content_hash prev \<and> e_response_digest e = cfg_content_hash next) es"
proof -
  let ?out = "diff prev next po no clock"
  let ?ks = "affected_chains (fd_prev_bindings env) (fd_next_bindings env) ?out"
  obtain es where es: "record_applied env prev next ?out = Some es"
      "map event_chain es = (if outcome_is_empty ?out then [] else ?ks)"
      "list_all (\<lambda>e. e_event_type e = ConfigGenerationApplied \<and>
        e_request_digest e = cfg_content_hash prev \<and> e_response_digest e = cfg_content_hash next) es"
    using record_applied_total [OF assms(1,2)] by blast
  have "outcome_is_empty ?out \<Longrightarrow> affected_systems ?out = []"
    by (simp add: outcome_is_empty_def affected_systems_def)
  then have "outcome_is_empty ?out \<Longrightarrow> ?ks = []"
    using affected_chains_eq(2) [of "fd_prev_bindings env" "fd_next_bindings env" ?out] by auto
  then have ks: "map event_chain es = ?ks" using es(2) by simp
  have "set ?ks = {(b_tenant_id b, b_system_id b) | b. b \<in> ran (cfg_keys prev) \<union> ran (cfg_keys next) \<and>
      differs prev next (b_system_id b)}"
    unfolding affected_chains_eq(2) affected_systems_eq [OF assms(3,4)] assms(5,6) by auto
  moreover have "event_chain ` set es = set ?ks" by (metis ks list.set_map)
  moreover have "sorted ?ks" by (simp add: affected_chains_def)
  moreover have "distinct (map event_chain es)" "sorted (map event_chain es)"
    using ks affected_chains_eq(1) [of "fd_prev_bindings env" "fd_next_bindings env" ?out]
    by (simp_all add: affected_chains_def)
  ultimately show ?thesis
    using es(1,3) by (intro exI [of _ es]) (simp add: differs_def)
qed

theorem generation_recorded_exactly_witness:
  "\<exists>es. record_applied demo_feed_env (empty_snapshot 0) (demo_snapshot 41 0)
      (diff (empty_snapshot 0) (demo_snapshot 41 0) [] [''a''] 0) = Some es \<and>
    event_chain ` set es = {(''t'', ''a'')}"
proof -
  have "snapshot_ok (demo_snapshot 41 0)" by (rule built_snapshot_ok [OF demo_builds])
  moreover have "enumerates [] (empty_snapshot 0)" "enumerates [''a''] (demo_snapshot 41 0)"
    by (simp_all add: enumerates_def empty_snapshot_def)
  moreover have "set (fd_prev_bindings demo_feed_env) = ran (cfg_keys (empty_snapshot 0))"
    "set (fd_next_bindings demo_feed_env) = ran (cfg_keys (demo_snapshot 41 0))"
    by (simp_all add: demo_feed_env_def empty_snapshot_def)
  ultimately obtain es where es: "record_applied demo_feed_env (empty_snapshot 0) (demo_snapshot 41 0)
      (diff (empty_snapshot 0) (demo_snapshot 41 0) [] [''a''] 0) = Some es"
    "event_chain ` set es =
      {(b_tenant_id b, b_system_id b) | b. b \<in> ran (cfg_keys (empty_snapshot 0)) \<union> ran (cfg_keys (demo_snapshot 41 0)) \<and>
        map_option tracked (cfg_systems (empty_snapshot 0) (b_system_id b)) \<noteq>
        map_option tracked (cfg_systems (demo_snapshot 41 0) (b_system_id b))}"
    using generation_recorded_exactly [of "empty_snapshot 0" "demo_snapshot 41 0" "[]" "[''a'']" demo_feed_env 0]
    by auto
  then show ?thesis by (auto simp: empty_snapshot_def)
qed

text \<open>
  A poll that names the installed generation restarts the staleness clock whatever else its
  envelope holds: neither its hash nor its contents are looked at.
\<close>

theorem poll_confirms_unverified:
  assumes "\<not> is_cold r"
  shows "poll_once P env (Ok \<lparr>env_generation = resolver_generation r, env_content_hash = h, env_spec = spec\<rparr>) r =
    Some (confirm_fresh r (fd_now env), Ok None, [])"
  using assms by (simp add: poll_once_def)

text \<open>
  The poll and the bus run beside each other: the answer to a poll that was sent before a newer
  generation came over the bus is applied after it, since any generation but the installed one
  is. The node goes back to the older configuration, and its staleness clock starts anew.
\<close>

theorem late_poll_goes_back:
  assumes "install P (fd_built_at env) e = Ok old" "\<not> is_cold r"
    and "env_generation e < resolver_generation r"
    and "poll_once P env (Ok e) r = Some (r', answer, events)"
  shows "resolver_generation r' = env_generation e \<and> ld_snap (pr_current r') = old"
proof -
  have "cfg_generation old = env_generation e"
    using assms(1) by (auto simp: install_eq_Inr build_eq_Inr envelope_verify_eq_Inr)
  moreover have "env_generation e \<noteq> resolver_generation r" using assms(3) by simp
  then obtain a where "feed_apply P env e r = Some (r', a, events)"
    using assms(4) by (auto simp: poll_once_def)
  then have "r' = store_next r old (fd_now env)"
    using feed_apply_cases assms(1) by fastforce
  ultimately show ?thesis by (simp add: store_next_def resolver_generation_def)
qed

end
