(* ===== verification/Publish.thy ===== *)
theory Publish
  imports Control Config Format "HOL-Library.Sublist"
begin

text \<open>
  How a configuration leaves the control plane: \<open>registry.rs\<close> and the registry of \<open>postgres.rs\<close>,
  \<open>snapshot.rs\<close> (build, publish, serve), \<open>envelope.rs\<close> and \<open>bus.rs\<close>.

  \<open>'s\<close> is the state of the world. The Postgres client is a record of the statements the code
  issues, with their errors already printed; the reading of a \<open>jsonb\<close> matcher and how \<open>{:?}\<close>
  quotes are arguments. A body is its bytes.
\<close>

section \<open>The registry\<close>

record 's registry =
  rg_systems :: "'s \<Rightarrow> 's \<times> (system_config_spec list, control_error) result"
  rg_keys :: "'s \<Rightarrow> 's \<times> (key_binding_spec list, control_error) result"
  rg_prompt :: "'s \<Rightarrow> hash32 \<Rightarrow> 's \<times> (u8 list option, control_error) result"
  rg_published :: "'s \<Rightarrow> 's \<times> ((u64 \<times> hash32) option, control_error) result"
  rg_allocate_generation :: "'s \<Rightarrow> hash32 \<Rightarrow> 's \<times> (u64, control_error) result"

type_synonym 's snapshot_bus = "'s \<Rightarrow> snapshot_envelope \<Rightarrow> 's \<times> (unit, control_error) result"

section \<open>The registry in Postgres\<close>

record system_row =
  ws_system_id :: string
  ws_system_version :: string
  ws_ifu_version :: string
  ws_risk_class :: string
  ws_policy_id :: string
  ws_policy_version :: string
  ws_default_route :: int

record 'j route_row =
  wr_system_id :: string
  wr_matcher :: 'j
  wr_model_id :: string
  wr_model_version :: string
  wr_prompt_id :: string
  wr_prompt_version :: string
  wr_prompt_hash :: "u8 list"

record key_row =
  wk_key_hash :: "u8 list"
  wk_tenant_id :: string
  wk_system_id :: string

text \<open>
  The statements. A transaction is \<open>rc_begin\<close>, statements, and \<open>rc_commit\<close>; \<open>rc_rollback\<close> is what
  dropping it does.
\<close>

record ('s, 'j) registry_client =
  rc_systems :: "'s \<Rightarrow> 's \<times> (system_row list, string) result"
  rc_routes :: "'s \<Rightarrow> 's \<times> ('j route_row list, string) result"
  rc_keys :: "'s \<Rightarrow> 's \<times> (key_row list, string) result"
  rc_prompt :: "'s \<Rightarrow> u8 list \<Rightarrow> 's \<times> (u8 list option, string) result"
  rc_latest :: "'s \<Rightarrow> 's \<times> ((i64 \<times> u8 list) option, string) result"
  rc_begin :: "'s \<Rightarrow> 's \<times> (unit, string) result"
  rc_lock :: "'s \<Rightarrow> i64 \<Rightarrow> 's \<times> (unit, string) result"
  rc_next :: "'s \<Rightarrow> 's \<times> (i64, string) result"
  rc_insert :: "'s \<Rightarrow> i64 \<Rightarrow> u8 list \<Rightarrow> 's \<times> (unit, string) result"
  rc_commit :: "'s \<Rightarrow> 's \<times> (unit, string) result"
  rc_rollback :: "'s \<Rightarrow> 's"

definition GENERATION_LOCK :: i64 where
  "GENERATION_LOCK = 0x616e6372655f6731"

definition route_of_row ::
    "('j \<Rightarrow> (matcher, string) result) \<Rightarrow> 'j route_row \<Rightarrow> (route_spec, control_error) result" where
  "route_of_row read_matcher r =
     and_then (map_err (\<lambda>e. ControlInvalid (''system '' @ wr_system_id r @ '': unreadable matcher: '' @ e))
         (read_matcher (wr_matcher r))) (\<lambda>m.
     and_then (pg_hash32 (wr_prompt_hash r) ''prompt_hash'') (\<lambda>h.
       Ok \<lparr>ro_matcher = m, ro_model_id = wr_model_id r, ro_model_version = wr_model_version r,
           ro_prompt_id = wr_prompt_id r, ro_prompt_version = wr_prompt_version r, ro_prompt_hash = h\<rparr>))"

text \<open>\<open>routes.entry(system_id).or_default().push(route)\<close>\<close>

definition push_route ::
    "(string \<rightharpoonup> route_spec list) \<Rightarrow> string \<Rightarrow> route_spec \<Rightarrow> (string \<rightharpoonup> route_spec list)" where
  "push_route m i r = m(i \<mapsto> (case m i of None \<Rightarrow> [] | Some rs \<Rightarrow> rs) @ [r])"

fun collect_routes ::
    "('j \<Rightarrow> (matcher, string) result) \<Rightarrow> (string \<rightharpoonup> route_spec list) \<Rightarrow> 'j route_row list \<Rightarrow>
     (string \<rightharpoonup> route_spec list, control_error) result" where
  "collect_routes read_matcher m [] = Ok m"
| "collect_routes read_matcher m (r # rs) =
     and_then (route_of_row read_matcher r) (\<lambda>route.
       collect_routes read_matcher (push_route m (wr_system_id r) route) rs)"

definition default_route_of :: "int \<Rightarrow> usize" where
  "default_route_of i = (if 0 \<le> i then nat i else 2 ^ 64 - 1)"

definition system_of_row ::
    "(string \<Rightarrow> string) \<Rightarrow> (string \<rightharpoonup> route_spec list) \<Rightarrow> system_row \<Rightarrow> (system_config_spec, control_error) result" where
  "system_of_row dbg routes s =
     and_then (ok_or (ControlInvalid (''system '' @ ws_system_id s @ '': unknown risk_class '' @ dbg (ws_risk_class s)))
         (risk_class_from_wire (ws_risk_class s))) (\<lambda>risk.
       Ok \<lparr>sy_system_id = ws_system_id s, sy_system_version = ws_system_version s,
           sy_ifu_version = ws_ifu_version s, sy_risk_class = risk, sy_policy_id = ws_policy_id s,
           sy_policy_version = ws_policy_version s,
           sy_routes = (case routes (ws_system_id s) of None \<Rightarrow> [] | Some rs \<Rightarrow> rs),
           sy_default_route = default_route_of (ws_default_route s)\<rparr>)"

fun collect_systems ::
    "(string \<Rightarrow> string) \<Rightarrow> (string \<rightharpoonup> route_spec list) \<Rightarrow> system_row list \<Rightarrow>
     (system_config_spec list, control_error) result" where
  "collect_systems dbg routes [] = Ok []"
| "collect_systems dbg routes (s # ss) =
     and_then (system_of_row dbg routes s) (\<lambda>sys.
     and_then (collect_systems dbg (routes(ws_system_id s := None)) ss) (\<lambda>out. Ok (sys # out)))"

definition pg_systems ::
    "('j \<Rightarrow> (matcher, string) result) \<Rightarrow> (string \<Rightarrow> string) \<Rightarrow> ('s, 'j) registry_client \<Rightarrow> 's \<Rightarrow>
     's \<times> (system_config_spec list, control_error) result" where
  "pg_systems read_matcher dbg C s =
     then_do (do_err Db (rc_systems C s)) (\<lambda>s system_rows.
     then_do (do_err Db (rc_routes C s)) (\<lambda>s route_rows.
       (s, and_then (collect_routes read_matcher Map.empty route_rows) (\<lambda>routes.
             collect_systems dbg routes system_rows))))"

definition key_of_row :: "key_row \<Rightarrow> (key_binding_spec, control_error) result" where
  "key_of_row r =
     and_then (pg_hash32 (wk_key_hash r) ''key_hash'') (\<lambda>h.
       Ok \<lparr>kb_key_hash = h, kb_tenant_id = wk_tenant_id r, kb_system_id = wk_system_id r\<rparr>)"

definition pg_keys :: "('s, 'j) registry_client \<Rightarrow> 's \<Rightarrow> 's \<times> (key_binding_spec list, control_error) result" where
  "pg_keys C s = then_do (do_err Db (rc_keys C s)) (\<lambda>s rows. (s, try_map key_of_row rows))"

definition pg_prompt ::
    "hash_fn \<Rightarrow> ('s, 'j) registry_client \<Rightarrow> 's \<Rightarrow> hash32 \<Rightarrow> 's \<times> (u8 list option, control_error) result" where
  "pg_prompt H C s hash =
     then_do (do_err Db (rc_prompt C s (as_bytes hash))) (\<lambda>s body.
       (s, case body of None \<Rightarrow> Ok None
           | Some b \<Rightarrow>
               if hash_bytes H b \<noteq> hash
               then Err (ControlInvalid (''prompt '' @ to_hex hash @
                 '' does not hash to its own key; the row was edited in place''))
               else Ok (Some b)))"

definition pg_published ::
    "('s, 'j) registry_client \<Rightarrow> 's \<Rightarrow> 's \<times> ((u64 \<times> hash32) option, control_error) result" where
  "pg_published C s =
     then_do (do_err Db (rc_latest C s)) (\<lambda>s row.
       (s, case row of None \<Rightarrow> Ok None
           | Some (g, h) \<Rightarrow> and_then (pg_hash32 h ''content_hash'') (\<lambda>h. Ok (Some (of_i64 g, h)))))"

text \<open>A statement of a transaction: where it fails the transaction is dropped.\<close>

definition or_rollback ::
    "('s \<Rightarrow> 's) \<Rightarrow> 's \<times> ('a, 'e) result \<Rightarrow> ('s \<Rightarrow> 'a \<Rightarrow> 's \<times> ('b, 'e) result) \<Rightarrow> 's \<times> ('b, 'e) result" where
  "or_rollback drop_tx p f = (case p of (s, Inl e) \<Rightarrow> (drop_tx s, Inl e) | (s, Inr a) \<Rightarrow> f s a)"

definition pg_allocate_generation ::
    "('s, 'j) registry_client \<Rightarrow> 's \<Rightarrow> hash32 \<Rightarrow> 's \<times> (u64, control_error) result" where
  "pg_allocate_generation C s hash =
     then_do (do_err Db (rc_begin C s)) (\<lambda>s _.
     or_rollback (rc_rollback C) (do_err Db (rc_lock C s GENERATION_LOCK)) (\<lambda>s _.
     or_rollback (rc_rollback C) (do_err Db (rc_next C s)) (\<lambda>s g.
     or_rollback (rc_rollback C) (do_err Db (rc_insert C s g (as_bytes hash))) (\<lambda>s _.
     then_do (do_err Db (rc_commit C s)) (\<lambda>s _.
       (s, Ok (of_i64 g)))))))"

definition pg_registry ::
    "hash_fn \<Rightarrow> ('j \<Rightarrow> (matcher, string) result) \<Rightarrow> (string \<Rightarrow> string) \<Rightarrow> ('s, 'j) registry_client \<Rightarrow> 's registry" where
  "pg_registry H read_matcher dbg C =
     \<lparr>rg_systems = pg_systems read_matcher dbg C, rg_keys = pg_keys C, rg_prompt = pg_prompt H C,
      rg_published = pg_published C, rg_allocate_generation = pg_allocate_generation C\<rparr>"

section \<open>Building and publishing\<close>

record 's snapshot_builder =
  sb_registry :: "'s registry"
  sb_bus :: "'s snapshot_bus"
  sb_gateway_version :: string

datatype published = Bumped u64 | Unchanged u64

fun published_generation :: "published \<Rightarrow> u64" where
  "published_generation (Bumped g) = g"
| "published_generation (Unchanged g) = g"

text \<open>\<open>Display\<close> for \<open>SnapshotError\<close>.\<close>

fun snapshot_error_to_string :: "snapshot_error \<Rightarrow> string" where
  "snapshot_error_to_string (BadDefaultRoute s) = ''system '' @ s @ '' has a default_route index that is out of bounds''"
| "snapshot_error_to_string (NoRoutes s) = ''system '' @ s @ '' has no routes''"
| "snapshot_error_to_string (DuplicateSystem s) = ''duplicate system id: '' @ s"
| "snapshot_error_to_string (DuplicateKey h) = ''duplicate api key hash: '' @ to_hex h"
| "snapshot_error_to_string (KeyBindsUnknownSystem s) = ''key binds to unknown system: '' @ s"
| "snapshot_error_to_string (SnapshotCanon m) = ''canonical encoding failed: '' @ m"
| "snapshot_error_to_string (GenerationMismatch g g') =
     ''snapshot envelope rejected: envelope generation '' @ dec_u64 g @ '' does not match the spec'' @ [CHR 0x27] @ ''s '' @ dec_u64 g'"
| "snapshot_error_to_string (ContentMismatch h h') =
     ''snapshot envelope rejected: content hash mismatch: envelope says '' @ to_hex h @
     '', contents hash to '' @ to_hex h'"

text \<open>The clock of the trial build does not reach what is returned; it is an argument all the same.\<close>

definition builder_build ::
    "canon_prims \<Rightarrow> timestamp \<Rightarrow> 's snapshot_builder \<Rightarrow> 's \<Rightarrow> 's \<times> (snapshot_spec, control_error) result" where
  "builder_build P now b s =
     then_do (rg_systems (sb_registry b) s) (\<lambda>s systems.
     then_do (rg_keys (sb_registry b) s) (\<lambda>s keys.
       let spec = canonicalize_order
             \<lparr>ss_generation = 0, ss_gateway_version = sb_gateway_version b, ss_systems = systems, ss_keys = keys\<rparr>
       in (s, and_then (map_err (\<lambda>e. ControlInvalid (snapshot_error_to_string e)) (build P now spec))
                (\<lambda>_. Ok spec))))"

definition builder_content_hash :: "canon_prims \<Rightarrow> snapshot_spec \<Rightarrow> (hash32, control_error) result" where
  "builder_content_hash P spec =
     map_err (\<lambda>e. ControlCanon (canon_error_to_string e))
       (content_hash P snapshot_content_value (content_view spec))"

text \<open>
  \<open>publish\<close> up to the bus: what it answers when nothing changed, or the envelope it hands over.
\<close>

definition prepare ::
    "canon_prims \<Rightarrow> timestamp \<Rightarrow> 's snapshot_builder \<Rightarrow> 's \<Rightarrow>
     's \<times> (published + snapshot_envelope, control_error) result" where
  "prepare P now b s =
     then_do (builder_build P now b s) (\<lambda>s spec.
     then_do (s, builder_content_hash P spec) (\<lambda>s hash.
     then_do (rg_published (sb_registry b) s) (\<lambda>s p.
       let fresh = then_do (rg_allocate_generation (sb_registry b) s hash) (\<lambda>s generation.
             (s, Ok (Inr (envelope_seal (spec\<lparr>ss_generation := generation\<rparr>) hash)))) in
       case p of
         Some (generation, published_hash) \<Rightarrow>
           if published_hash = hash then (s, Ok (Inl (Unchanged generation))) else fresh
       | None \<Rightarrow> fresh)))"

definition publish ::
    "canon_prims \<Rightarrow> timestamp \<Rightarrow> 's snapshot_builder \<Rightarrow> 's \<Rightarrow> 's \<times> (published, control_error) result" where
  "publish P now b s =
     then_do (prepare P now b s) (\<lambda>s r.
       case r of
         Inl unchanged \<Rightarrow> (s, Ok unchanged)
       | Inr e \<Rightarrow> then_do (sb_bus b s e) (\<lambda>s _. (s, Ok (Bumped (env_generation e)))))"

definition builder_current ::
    "canon_prims \<Rightarrow> timestamp \<Rightarrow> 's snapshot_builder \<Rightarrow> 's \<Rightarrow> 's \<times> (snapshot_envelope, control_error) result" where
  "builder_current P now b s =
     then_do (builder_build P now b s) (\<lambda>s spec.
     then_do (s, builder_content_hash P spec) (\<lambda>s hash.
     then_do (rg_published (sb_registry b) s) (\<lambda>s p.
       case p of
         Some (generation, published_hash) \<Rightarrow>
           if published_hash = hash then (s, Ok (envelope_seal (spec\<lparr>ss_generation := generation\<rparr>) hash))
           else (s, Err (ControlInvalid (''registry has unpublished changes since generation '' @
                  dec_u64 generation @ ''; publish before serving'')))
       | None \<Rightarrow> (s, Err (ControlInvalid ''nothing published yet'')))))"

definition builder_prompt ::
    "'s snapshot_builder \<Rightarrow> 's \<Rightarrow> string \<Rightarrow> 's \<times> (u8 list option, control_error) result" where
  "builder_prompt b s hash =
     (case from_hex hash of
        Inl _ \<Rightarrow> (s, Ok None)
      | Inr h \<Rightarrow> rg_prompt (sb_registry b) s h)"

section \<open>The bus\<close>

text \<open>
  What JetStream is given: the subject, the deduplication id and the payload. Sending and the
  acknowledgement it awaits are the client's, and so is the JSON of an envelope.
\<close>

definition msg_id :: "snapshot_envelope \<Rightarrow> string" where
  "msg_id e = dec_u64 (env_generation e) @ '':'' @ take 16 (to_hex (env_content_hash e))"

record ('s, 'a) jetstream =
  js_send :: "'s \<Rightarrow> string \<Rightarrow> string \<Rightarrow> string \<Rightarrow> 's \<times> ('a, string) result"
  js_ack :: "'s \<Rightarrow> 'a \<Rightarrow> 's \<times> (unit, string) result"

definition nats_publish ::
    "(snapshot_envelope \<Rightarrow> (string, string) result) \<Rightarrow> ('s, 'a) jetstream \<Rightarrow> 's snapshot_bus" where
  "nats_publish to_vec J s e =
     then_do (s, map_err (\<lambda>m. ControlCanon (''encoding snapshot: '' @ m)) (to_vec e)) (\<lambda>s payload.
     then_do (do_err ControlBus (js_send J s SNAPSHOT_SUBJECT (msg_id e) payload)) (\<lambda>s a.
       do_err ControlBus (js_ack J s a)))"

section \<open>What is built\<close>

lemma spec_hash_generation [simp]: "spec_hash P (spec\<lparr>ss_generation := g\<rparr>) = spec_hash P spec"
  by (simp add: spec_hash_def content_view_def)

lemma spec_ok_generation [simp]: "spec_ok (spec\<lparr>ss_generation := g\<rparr>) = spec_ok spec"
  by (simp add: spec_ok_def)

lemma builder_content_hash_eq: "builder_content_hash P spec = Inr h \<longleftrightarrow> spec_hash P spec = Inr h"
  by (simp add: builder_content_hash_def spec_hash_def)

lemma sealed_envelope_installs:
  assumes "spec_ok spec" "spec_hash P spec = Inr h"
  shows "\<exists>snap. install P t (envelope_seal (spec\<lparr>ss_generation := g\<rparr>) h) = Inr snap \<and>
    cfg_generation snap = g \<and> cfg_content_hash snap = h"
  using assms by (auto simp: install_eq_Inr envelope_verify_eq_Inr envelope_seal_def build_eq_Inr)

lemma builder_build_ok:
  assumes "builder_build P now b s = (s', Inr spec)"
  shows "spec_ok spec \<and> (\<exists>h. spec_hash P spec = Inr h)"
  using assms by (auto simp: builder_build_def Let_def and_then_eq_Inr build_eq_Inr elim!: then_do_cases)

section \<open>The log of generations\<close>

text \<open>
  What publishing relies on: the log of allocated generations, each with the hash of its content,
  grows by numbers above all before them, whichever replica allocates; any call may see it grown.
\<close>

locale generation_log =
  fixes lawful :: "'c \<Rightarrow> bool"
    and reg :: "'c \<Rightarrow> 's registry"
    and issued :: "'c \<Rightarrow> 's \<Rightarrow> (u64 \<times> hash32) list"
  assumes increasing: "lawful c \<Longrightarrow> sorted_wrt (<) (map fst (issued c s))"
    and systems_keep: "lawful c \<Longrightarrow> rg_systems (reg c) s = (s', r) \<Longrightarrow> prefix (issued c s) (issued c s')"
    and keys_keep: "lawful c \<Longrightarrow> rg_keys (reg c) s = (s', r') \<Longrightarrow> prefix (issued c s) (issued c s')"
    and published_keep: "lawful c \<Longrightarrow> rg_published (reg c) s = (s', p) \<Longrightarrow> prefix (issued c s) (issued c s')"
    and published_read: "lawful c \<Longrightarrow> rg_published (reg c) s = (s', Inr q) \<Longrightarrow>
      q = (if issued c s' = [] then None else Some (last (issued c s')))"
    and allocate_keep: "lawful c \<Longrightarrow> rg_allocate_generation (reg c) s h = (s', a) \<Longrightarrow>
      prefix (issued c s) (issued c s')"
    and allocate_new: "lawful c \<Longrightarrow> rg_allocate_generation (reg c) s h = (s', Inr g) \<Longrightarrow>
      \<exists>others. prefix (issued c s @ others @ [(g, h)]) (issued c s')"
begin

lemma build_keep:
  assumes "lawful c" "sb_registry b = reg c" "builder_build P now b s = (s', r)"
  shows "prefix (issued c s) (issued c s')"
  using assms(3) systems_keep [OF assms(1)] keys_keep [OF assms(1)] prefix_order.trans
  unfolding builder_build_def assms(2) Let_def
  by (elim then_do_cases) fastforce+

lemma above_all:
  assumes "lawful c" "prefix (log @ [(g, h)]) (issued c s)" "(g', h') \<in> set log"
  shows "g' < g"
proof -
  obtain rest where "issued c s = log @ [(g, h)] @ rest" using assms(2) by (auto elim: prefixE)
  then have "sorted_wrt (<) (map fst log @ [g] @ map fst rest)" using increasing [OF assms(1), of s] by simp
  then show ?thesis using assms(3) by (force simp: sorted_wrt_append)
qed

lemma one_hash_each:
  assumes "lawful c" "(g, h) \<in> set (issued c s)" "(g, h') \<in> set (issued c s)"
  shows "h = h'"
proof -
  have "distinct (map fst (issued c s))"
    using increasing [OF assms(1), of s] strict_sorted_iff by blast
  then show ?thesis using assms(2,3) by (metis eq_key_imp_eq_value)
qed

lemma prepare_sound:
  assumes "lawful c" "sb_registry b = reg c" "prepare P now b s = (s', Inr r)"
  shows "\<exists>spec s1 s2 h. builder_build P now b s = (s1, Inr spec) \<and> spec_hash P spec = Inr h \<and>
    (\<exists>p. rg_published (sb_registry b) s1 = (s2, Inr p)) \<and>
    prefix (issued c s) (issued c s2) \<and> prefix (issued c s2) (issued c s') \<and>
    (case r of
       Inl p \<Rightarrow> s' = s2 \<and> (\<exists>g. p = Unchanged g \<and> issued c s2 \<noteq> [] \<and> last (issued c s2) = (g, h))
     | Inr e \<Rightarrow> env_spec e = spec\<lparr>ss_generation := env_generation e\<rparr> \<and> env_content_hash e = h \<and>
         (issued c s2 = [] \<or> snd (last (issued c s2)) \<noteq> h) \<and>
         (env_generation e, h) \<in> set (issued c s') \<and>
         (\<forall>x \<in> set (issued c s2). fst x < env_generation e) \<and>
         (\<forall>t. \<exists>snap. install P t e = Inr snap \<and> cfg_generation snap = env_generation e \<and>
            cfg_content_hash snap = h))"
proof -
  obtain s1 spec s2 h p where
    built: "builder_build P now b s = (s1, Inr spec)" and h: "builder_content_hash P spec = Inr h"
    and pub: "rg_published (reg c) s1 = (s2, Inr p)"
    and rest: "(let fresh = then_do (rg_allocate_generation (reg c) s2 h) (\<lambda>s generation.
             (s, Ok (Inr (envelope_seal (spec\<lparr>ss_generation := generation\<rparr>) h)))) in
       case p of
         Some (generation, published_hash) \<Rightarrow>
           if published_hash = h then (s2, Ok (Inl (Unchanged generation))) else fresh
       | None \<Rightarrow> fresh) = (s', Inr r)"
    using assms(3) unfolding prepare_def assms(2) by (elim then_do_cases) auto
  have pre: "prefix (issued c s) (issued c s2)"
    using build_keep [OF assms(1,2) built] published_keep [OF assms(1) pub] by simp
  note read = published_read [OF assms(1) pub]
  have hash: "spec_hash P spec = Inr h" using h by (simp add: builder_content_hash_eq)
  have found: "\<exists>p. rg_published (sb_registry b) s1 = (s2, Inr p)" using pub assms(2) by simp
  show ?thesis
  proof (cases "p \<noteq> None \<and> snd (the p) = h")
    case True
    then obtain g where p: "p = Some (g, h)" by auto
    then have "issued c s2 \<noteq> []" "last (issued c s2) = (g, h)"
      using read by (metis option.distinct(1), metis option.distinct(1) option.inject)
    moreover have "r = Inl (Unchanged g)" "s' = s2" using rest p by simp_all
    ultimately show ?thesis using built hash found pre
      by (intro exI [of _ spec] exI [of _ s1] exI [of _ s2] exI [of _ h]) auto
  next
    case False
    then have "then_do (rg_allocate_generation (reg c) s2 h) (\<lambda>s generation.
        (s, Ok (Inr (envelope_seal (spec\<lparr>ss_generation := generation\<rparr>) h)))) = (s', Inr r)"
      using rest by (auto simp: Let_def split: option.splits if_splits)
    then obtain g where al: "rg_allocate_generation (reg c) s2 h = (s', Inr g)"
        and r: "r = Inr (envelope_seal (spec\<lparr>ss_generation := g\<rparr>) h)"
      by (elim then_do_cases) auto
    obtain others where new: "prefix (issued c s2 @ others @ [(g, h)]) (issued c s')"
      using allocate_new [OF assms(1) al] by blast
    have "(g, h) \<in> set (issued c s')" using set_mono_prefix [OF new] by auto
    moreover have "fst x < g" if "x \<in> set (issued c s2)" for x
      using above_all [OF assms(1), of "issued c s2 @ others" g h s' "fst x" "snd x"] new that by auto
    moreover have "\<forall>t. \<exists>snap. install P t (envelope_seal (spec\<lparr>ss_generation := g\<rparr>) h) = Inr snap \<and>
        cfg_generation snap = g \<and> cfg_content_hash snap = h"
      using sealed_envelope_installs builder_build_ok [OF built] hash by blast
    moreover have "issued c s2 = [] \<or> snd (last (issued c s2)) \<noteq> h"
      using False read by (cases "issued c s2 = []") simp_all
    moreover have "prefix (issued c s2) (issued c s')" using new by (auto elim: append_prefixD)
    ultimately show ?thesis using built hash found pre unfolding r
      by (intro exI [of _ spec] exI [of _ s1] exI [of _ s2] exI [of _ h]) (simp add: envelope_seal_def)
  qed
qed

lemma current_sound:
  assumes "lawful c" "sb_registry b = reg c" "builder_current P now b s = (s', Inr e)"
  shows "issued c s' \<noteq> [] \<and> last (issued c s') = (env_generation e, env_content_hash e) \<and>
    (\<forall>t. \<exists>snap. install P t e = Inr snap \<and> cfg_generation snap = env_generation e \<and>
       cfg_content_hash snap = env_content_hash e)"
proof -
  obtain s1 spec h p where
    built: "builder_build P now b s = (s1, Inr spec)" and h: "builder_content_hash P spec = Inr h"
    and pub: "rg_published (reg c) s1 = (s', Inr p)"
    and e: "\<exists>g. p = Some (g, h) \<and> e = envelope_seal (spec\<lparr>ss_generation := g\<rparr>) h"
    using assms(3) unfolding builder_current_def assms(2)
    by (elim then_do_cases) (auto split: option.splits if_splits)
  show ?thesis
    using e published_read [OF assms(1) pub] sealed_envelope_installs builder_build_ok [OF built] h
    by (auto simp: builder_content_hash_eq envelope_seal_def split: if_splits)
qed

end

section \<open>The log in Postgres\<close>

text \<open>
  What the server owes: the rows of \<open>snapshot_generations\<close> (oldest first) are only added, by this
  code; a transaction that holds the advisory lock sees no other allocate, and what it inserts is
  there once it has committed. A commit that fails may have happened.
\<close>

record ('s, 'j) registry_view =
  rv_client :: "('s, 'j) registry_client"
  rv_hash :: hash_fn
  rv_read :: "'j \<Rightarrow> (matcher, string) result"
  rv_dbg :: "string \<Rightarrow> string"
  rv_rows :: "'s \<Rightarrow> (i64 \<times> u8 list) list"
  rv_locked :: "'s \<Rightarrow> bool"
  rv_pending :: "'s \<Rightarrow> (i64 \<times> u8 list) option"

definition view_registry :: "('s, 'j) registry_view \<Rightarrow> 's registry" where
  "view_registry V = pg_registry (rv_hash V) (rv_read V) (rv_dbg V) (rv_client V)"

definition row_generation :: "i64 \<times> u8 list \<Rightarrow> u64 \<times> hash32" where
  "row_generation r = (of_i64 (fst r), from_bytes (snd r))"

definition view_issued :: "('s, 'j) registry_view \<Rightarrow> 's \<Rightarrow> (u64 \<times> hash32) list" where
  "view_issued V s = map row_generation (rv_rows V s)"

definition rows_lawful :: "(i64 \<times> u8 list) list \<Rightarrow> bool" where
  "rows_lawful rows \<longleftrightarrow> sorted_wrt (<) (map fst rows) \<and>
     list_all (\<lambda>(g, h). 0 < g \<and> g \<le> i64_max \<and> length h = 32) rows"

definition reads_lawful :: "('s, 'j) registry_view \<Rightarrow> bool" where
  "reads_lawful V \<longleftrightarrow>
     (\<forall>s. rows_lawful (rv_rows V s)) \<and>
     (\<forall>s. prefix (rv_rows V s) (rv_rows V (fst (rc_systems (rv_client V) s)))) \<and>
     (\<forall>s. prefix (rv_rows V s) (rv_rows V (fst (rc_routes (rv_client V) s)))) \<and>
     (\<forall>s. prefix (rv_rows V s) (rv_rows V (fst (rc_keys (rv_client V) s)))) \<and>
     (\<forall>s s' q. rc_latest (rv_client V) s = (s', q) \<longrightarrow> prefix (rv_rows V s) (rv_rows V s') \<and>
        (\<forall>r. q = Inr r \<longrightarrow> r = (if rv_rows V s' = [] then None else Some (last (rv_rows V s')))))"

definition transaction_lawful :: "('s, 'j) registry_view \<Rightarrow> bool" where
  "transaction_lawful V \<longleftrightarrow>
     (\<forall>s. prefix (rv_rows V s) (rv_rows V (fst (rc_begin (rv_client V) s)))) \<and>
     (\<forall>s. prefix (rv_rows V s) (rv_rows V (rc_rollback (rv_client V) s))) \<and>
     (\<forall>s l s' q. rc_lock (rv_client V) s l = (s', q) \<longrightarrow> prefix (rv_rows V s) (rv_rows V s') \<and>
        (q = Inr () \<longrightarrow> rv_locked V s')) \<and>
     (\<forall>s s' q. rc_next (rv_client V) s = (s', q) \<longrightarrow> rv_locked V s \<longrightarrow> prefix (rv_rows V s) (rv_rows V s') \<and>
        (\<forall>n. q = Inr n \<longrightarrow> rv_rows V s' = rv_rows V s \<and> rv_locked V s' \<and>
           n = (if rv_rows V s = [] then 0 else fst (last (rv_rows V s))) + 1)) \<and>
     (\<forall>s n h s' q. rc_insert (rv_client V) s n h = (s', q) \<longrightarrow> rv_locked V s \<longrightarrow>
        prefix (rv_rows V s) (rv_rows V s') \<and>
        (q = Inr () \<longrightarrow> rv_rows V s' = rv_rows V s \<and> rv_locked V s' \<and> rv_pending V s' = Some (n, h))) \<and>
     (\<forall>s r s' q. rc_commit (rv_client V) s = (s', q) \<longrightarrow> rv_locked V s \<longrightarrow> rv_pending V s = Some r \<longrightarrow>
        prefix (rv_rows V s) (rv_rows V s') \<and> (q = Inr () \<longrightarrow> prefix (rv_rows V s @ [r]) (rv_rows V s')))"

definition registry_lawful :: "('s, 'j) registry_view \<Rightarrow> bool" where
  "registry_lawful V \<longleftrightarrow> reads_lawful V \<and> transaction_lawful V"

lemma prefix_map: "prefix xs ys \<Longrightarrow> prefix (map f xs) (map f ys)"
  by (auto elim!: prefixE)

lemma prefix_issued: "prefix (rv_rows V s) (rv_rows V s') \<Longrightarrow> prefix (view_issued V s) (view_issued V s')"
  by (simp add: view_issued_def prefix_map)

lemma of_i64_strict: "0 < i \<Longrightarrow> i < j \<Longrightarrow> j \<le> i64_max \<Longrightarrow> of_i64 i < of_i64 j"
  by (simp add: of_i64_def i64_max_def word_less_def uint_word_of_int)

lemma rows_lawful_issued:
  assumes "rows_lawful rows"
  shows "sorted_wrt (<) (map fst (map row_generation rows))"
proof -
  have "sorted_wrt (\<lambda>a b. fst a < fst b) rows" using assms by (simp add: rows_lawful_def sorted_wrt_map)
  then have "sorted_wrt (\<lambda>a b. of_i64 (fst a) < of_i64 (fst b)) rows"
    by (rule sorted_wrt_mono_rel [rotated])
      (use assms in \<open>auto simp: rows_lawful_def list_all_iff intro!: of_i64_strict\<close>)
  then show ?thesis by (simp add: sorted_wrt_map row_generation_def)
qed

lemma or_rollback_cases:
  assumes "or_rollback d p f = (s', r)"
  obtains (err) s1 e where "p = (s1, Inl e)" "s' = d s1" "r = Inl e"
    | (ok) s1 a where "p = (s1, Inr a)" "f s1 a = (s', r)"
  using assms by (cases p; cases "snd p") (auto simp: or_rollback_def)

lemma pg_systems_keep:
  assumes "registry_lawful V" "pg_systems rd dbg (rv_client V) s = (s', r)"
  shows "prefix (view_issued V s) (view_issued V s')"
proof -
  obtain t1 q1 where q1: "rc_systems (rv_client V) s = (t1, q1)" by fastforce
  obtain t2 q2 where q2: "rc_routes (rv_client V) t1 = (t2, q2)" by fastforce
  have "prefix (rv_rows V s) (rv_rows V (fst (rc_systems (rv_client V) s)))"
    "prefix (rv_rows V t1) (rv_rows V (fst (rc_routes (rv_client V) t1)))"
    using assms(1) by (simp_all add: registry_lawful_def reads_lawful_def)
  then have "prefix (rv_rows V s) (rv_rows V t1)" "prefix (rv_rows V t1) (rv_rows V t2)"
    by (simp_all add: q1 q2)
  moreover have "s' = t1 \<or> s' = t2"
    using assms(2) q1 q2 by (cases q1; cases q2) (auto simp: pg_systems_def)
  ultimately show ?thesis using prefix_issued [of V s s'] prefix_order.trans by blast
qed

lemma pg_keys_keep:
  assumes "registry_lawful V" "pg_keys (rv_client V) s = (s', r)"
  shows "prefix (view_issued V s) (view_issued V s')"
proof -
  obtain t q where q: "rc_keys (rv_client V) s = (t, q)" by fastforce
  have "prefix (rv_rows V s) (rv_rows V (fst (rc_keys (rv_client V) s)))"
    using assms(1) by (simp add: registry_lawful_def reads_lawful_def)
  moreover have "s' = t" using assms(2) q by (cases q) (auto simp: pg_keys_def)
  ultimately show ?thesis using prefix_issued [of V s s'] q by simp
qed

lemma pg_published_law:
  assumes "registry_lawful V" "pg_published (rv_client V) s = (s', p)"
  shows "prefix (view_issued V s) (view_issued V s') \<and>
    (\<forall>q. p = Inr q \<longrightarrow> q = (if view_issued V s' = [] then None else Some (last (view_issued V s'))))"
proof -
  obtain s1 q where q: "rc_latest (rv_client V) s = (s1, q)" by fastforce
  have s1: "s' = s1" using assms(2) q by (cases q) (auto simp: pg_published_def)
  have law: "prefix (rv_rows V s) (rv_rows V s')"
    "\<And>r. q = Inr r \<Longrightarrow> r = (if rv_rows V s' = [] then None else Some (last (rv_rows V s')))"
    using assms(1) q unfolding s1 registry_lawful_def reads_lawful_def by blast+
  show ?thesis
  proof (intro conjI allI impI)
    show "prefix (view_issued V s) (view_issued V s')" by (rule prefix_issued [OF law(1)])
    fix l assume "p = Inr l"
    then show "l = (if view_issued V s' = [] then None else Some (last (view_issued V s')))"
      using assms(2) q law(2)
      by (cases q) (auto simp: pg_published_def view_issued_def row_generation_def pg_hash32_def last_map
          and_then_eq_Inr split: option.splits if_splits)
  qed
qed

lemma pg_allocate_law:
  assumes "registry_lawful V" "pg_allocate_generation (rv_client V) s h = (s', a)"
  shows "prefix (view_issued V s) (view_issued V s') \<and>
    (\<forall>g. a = Inr g \<longrightarrow> (\<exists>others. prefix (view_issued V s @ others @ [(g, h)]) (view_issued V s')))"
proof -
  let ?C = "rv_client V" and ?R = "rv_rows V"
  obtain s1 q1 where q1: "rc_begin ?C s = (s1, q1)" by fastforce
  obtain s2 q2 where q2: "rc_lock ?C s1 GENERATION_LOCK = (s2, q2)" by fastforce
  obtain s3 q3 where q3: "rc_next ?C s2 = (s3, q3)" by fastforce
  have tx: "transaction_lawful V" using assms(1) by (simp add: registry_lawful_def)
  then have r1: "prefix (?R s) (?R s1)" using q1 unfolding transaction_lawful_def by (metis fst_conv)
  have rb: "prefix (?R t) (?R (rc_rollback ?C t))" for t using tx unfolding transaction_lawful_def by blast
  have r2: "prefix (?R s1) (?R s2)" "q2 = Inr () \<Longrightarrow> rv_locked V s2"
    using tx q2 unfolding transaction_lawful_def by blast+
  have r3: "rv_locked V s2 \<Longrightarrow> prefix (?R s2) (?R s3)"
    "rv_locked V s2 \<Longrightarrow> q3 = Inr n \<Longrightarrow> ?R s3 = ?R s2 \<and> rv_locked V s3" for n
    using tx q3 unfolding transaction_lawful_def by blast+
  have failed: ?thesis if "prefix (?R s) (?R s')" "\<exists>e. a = Inl e"
    using that prefix_issued by auto
  consider (begin_fails) e where "q1 = Inl e" | (lock_fails) e where "q1 = Inr ()" "q2 = Inl e"
    | (next_fails) e where "q1 = Inr ()" "q2 = Inr ()" "q3 = Inl e"
    | (numbered) n where "q1 = Inr ()" "q2 = Inr ()" "q3 = Inr n"
    by (cases q1; cases q2; cases q3) auto
  then show ?thesis
  proof cases
    case begin_fails
    then show ?thesis using assms(2) q1 r1 by (intro failed) (auto simp: pg_allocate_generation_def)
  next
    case lock_fails
    then have "s' = rc_rollback ?C s2" "\<exists>e. a = Inl e"
      using assms(2) q1 q2 by (auto simp: pg_allocate_generation_def or_rollback_def)
    then show ?thesis using r1 r2(1) rb [of s2] prefix_order.trans by (intro failed) blast+
  next
    case next_fails
    then have "s' = rc_rollback ?C s3" "\<exists>e. a = Inl e"
      using assms(2) q1 q2 q3 by (auto simp: pg_allocate_generation_def or_rollback_def)
    then show ?thesis
      using r1 r2 r3(1) rb [of s3] next_fails(2) prefix_order.trans by (intro failed) blast+
  next
    case numbered
    have locked: "rv_locked V s2" using r2(2) numbered(2) by simp
    have r3': "?R s3 = ?R s2" "rv_locked V s3" using r3(2) [OF locked numbered(3)] by simp_all
    obtain s4 q4 where q4: "rc_insert ?C s3 n (as_bytes h) = (s4, q4)" by fastforce
    obtain s5 q5 where q5: "rc_commit ?C s4 = (s5, q5)" by fastforce
    have r4: "prefix (?R s3) (?R s4)"
      "q4 = Inr () \<Longrightarrow> ?R s4 = ?R s3 \<and> rv_locked V s4 \<and> rv_pending V s4 = Some (n, as_bytes h)"
      using tx q4 r3'(2) unfolding transaction_lawful_def by blast+
    have upto3: "prefix (?R s) (?R s3)" using r1 r2(1) r3'(1) prefix_order.trans by metis
    show ?thesis
    proof (cases q4)
      case (Inl e)
      then have "s' = rc_rollback ?C s4" "\<exists>e. a = Inl e"
        using assms(2) q1 q2 q3 q4 numbered by (auto simp: pg_allocate_generation_def or_rollback_def)
      then show ?thesis using upto3 r4(1) rb [of s4] prefix_order.trans by (intro failed) blast+
    next
      case (Inr u)
      then have st4: "?R s4 = ?R s3" "rv_locked V s4" "rv_pending V s4 = Some (n, as_bytes h)"
        using r4(2) by simp_all
      have s': "s' = s5" and a: "a = (case q5 of Inl e \<Rightarrow> Inl (Db e) | Inr _ \<Rightarrow> Inr (of_i64 n))"
        using assms(2) q1 q2 q3 q4 q5 numbered Inr
        by (cases q5; simp add: pg_allocate_generation_def or_rollback_def)+
      have r5: "prefix (?R s4) (?R s5)" "q5 = Inr () \<Longrightarrow> prefix (?R s4 @ [(n, as_bytes h)]) (?R s5)"
        using tx q5 st4(2,3) unfolding transaction_lawful_def by blast+
      show ?thesis
      proof (cases q5)
        case (Inl e)
        then show ?thesis using upto3 r5(1) st4(1) s' a by (intro failed) (auto intro: prefix_order.trans)
      next
        case (Inr u')
        obtain others where o': "?R s3 = ?R s @ others" using upto3 by (auto elim: prefixE)
        have "prefix (?R s @ others @ [(n, as_bytes h)]) (?R s')"
          using r5(2) Inr st4(1) s' o' by simp
        from prefix_map [OF this, of row_generation]
        have new: "prefix (view_issued V s @ map row_generation others @ [(of_i64 n, h)]) (view_issued V s')"
          by (simp add: view_issued_def row_generation_def)
        then show ?thesis using Inr a append_prefixD by (metis old.sum.simps(6) sum.inject(2))
      qed
    qed
  qed
qed

interpretation pg_log: generation_log registry_lawful view_registry view_issued
proof unfold_locales
  fix V :: "('s, 'j) registry_view" and s s' :: 's
  assume V: "registry_lawful V"
  show "sorted_wrt (<) (map fst (view_issued V s))"
    using V rows_lawful_issued unfolding view_issued_def registry_lawful_def reads_lawful_def by blast
  show "rg_systems (view_registry V) s = (s', r) \<Longrightarrow> prefix (view_issued V s) (view_issued V s')" for r
    using pg_systems_keep [OF V] by (simp add: view_registry_def pg_registry_def)
  show "rg_keys (view_registry V) s = (s', r) \<Longrightarrow> prefix (view_issued V s) (view_issued V s')" for r
    using pg_keys_keep [OF V] by (simp add: view_registry_def pg_registry_def)
  show "rg_published (view_registry V) s = (s', p) \<Longrightarrow> prefix (view_issued V s) (view_issued V s')" for p
    using pg_published_law [OF V] by (simp add: view_registry_def pg_registry_def)
  show "rg_published (view_registry V) s = (s', Inr q) \<Longrightarrow>
      q = (if view_issued V s' = [] then None else Some (last (view_issued V s')))" for q
    using pg_published_law [OF V] unfolding view_registry_def pg_registry_def registry.simps by blast
  show "rg_allocate_generation (view_registry V) s h = (s', a) \<Longrightarrow>
      prefix (view_issued V s) (view_issued V s')" for h a
    using pg_allocate_law [OF V] by (simp add: view_registry_def pg_registry_def)
  show "rg_allocate_generation (view_registry V) s h = (s', Inr g) \<Longrightarrow>
      \<exists>others. prefix (view_issued V s @ others @ [(g, h)]) (view_issued V s')" for h g
    using pg_allocate_law [OF V] unfolding view_registry_def pg_registry_def registry.simps by blast
qed

section \<open>Reading the tables\<close>

definition readable_route :: "('j \<Rightarrow> (matcher, string) result) \<Rightarrow> 'j route_row \<Rightarrow> bool" where
  "readable_route rd r \<longleftrightarrow> (\<exists>m. rd (wr_matcher r) = Inr m) \<and> length (wr_prompt_hash r) = 32"

definition read_route :: "('j \<Rightarrow> (matcher, string) result) \<Rightarrow> 'j route_row \<Rightarrow> route_spec" where
  "read_route rd r =
     \<lparr>ro_matcher = (case rd (wr_matcher r) of Inr m \<Rightarrow> m | Inl _ \<Rightarrow> Any), ro_model_id = wr_model_id r,
      ro_model_version = wr_model_version r, ro_prompt_id = wr_prompt_id r,
      ro_prompt_version = wr_prompt_version r, ro_prompt_hash = from_bytes (wr_prompt_hash r)\<rparr>"

definition routes_for :: "('j \<Rightarrow> (matcher, string) result) \<Rightarrow> 'j route_row list \<Rightarrow> string \<Rightarrow> route_spec list" where
  "routes_for rd rows i = map (read_route rd) (filter (\<lambda>r. wr_system_id r = i) rows)"

lemma route_of_row_eq:
  "route_of_row rd r = Inr route \<longleftrightarrow> readable_route rd r \<and> route = read_route rd r"
  by (auto simp: route_of_row_def readable_route_def read_route_def and_then_eq_Inr pg_hash32_def)

definition mapped_routes :: "(string \<rightharpoonup> route_spec list) \<Rightarrow> string \<Rightarrow> route_spec list" where
  "mapped_routes m i = (case m i of None \<Rightarrow> [] | Some rs \<Rightarrow> rs)"

lemma mapped_push_route [simp]:
  "mapped_routes (push_route m j r) i = mapped_routes m i @ (if i = j then [r] else [])"
  by (auto simp: mapped_routes_def push_route_def)

lemma mapped_forget [simp]:
  "mapped_routes (m(j := None)) i = (if i = j then [] else mapped_routes m i)"
  by (simp add: mapped_routes_def)

lemma mapped_empty [simp]: "mapped_routes Map.empty i = []"
  by (simp add: mapped_routes_def)

lemma collect_routes_some:
  "collect_routes rd m rows = Inr m' \<Longrightarrow> list_all (readable_route rd) rows \<and>
    (\<forall>i. mapped_routes m' i = mapped_routes m i @ routes_for rd rows i)"
  by (induction rows arbitrary: m) (auto simp: and_then_eq_Inr route_of_row_eq routes_for_def)

lemma collect_routes_total:
  "list_all (readable_route rd) rows \<Longrightarrow> \<exists>m'. collect_routes rd m rows = Inr m'"
proof (induction rows arbitrary: m)
  case (Cons r rows)
  then have "route_of_row rd r = Inr (read_route rd r)" by (simp add: route_of_row_eq)
  then show ?case using Cons by simp
qed simp

definition read_system :: "risk_class \<Rightarrow> route_spec list \<Rightarrow> system_row \<Rightarrow> system_config_spec" where
  "read_system risk routes s =
     \<lparr>sy_system_id = ws_system_id s, sy_system_version = ws_system_version s,
      sy_ifu_version = ws_ifu_version s, sy_risk_class = risk, sy_policy_id = ws_policy_id s,
      sy_policy_version = ws_policy_version s, sy_routes = routes,
      sy_default_route = default_route_of (ws_default_route s)\<rparr>"

lemma system_of_row_eq:
  "system_of_row dbg m s = Inr sys \<longleftrightarrow> (\<exists>risk. risk_class_from_wire (ws_risk_class s) = Some risk \<and>
    sys = read_system risk (mapped_routes m (ws_system_id s)) s)"
  by (auto simp: system_of_row_def and_then_eq_Inr read_system_def mapped_routes_def)

lemma collect_systems_eq:
  "distinct (map ws_system_id rows) \<Longrightarrow> collect_systems dbg m rows = Inr out \<longleftrightarrow>
    list_all2 (\<lambda>s sys. \<exists>risk. risk_class_from_wire (ws_risk_class s) = Some risk \<and>
      sys = read_system risk (mapped_routes m (ws_system_id s)) s) rows out"
proof (induction rows arbitrary: m out)
  case (Cons s rows)
  let ?m = "m(ws_system_id s := None)"
  have neq: "z \<in> set rows \<Longrightarrow> ws_system_id z \<noteq> ws_system_id s" for z
    using Cons.prems by (metis distinct.simps(2) imageI list.set_map list.simps(9))
  let ?R = "\<lambda>m s sys. \<exists>risk. risk_class_from_wire (ws_risk_class s) = Some risk \<and>
      sys = read_system risk (mapped_routes m (ws_system_id s)) s"
  have "list_all2 (?R ?m) rows ys \<longleftrightarrow> list_all2 (?R m) rows ys" for ys
    using neq by (intro list.rel_cong refl) (simp add: simp_implies_def)
  then have "collect_systems dbg ?m rows = Inr ys \<longleftrightarrow> list_all2 (?R m) rows ys" for ys
    using Cons.IH [of ?m ys] Cons.prems by (simp del: fun_upd_apply)
  then show ?case
    by (cases out) (auto simp: and_then_eq_Inr system_of_row_eq simp del: fun_upd_apply)
qed auto

section \<open>A concrete registry for examples\<close>

text \<open>The rows are the content hashes allocated so far; a transaction notes what it inserts.\<close>

type_synonym demo_log = "hash32 list \<times> bool \<times> (i64 \<times> u8 list) option"

definition demo_rows :: "hash32 list \<Rightarrow> (i64 \<times> u8 list) list" where
  "demo_rows hs = map (\<lambda>(i, h). (int i, as_bytes h)) (enumerate 1 (take (nat i64_max) hs))"

definition demo_next :: "hash32 list \<Rightarrow> i64" where
  "demo_next hs = int (length hs) + 1"

definition demo_route_row :: "matcher route_row" where
  "demo_route_row =
     \<lparr>wr_system_id = ''a'', wr_matcher = Any, wr_model_id = ''m'', wr_model_version = ''v'',
      wr_prompt_id = ''q'', wr_prompt_version = ''w'', wr_prompt_hash = as_bytes GENESIS\<rparr>"

definition demo_registry_client :: "(demo_log, matcher) registry_client" where
  "demo_registry_client =
     \<lparr>rc_systems = (\<lambda>s. (s, Ok [\<lparr>ws_system_id = ''a'', ws_system_version = ''1'', ws_ifu_version = ''1'',
        ws_risk_class = ''high'', ws_policy_id = ''p'', ws_policy_version = ''none'', ws_default_route = 0\<rparr>])),
      rc_routes = (\<lambda>s. (s, Ok [demo_route_row])),
      rc_keys = (\<lambda>s. (s, Ok [\<lparr>wk_key_hash = as_bytes GENESIS, wk_tenant_id = ''t'', wk_system_id = ''a''\<rparr>])),
      rc_prompt = (\<lambda>s h. (s, Ok None)),
      rc_latest = (\<lambda>s. (s, Ok (if demo_rows (fst s) = [] then None else Some (last (demo_rows (fst s)))))),
      rc_begin = (\<lambda>s. (s, Ok ())),
      rc_lock = (\<lambda>s l. ((fst s, True, None), Ok ())),
      rc_next = (\<lambda>s. (s, if demo_next (fst s) \<le> i64_max then Ok (demo_next (fst s))
        else Err ''bigint out of range'')),
      rc_insert = (\<lambda>s n h. if n = demo_next (fst s) \<and> n \<le> i64_max \<and> length h = 32
        then ((fst s, fst (snd s), Some (n, h)), Ok ()) else (s, Err ''constraint'')),
      rc_commit = (\<lambda>s. case snd (snd s) of None \<Rightarrow> (s, Ok ())
        | Some (n, h) \<Rightarrow> if n = demo_next (fst s) \<and> n \<le> i64_max \<and> length h = 32
            then ((fst s @ [from_bytes h], False, None), Ok ()) else (s, Err ''conflict'')),
      rc_rollback = (\<lambda>s. (fst s, False, None))\<rparr>"

definition demo_view :: "(demo_log, matcher) registry_view" where
  "demo_view = \<lparr>rv_client = demo_registry_client, rv_hash = mini_hash, rv_read = Inr, rv_dbg = (\<lambda>s. s),
     rv_rows = (\<lambda>s. demo_rows (fst s)), rv_locked = (\<lambda>s. fst (snd s)), rv_pending = (\<lambda>s. snd (snd s))\<rparr>"

lemma demo_rows_snoc [simp]:
  assumes "demo_next hs \<le> i64_max"
  shows "demo_rows (hs @ [h]) = demo_rows hs @ [(demo_next hs, as_bytes h)]"
proof -
  have "length hs < nat i64_max" using assms by (simp add: demo_next_def)
  then show ?thesis by (simp add: demo_rows_def demo_next_def enumerate_append_eq)
qed

lemma demo_rows_lawful: "rows_lawful (demo_rows hs)"
proof -
  let ?hs = "take (nat i64_max) hs"
  have "map fst (demo_rows hs) = map int (map fst (enumerate 1 ?hs))"
    by (simp add: demo_rows_def case_prod_unfold comp_def del: map_fst_enumerate)
  then have "sorted_wrt (<) (map fst (demo_rows hs))" by (simp add: sorted_wrt_map del: upt_Suc)
  moreover have "0 < g \<and> g \<le> i64_max \<and> length h = 32" if "(g, h) \<in> set (demo_rows hs)" for g h
    using that by (auto simp: demo_rows_def in_set_enumerate_eq i64_max_def)
  ultimately show ?thesis by (auto simp: rows_lawful_def list_all_iff)
qed

lemma demo_next_rows:
  assumes "demo_next hs \<le> i64_max"
  shows "demo_next hs = (if demo_rows hs = [] then 0 else fst (last (demo_rows hs))) + 1"
proof (cases hs rule: rev_cases)
  case (snoc gs h)
  then have "demo_next gs \<le> i64_max" using assms by (simp add: demo_next_def)
  then show ?thesis using snoc by (simp add: demo_next_def)
qed (simp add: demo_rows_def demo_next_def)

lemma demo_first: "demo_next hs \<le> i64_max \<Longrightarrow> demo_rows hs = [] \<Longrightarrow> demo_next hs = 1"
  and demo_after: "demo_next hs \<le> i64_max \<Longrightarrow> demo_rows hs \<noteq> [] \<Longrightarrow>
    demo_next hs = fst (last (demo_rows hs)) + 1"
  using demo_next_rows [of hs] by simp_all

lemma demo_registry_lawful: "registry_lawful demo_view"
  unfolding registry_lawful_def
proof
  show "reads_lawful demo_view"
    by (auto simp: reads_lawful_def demo_view_def demo_registry_client_def demo_rows_lawful)
  show "transaction_lawful demo_view"
    unfolding transaction_lawful_def
    by (auto simp: demo_view_def demo_registry_client_def as_bytes_from_bytes intro: demo_first demo_after
        split: option.splits if_splits)
qed

definition demo_bus :: "demo_log snapshot_bus" where
  "demo_bus s e = (s, Err (ControlBus ''no connection''))"

definition demo_builder :: "demo_log snapshot_builder" where
  "demo_builder = \<lparr>sb_registry = view_registry demo_view, sb_bus = demo_bus, sb_gateway_version = ''g''\<rparr>"

lemma demo_builder_registry: "sb_registry demo_builder = view_registry demo_view"
  by (simp add: demo_builder_def)

lemma demo_systems: "rg_systems (view_registry demo_view) s = (s, Ok [demo_system ''m''])"
proof -
  have "risk_class_from_wire ''high'' = Some High" using risk_class_wire.read_written [of High] by simp
  then show ?thesis
    by (simp add: view_registry_def pg_registry_def pg_systems_def demo_view_def demo_registry_client_def
      demo_route_row_def route_of_row_def push_route_def pg_hash32_def system_of_row_def demo_system_def
      default_route_of_def)
qed

lemma demo_keys: "rg_keys (view_registry demo_view) s =
    (s, Ok [\<lparr>kb_key_hash = GENESIS, kb_tenant_id = ''t'', kb_system_id = ''a''\<rparr>])"
  by (simp add: view_registry_def pg_registry_def pg_keys_def demo_view_def demo_registry_client_def
    key_of_row_def pg_hash32_def)

lemma demo_order: "canonicalize_order (demo_spec 0) = demo_spec 0"
  by (simp add: canonicalize_order_def demo_spec_def)

lemma demo_build: "builder_build (demo_prims []) t demo_builder s = (s, Ok (demo_spec 0))"
  using demo_builds [of t 0] demo_order
  by (simp add: builder_build_def demo_builder_def demo_systems demo_keys demo_spec_def)

lemma demo_prepare:
  obtains h where "spec_hash (demo_prims []) (demo_spec 0) = Ok h"
    "prepare (demo_prims []) t demo_builder ([], x) =
      (([h], False, None), Ok (Inr (envelope_seal (demo_spec 1) h)))"
proof -
  obtain h where h: "spec_hash (demo_prims []) (demo_spec 0) = Ok h" using demo_spec_hashes by blast
  have "demo_next [] \<le> i64_max" "demo_rows [] = []" "of_i64 (demo_next []) = 1"
    by (simp_all add: demo_next_def demo_rows_def i64_max_def of_i64_def)
  then have "prepare (demo_prims []) t demo_builder ([], x) =
      (([h], False, None), Ok (Inr (envelope_seal (demo_spec 1) h)))"
    using h demo_build [of t "([], x)"]
    by (simp add: prepare_def builder_content_hash_eq [THEN iffD2] demo_builder_def view_registry_def
        pg_registry_def pg_published_def pg_allocate_generation_def or_rollback_def demo_view_def
        demo_registry_client_def Let_def demo_spec_def)
  then show ?thesis using that h by blast
qed

section \<open>Properties\<close>

text \<open>
  C12. What \<open>publish\<close> does, whatever other replicas do meanwhile. It builds the contents of the
  registry, hashes them and reads the log of generations. Either the newest generation of the log
  has just that hash: then it answers \<open>Unchanged\<close> with that generation and does nothing after that
  read, so it allocates nothing. Or the contents are new: then it hands the bus those contents under
  a generation that is above every one the log held, now recorded with their hash, in an envelope
  every node can install, at any time, under that generation and hash.
\<close>

theorem publish_sound:
  assumes "registry_lawful V" "sb_registry b = view_registry V" "prepare P now b s = (s', Ok r)"
  shows "\<exists>spec s1 s2 h. builder_build P now b s = (s1, Ok spec) \<and> spec_hash P spec = Ok h \<and>
    (\<exists>p. rg_published (sb_registry b) s1 = (s2, Ok p)) \<and>
    prefix (view_issued V s) (view_issued V s2) \<and> prefix (view_issued V s2) (view_issued V s') \<and>
    (case r of
       Inl p \<Rightarrow> s' = s2 \<and> (\<exists>g. p = Unchanged g \<and> view_issued V s2 \<noteq> [] \<and> last (view_issued V s2) = (g, h))
     | Inr e \<Rightarrow> env_spec e = spec\<lparr>ss_generation := env_generation e\<rparr> \<and> env_content_hash e = h \<and>
         (view_issued V s2 = [] \<or> snd (last (view_issued V s2)) \<noteq> h) \<and>
         (env_generation e, h) \<in> set (view_issued V s') \<and>
         (\<forall>x \<in> set (view_issued V s2). fst x < env_generation e) \<and>
         (\<forall>t. \<exists>snap. install P t e = Ok snap \<and> cfg_generation snap = env_generation e \<and>
            cfg_content_hash snap = h))"
  by (rule pg_log.prepare_sound [OF assms])

theorem publish_sound_witness:
  "\<exists>s' e. prepare (demo_prims []) 0 demo_builder ([], False, None) = (s', Ok (Inr e)) \<and>
    (\<exists>snap. install (demo_prims []) 7 e = Ok snap)"
proof -
  obtain s' e where p: "prepare (demo_prims []) 0 demo_builder ([], False, None) = (s', Ok (Inr e))"
    using demo_prepare [of 0 "(False, None)"] by blast
  have "\<exists>snap. install (demo_prims []) 7 e = Ok snap"
    using publish_sound [OF demo_registry_lawful demo_builder_registry p] by auto
  then show ?thesis using p by blast
qed

text \<open>What a control plane hands out of a registry: to the bus, and to a poll.\<close>

definition hands_out ::
    "canon_prims \<Rightarrow> ('s, 'j) registry_view \<Rightarrow> snapshot_envelope \<Rightarrow> 's \<Rightarrow> bool" where
  "hands_out P V e s' \<longleftrightarrow> (\<exists>b now s. sb_registry b = view_registry V \<and>
     (prepare P now b s = (s', Inr (Inr e)) \<or> builder_current P now b s = (s', Inr e)))"

lemma hands_out_logged:
  assumes "registry_lawful V" "hands_out P V e s'"
  shows "(env_generation e, env_content_hash e) \<in> set (view_issued V s') \<and>
    (\<exists>snap. install P 0 e = Inr snap)"
proof -
  obtain b now s where b: "sb_registry b = view_registry V"
    and out: "prepare P now b s = (s', Inr (Inr e)) \<or> builder_current P now b s = (s', Inr e)"
    using assms(2) unfolding hands_out_def by blast
  show ?thesis
    using out
  proof
    assume "prepare P now b s = (s', Inr (Inr e))"
    from pg_log.prepare_sound [OF assms(1) b this] show ?thesis by auto
  next
    assume "builder_current P now b s = (s', Inr e)"
    from pg_log.current_sound [OF assms(1) b this] show ?thesis using last_in_set by metis
  qed
qed

text \<open>
  C24. A generation names one content, for good: any two envelopes that control planes on one
  registry ever hand out, by bus or by poll, by whichever replica and whenever, hold the same
  contents where they carry the same generation (if the writer keeps the contents apart and the
  hash does not collide on them).
\<close>

theorem generation_names_one_content:
  assumes "registry_lawful V" "hands_out P V e s" "hands_out P V e' s'"
    and "prefix (view_issued V s) (view_issued V t)" "prefix (view_issued V s') (view_issued V t)"
    and "env_generation e = env_generation e'"
    and "written_apart P snapshot_content_value [content_view (env_spec e), content_view (env_spec e')]"
    and "\<And>x y. encode P snapshot_content_value (content_view (env_spec e)) = Ok x \<Longrightarrow>
      encode P snapshot_content_value (content_view (env_spec e')) = Ok y \<Longrightarrow> collision_free (digest P) [x, y]"
  shows "env_content_hash e = env_content_hash e' \<and> env_spec e = env_spec e'"
proof -
  let ?g = "env_generation e"
  note out = hands_out_logged [OF assms(1,2)] hands_out_logged [OF assms(1,3)]
  have "(?g, env_content_hash e) \<in> set (view_issued V t)" "(?g, env_content_hash e') \<in> set (view_issued V t)"
    using out assms(4-6) set_mono_prefix by fastforce+
  then have h: "env_content_hash e = env_content_hash e'"
    using pg_log.one_hash_each [OF assms(1)] by blast
  have v: "ss_generation (env_spec e) = ss_generation (env_spec e')"
    "spec_hash P (env_spec e) = Inr (env_content_hash e)" "spec_hash P (env_spec e') = Inr (env_content_hash e)"
    using out h assms(6) by (auto simp: install_eq_Inr envelope_verify_eq_Inr)
  obtain x y where xy: "encode P snapshot_content_value (content_view (env_spec e)) = Inr x"
      "encode P snapshot_content_value (content_view (env_spec e')) = Inr y" "digest P x = digest P y"
    using v(2,3) unfolding spec_hash_eq_Inr by metis
  have "content_view (env_spec e) = content_view (env_spec e')"
    by (rule spec_hash_binds [OF xy(1,2) assms(7) assms(8) [OF xy(1,2)] xy(3)])
  then show ?thesis using h v(1) unfolding content_view_eq_iff by simp
qed

theorem generation_names_one_content_witness:
  "\<exists>s e. hands_out (demo_prims []) demo_view e s \<and> env_generation e = 1"
proof -
  obtain h where p: "prepare (demo_prims []) 0 demo_builder ([], False, None) =
      (([h], False, None), Ok (Inr (envelope_seal (demo_spec 1) h)))"
    using demo_prepare [of 0 "(False, None)"] by blast
  let ?e = "envelope_seal (demo_spec 1) h" and ?s = "([h], False, None)"
  have out: "hands_out (demo_prims []) demo_view ?e ?s"
    unfolding hands_out_def using p demo_builder_registry by blast
  have "env_content_hash ?e = env_content_hash ?e \<and> env_spec ?e = env_spec ?e"
    by (rule generation_names_one_content [OF demo_registry_lawful out out, where t = ?s])
      (simp_all add: written_apart_def collision_free_def)
  then show ?thesis using out by (intro exI [of _ ?s] exI [of _ ?e]) (simp add: envelope_seal_def demo_spec_def)
qed

text \<open>
  C34. A publication that does not reach the bus is not lost: as long as the registry's content does
  not change and no later generation is allocated, what was allocated for the failed send is what
  every poll is served, the same envelope; and publishing again answers \<open>Unchanged\<close> with its
  generation (so that answer does not say that the bus carries it).
\<close>

theorem failed_send_still_served:
  assumes "registry_lawful V" "sb_registry b = view_registry V"
    and "\<And>t. rg_systems (view_registry V) t = (t, Ok systems)" "\<And>t. rg_keys (view_registry V) t = (t, Ok keys)"
    and "prepare P now b s = (s', Ok (Inr e))"
    and "prefix (view_issued V s') (view_issued V t)"
    and "rg_published (view_registry V) t = (t', Ok p)" "fst (last (view_issued V t')) = env_generation e"
  shows "builder_current P now' b t = (t', Ok e) \<and>
    prepare P now' b t = (t', Ok (Inl (Unchanged (env_generation e))))"
proof -
  let ?spec = "canonicalize_order
    \<lparr>ss_generation = 0, ss_gateway_version = sb_gateway_version b, ss_systems = systems, ss_keys = keys\<rparr>"
  have built: "builder_build P n b u = (u, and_then (map_err (\<lambda>e. ControlInvalid (snapshot_error_to_string e))
      (build P n ?spec)) (\<lambda>_. Ok ?spec))" for n u
    by (simp add: builder_build_def assms(2-4) Let_def)
  obtain h g where h: "spec_hash P ?spec = Inr h" "spec_ok ?spec"
      and e: "e = envelope_seal (?spec\<lparr>ss_generation := g\<rparr>) h"
  proof -
    obtain spec h g where sp: "builder_build P now b s = (s, Inr spec)" "spec_hash P spec = Inr h"
        "e = envelope_seal (spec\<lparr>ss_generation := g\<rparr>) h"
      using assms(5) unfolding prepare_def built
      by (elim then_do_cases) (auto simp: Let_def builder_content_hash_eq elim!: then_do_cases
          split: option.splits if_splits)
    moreover have "spec = ?spec" using sp(1) by (auto simp: built and_then_eq_Inr)
    ultimately show ?thesis using that builder_build_ok [OF sp(1)] by blast
  qed
  have again: "builder_build P now' b t = (t, Inr ?spec)" "builder_content_hash P ?spec = Inr h"
  proof -
    obtain snap where "build P now' ?spec = Inr snap" using h by (auto simp: build_eq_Inr)
    then show "builder_build P now' b t = (t, Inr ?spec)" by (simp add: built)
  qed (simp add: h builder_content_hash_eq)
  have log: "(env_generation e, h) \<in> set (view_issued V t')"
  proof -
    have "(env_generation e, h) \<in> set (view_issued V s')"
      using hands_out_logged [OF assms(1), of P e s'] assms(2,5) e unfolding hands_out_def
      by (auto simp: envelope_seal_def)
    then show ?thesis
      using assms(6) pg_log.published_keep [OF assms(1,7)] by (meson set_mono_prefix subsetD)
  qed
  then have ne: "view_issued V t' \<noteq> []" by auto
  then have "(env_generation e, snd (last (view_issued V t'))) \<in> set (view_issued V t')"
    using assms(8) by (metis last_in_set prod.collapse)
  then have "snd (last (view_issued V t')) = h" using pg_log.one_hash_each [OF assms(1) log] by simp
  then have p: "p = Some (env_generation e, h)"
    using pg_log.published_read [OF assms(1,7)] ne assms(8) by (metis prod.collapse)
  have "env_generation e = g" using e by (simp add: envelope_seal_def)
  then show ?thesis
    using again p e assms(2,7) by (simp add: builder_current_def prepare_def Let_def)
qed

theorem failed_send_still_served_witness:
  "\<exists>s' e. publish (demo_prims []) 0 demo_builder ([], False, None) = (s', Err (ControlBus ''no connection'')) \<and>
    builder_current (demo_prims []) 0 demo_builder s' = (s', Ok e) \<and>
    publish (demo_prims []) 0 demo_builder s' = (s', Ok (Unchanged (env_generation e)))"
proof -
  obtain h where p: "prepare (demo_prims []) 0 demo_builder ([], False, None) =
      (([h], False, None), Ok (Inr (envelope_seal (demo_spec 1) h)))"
    using demo_prepare [of 0 "(False, None)"] by blast
  let ?s = "([h], False, None)" and ?e = "envelope_seal (demo_spec 1) h"
  have rows: "demo_rows [h] = [(1, as_bytes h)]"
    using demo_rows_snoc [of "[]" h] by (simp add: demo_next_def i64_max_def demo_rows_def)
  have pub: "rg_published (view_registry demo_view) ?s = (?s, Ok (Some (1, h)))"
    by (simp add: view_registry_def pg_registry_def pg_published_def demo_view_def demo_registry_client_def
        rows pg_hash32_def of_i64_def)
  have last: "fst (last (view_issued demo_view ?s)) = env_generation ?e"
    by (simp add: view_issued_def demo_view_def rows row_generation_def of_i64_def envelope_seal_def demo_spec_def)
  have "builder_current (demo_prims []) 0 demo_builder ?s = (?s, Ok ?e) \<and>
      prepare (demo_prims []) 0 demo_builder ?s = (?s, Ok (Inl (Unchanged (env_generation ?e))))"
    by (rule failed_send_still_served [OF demo_registry_lawful demo_builder_registry demo_systems demo_keys p _ pub last])
      simp
  moreover have "publish (demo_prims []) 0 demo_builder ([], False, None) = (?s, Err (ControlBus ''no connection''))"
    using p by (simp add: publish_def) (simp add: demo_builder_def demo_bus_def)
  ultimately show ?thesis by (intro exI [of _ ?s] exI [of _ ?e]) (simp add: publish_def)
qed

text \<open>
  The registry's tables are read exactly: the read succeeds when every matcher and every hash
  reads and every risk class is known, and then each system comes with the routes filed under its
  id, in the order of their positions, and no other; a route of no system is left out.
\<close>

theorem systems_read_exactly:
  assumes "rc_systems C s = (s1, Ok rows)" "rc_routes C s1 = (s2, Ok route_rows)"
    and "distinct (map ws_system_id rows)"
  shows "pg_systems read_matcher dbg C s = (s2, Ok out) \<longleftrightarrow>
    list_all (readable_route read_matcher) route_rows \<and>
    list_all2 (\<lambda>row sys. \<exists>risk. risk_class_from_wire (ws_risk_class row) = Some risk \<and>
      sys = read_system risk (routes_for read_matcher route_rows (ws_system_id row)) row) rows out"
proof -
  have eq: "pg_systems read_matcher dbg C s =
      (s2, and_then (collect_routes read_matcher Map.empty route_rows) (\<lambda>m. collect_systems dbg m rows))"
    by (simp add: pg_systems_def assms(1,2))
  show ?thesis
  proof (cases "list_all (readable_route read_matcher) route_rows")
    case True
    then obtain m where m: "collect_routes read_matcher Map.empty route_rows = Inr m"
      using collect_routes_total by blast
    then have "mapped_routes m i = routes_for read_matcher route_rows i" for i
      using collect_routes_some [OF m] by simp
    then show ?thesis using True by (simp add: eq m collect_systems_eq [OF assms(3)])
  next
    case False
    then show ?thesis using collect_routes_some by (auto simp: eq and_then_eq_Inr)
  qed
qed

theorem systems_read_exactly_witness:
  "\<forall>s. pg_systems Inr (\<lambda>s. s) demo_registry_client s = (s, Ok [demo_system ''m''])"
proof
  fix s
  have "risk_class_from_wire ''high'' = Some High" using risk_class_wire.read_written [of High] by simp
  then show "pg_systems Inr (\<lambda>s. s) demo_registry_client s = (s, Ok [demo_system ''m''])"
    by (subst systems_read_exactly [where rows = "[\<lparr>ws_system_id = ''a'', ws_system_version = ''1'',
          ws_ifu_version = ''1'', ws_risk_class = ''high'', ws_policy_id = ''p'', ws_policy_version = ''none'',
          ws_default_route = 0\<rparr>]" and route_rows = "[demo_route_row]" and ?s1.0 = s])
      (simp_all add: demo_registry_client_def readable_route_def demo_route_row_def read_system_def
        routes_for_def read_route_def demo_system_def default_route_of_def)
qed

text \<open>
  The systems and the keys are read by statements of their own, outside any transaction: where an
  edit lands between them, what is built, and published, holds the systems of before and the keys
  of after, which the registry never held.
\<close>

definition torn_registry :: "bool registry" where
  "torn_registry =
     \<lparr>rg_systems = (\<lambda>edited. (True, Ok [demo_system (if edited then ''n'' else ''m'')])),
      rg_keys = (\<lambda>edited. (edited, Ok [\<lparr>kb_key_hash = GENESIS,
        kb_tenant_id = (if edited then ''u'' else ''t''), kb_system_id = ''a''\<rparr>])),
      rg_prompt = (\<lambda>s h. (s, Ok None)), rg_published = (\<lambda>s. (s, Ok None)),
      rg_allocate_generation = (\<lambda>s h. (s, Ok 1))\<rparr>"

theorem torn_build:
  assumes "build P now \<lparr>ss_generation = 0, ss_gateway_version = v, ss_systems = [demo_system ''m''],
      ss_keys = [\<lparr>kb_key_hash = GENESIS, kb_tenant_id = ''u'', kb_system_id = ''a''\<rparr>]\<rparr> = Ok snap"
  shows "\<exists>spec. builder_build P now \<lparr>sb_registry = torn_registry, sb_bus = bus, sb_gateway_version = v\<rparr> False =
      (True, Ok spec) \<and>
    map (\<lambda>s. ro_model_id (hd (sy_routes s))) (ss_systems spec) = [''m''] \<and>
    map kb_tenant_id (ss_keys spec) = [''u'']"
  using assms
  by (auto simp: builder_build_def torn_registry_def canonicalize_order_def demo_system_def)

end
