(* ===== verification/Keys.thy ===== *)
theory Keys
  imports Pack Publish
begin

text \<open>
  The signing keys of the control plane and their windows: \<open>keys.rs\<close>, and the key table of
  \<open>postgres.rs\<close> (\<open>install_active_key\<close>, \<open>public_keys\<close>).

  \<open>hex\<close> is a crate of its own: its encoder is an argument \<open>enc\<close>. A \<open>timestamptz\<close> is its
  nanoseconds.
\<close>

section \<open>The key ring\<close>

record key_ring =
  kr_active :: checkpoint_signer
  kr_active_from :: timestamp
  kr_retired :: "public_key_record list"

definition key_ring_new :: "checkpoint_signer \<Rightarrow> timestamp \<Rightarrow> key_ring" where
  "key_ring_new active active_from = \<lparr>kr_active = active, kr_active_from = active_from, kr_retired = []\<rparr>"

definition with_retired :: "key_ring \<Rightarrow> public_key_record list \<Rightarrow> key_ring" where
  "with_retired ring retired = ring\<lparr>kr_retired := retired\<rparr>"

definition rotate_key :: "ed25519 \<Rightarrow> (u8 list \<Rightarrow> string) \<Rightarrow> key_ring \<Rightarrow> checkpoint_signer \<Rightarrow> timestamp \<Rightarrow> key_ring" where
  "rotate_key E enc ring new at =
     (let outgoing = \<lparr>pk_key_id = cs_key_id (kr_active ring),
            pk_public_key = enc (verifying_key E (kr_active ring)),
            pk_valid_from = kr_active_from ring, pk_valid_to = Some at\<rparr> in
      ring\<lparr>kr_retired := kr_retired ring @ [outgoing], kr_active := new, kr_active_from := at\<rparr>)"

definition ring_records :: "ed25519 \<Rightarrow> (u8 list \<Rightarrow> string) \<Rightarrow> key_ring \<Rightarrow> public_key_record list" where
  "ring_records E enc ring = kr_retired ring @
     [\<lparr>pk_key_id = cs_key_id (kr_active ring), pk_public_key = enc (verifying_key E (kr_active ring)),
       pk_valid_from = kr_active_from ring, pk_valid_to = None\<rparr>]"

section \<open>The key table\<close>

record signing_key_row =
  sk_key_id :: string
  sk_public_key :: "u8 list"
  sk_valid_from :: int
  sk_valid_to :: "int option"

record 's keys_client =
  kc_begin :: "'s \<Rightarrow> 's \<times> (unit, string) result"
  kc_find :: "'s \<Rightarrow> string \<Rightarrow> 's \<times> ((u8 list \<times> int option) option, string) result"
  kc_close :: "'s \<Rightarrow> int \<Rightarrow> 's \<times> (unit, string) result"
  kc_insert :: "'s \<Rightarrow> string \<Rightarrow> u8 list \<Rightarrow> int \<Rightarrow> 's \<times> (unit, string) result"
  kc_commit :: "'s \<Rightarrow> 's \<times> (unit, string) result"
  kc_rollback :: "'s \<Rightarrow> 's"
  kc_list :: "'s \<Rightarrow> 's \<times> (signing_key_row list, string) result"

definition install_new_key ::
    "'s keys_client \<Rightarrow> 's \<Rightarrow> string \<Rightarrow> u8 list \<Rightarrow> int \<Rightarrow> 's \<times> (unit, control_error) result" where
  "install_new_key C s key_id public_key at =
     or_rollback (kc_rollback C) (do_err Db (kc_close C s at)) (\<lambda>s _.
     or_rollback (kc_rollback C) (do_err Db (kc_insert C s key_id public_key at)) (\<lambda>s _.
       do_err Db (kc_commit C s)))"

definition install_active_key ::
    "range_err \<Rightarrow> 's keys_client \<Rightarrow> 's \<Rightarrow> string \<Rightarrow> u8 list \<Rightarrow> timestamp \<Rightarrow> 's \<times> (unit, control_error) result" where
  "install_active_key range_err C s key_id public_key now =
     then_do (s, to_pg range_err now) (\<lambda>s at.
     then_do (do_err Db (kc_begin C s)) (\<lambda>s _.
     or_rollback (kc_rollback C) (do_err Db (kc_find C s key_id)) (\<lambda>s existing.
       case existing of
         Some (stored, valid_to) \<Rightarrow>
           if stored \<noteq> public_key then
             (kc_rollback C s, Err (ControlInvalid (''key_id '' @ key_id @
               '' is already registered with a different public key; '' @
               ''a key id names a key and may not be reassigned'')))
           else if valid_to \<noteq> None then
             (kc_rollback C s, Err (ControlInvalid (''key_id '' @ key_id @
               '' was retired and cannot be made active again'')))
           else do_err Db (kc_commit C s)
       | None \<Rightarrow> install_new_key C s key_id public_key at)))"

definition record_of_key_row :: "(u8 list \<Rightarrow> string) \<Rightarrow> signing_key_row \<Rightarrow> public_key_record" where
  "record_of_key_row enc r =
     \<lparr>pk_key_id = sk_key_id r, pk_public_key = enc (sk_public_key r),
      pk_valid_from = from_pg (sk_valid_from r), pk_valid_to = map_option from_pg (sk_valid_to r)\<rparr>"

definition pg_public_keys ::
    "(u8 list \<Rightarrow> string) \<Rightarrow> 's keys_client \<Rightarrow> 's \<Rightarrow> 's \<times> (public_key_record list, control_error) result" where
  "pg_public_keys enc C s =
     then_do (do_err Db (kc_list C s)) (\<lambda>s rows. (s, Ok (map (record_of_key_row enc) rows)))"

section \<open>Windows\<close>

text \<open>Each key but the last is closed at the instant the one after it opens; the last is open.\<close>

fun windows :: "public_key_record list \<Rightarrow> bool" where
  "windows [] \<longleftrightarrow> True"
| "windows [k] \<longleftrightarrow> pk_valid_to k = None"
| "windows (k # l # ks) \<longleftrightarrow> pk_valid_to k = Some (pk_valid_from l) \<and> windows (l # ks)"

definition valid_at :: "timestamp \<Rightarrow> public_key_record \<Rightarrow> bool" where
  "valid_at t k \<longleftrightarrow> pk_valid_from k \<le> t \<and> (case pk_valid_to k of None \<Rightarrow> True | Some u \<Rightarrow> t < u)"

definition close_at :: "timestamp \<Rightarrow> public_key_record \<Rightarrow> public_key_record" where
  "close_at at k = (if pk_valid_to k = None then k\<lparr>pk_valid_to := Some at\<rparr> else k)"

lemma windows_close:
  "windows ks \<Longrightarrow> pk_valid_from k = at \<Longrightarrow> pk_valid_to k = None \<Longrightarrow> windows (map (close_at at) ks @ [k])"
proof (induction ks rule: windows.induct)
  case (3 a b ks)
  then show ?case by (cases ks) (simp_all add: close_at_def)
qed (simp_all add: close_at_def)

lemma windows_nth:
  "windows ks \<Longrightarrow> Suc i < length ks \<Longrightarrow> pk_valid_to (ks ! i) = Some (pk_valid_from (ks ! Suc i))"
proof (induction ks arbitrary: i rule: windows.induct)
  case (3 k l ks)
  then show ?case by (cases i) simp_all
qed simp_all

lemma windows_last: "windows ks \<Longrightarrow> ks \<noteq> [] \<Longrightarrow> pk_valid_to (last ks) = None"
  by (induction ks rule: windows.induct) simp_all

lemma valid_at_later:
  assumes "windows (k # ks)" "sorted (map pk_valid_from (k # ks))" "x \<in> set ks" "valid_at t x"
  shows "\<not> valid_at t k"
proof -
  obtain l ls where ks: "ks = l # ls" using assms(3) by (cases ks) auto
  have "pk_valid_from l \<le> pk_valid_from x" using assms(2,3) ks by auto
  then show ?thesis using assms(1,4) ks by (simp add: valid_at_def)
qed

lemma one_key_at:
  "windows ks \<Longrightarrow> sorted (map pk_valid_from ks) \<Longrightarrow> ks \<noteq> [] \<Longrightarrow> pk_valid_from (hd ks) \<le> t \<Longrightarrow>
    \<exists>!k. k \<in> set ks \<and> valid_at t k"
proof (induction ks rule: windows.induct)
  case (2 k)
  then show ?case by (auto simp: valid_at_def)
next
  case (3 k l ks)
  show ?case
  proof (cases "pk_valid_from l \<le> t")
    case True
    then have "\<exists>!x. x \<in> set (l # ks) \<and> valid_at t x" using 3 by simp
    moreover have "\<not> valid_at t k" using True 3 by (simp add: valid_at_def)
    ultimately show ?thesis by auto
  next
    case False
    then have "valid_at t k" using 3 by (simp add: valid_at_def)
    then show ?thesis using valid_at_later [of k "l # ks"] 3 by (metis list.set_intros(1) set_ConsD)
  qed
qed simp

section \<open>The directory of keys\<close>

text \<open>
  What the export of keys promises: every key that was ever installed, with windows that abut.
\<close>

locale key_directory =
  fixes kept :: "'c \<Rightarrow> 's \<Rightarrow> bool"
    and installed :: "'c \<Rightarrow> 's \<Rightarrow> public_key_record list"
    and directory :: "'c \<Rightarrow> 's \<Rightarrow> 's \<times> (public_key_record list, control_error) result"
  assumes windows_kept: "kept c s \<Longrightarrow> windows (installed c s)"
    and directory_read: "kept c s \<Longrightarrow> directory c s = (s', Inr ks) \<Longrightarrow> mset ks = mset (installed c s)"
begin

lemma attributable:
  assumes "kept c s" "directory c s = (s', Inr ks)"
    and "sorted (map pk_valid_from (installed c s))" "installed c s \<noteq> []"
    and "pk_valid_from (hd (installed c s)) \<le> t"
  shows "\<exists>!k. k \<in> set ks \<and> valid_at t k"
  using one_key_at [OF windows_kept [OF assms(1)] assms(3-5)] mset_eq_setD [OF directory_read [OF assms(1,2)]]
  by simp

end

definition ring_kept :: "ed25519 \<times> (u8 list \<Rightarrow> string) \<Rightarrow> key_ring \<Rightarrow> bool" where
  "ring_kept c ring \<longleftrightarrow> windows (ring_records (fst c) (snd c) ring)"

definition ring_directory ::
    "ed25519 \<times> (u8 list \<Rightarrow> string) \<Rightarrow> key_ring \<Rightarrow> key_ring \<times> (public_key_record list, control_error) result" where
  "ring_directory c ring = (ring, Ok (ring_records (fst c) (snd c) ring))"

interpretation ring_dir: key_directory ring_kept "\<lambda>c. ring_records (fst c) (snd c)" ring_directory
  by unfold_locales (auto simp: ring_kept_def ring_directory_def)

lemma ring_new_kept: "ring_kept (E, enc) (key_ring_new k t)"
  by (simp add: ring_kept_def ring_records_def key_ring_new_def)

lemma ring_records_rotate:
  "ring_records E enc (rotate_key E enc ring new at) =
    map (close_at at) (ring_records E enc ring) @
      [\<lparr>pk_key_id = cs_key_id new, pk_public_key = enc (verifying_key E new), pk_valid_from = at, pk_valid_to = None\<rparr>]"
  if "ring_kept (E, enc) ring"
proof -
  have "map (close_at at) (kr_retired ring) = kr_retired ring"
  proof (rule map_idI)
    fix k assume "k \<in> set (kr_retired ring)"
    then obtain i where i: "i < length (kr_retired ring)" "k = kr_retired ring ! i" by (auto simp: in_set_conv_nth)
    have "pk_valid_to (ring_records E enc ring ! i) \<noteq> None"
      using windows_nth [of "ring_records E enc ring" i] that i(1) by (simp add: ring_kept_def ring_records_def)
    then show "close_at at k = k" using i by (simp add: close_at_def ring_records_def nth_append)
  qed
  then show ?thesis by (simp add: ring_records_def rotate_key_def Let_def close_at_def)
qed

lemma ring_rotate_kept: "ring_kept (E, enc) ring \<Longrightarrow> ring_kept (E, enc) (rotate_key E enc ring new at)"
  using windows_close [of "ring_records E enc ring" "\<lparr>pk_key_id = cs_key_id new,
      pk_public_key = enc (verifying_key E new), pk_valid_from = at, pk_valid_to = None\<rparr>" at]
    ring_records_rotate [of E enc ring new at]
  by (simp add: ring_kept_def)

section \<open>The table keeps the contract\<close>

text \<open>
  What the server owes: a transaction works on a copy of the table that a commit puts in its place
  (one that fails may have done so); installs are one after the other, as the unique index on the
  open window enforces. \<open>key_id\<close> is the primary key.
\<close>

record 's keys_view =
  kv_client :: "'s keys_client"
  kv_range_err :: range_err
  kv_enc :: "u8 list \<Rightarrow> string"
  kv_table :: "'s \<Rightarrow> signing_key_row list"
  kv_work :: "'s \<Rightarrow> signing_key_row list option"

definition close_row :: "int \<Rightarrow> signing_key_row \<Rightarrow> signing_key_row" where
  "close_row at k = (if sk_valid_to k = None then k\<lparr>sk_valid_to := Some at\<rparr> else k)"

definition new_row :: "string \<Rightarrow> u8 list \<Rightarrow> int \<Rightarrow> signing_key_row" where
  "new_row i key at = \<lparr>sk_key_id = i, sk_public_key = key, sk_valid_from = at, sk_valid_to = None\<rparr>"

definition keys_lawful :: "'s keys_view \<Rightarrow> bool" where
  "keys_lawful V \<longleftrightarrow>
     (\<forall>s. distinct (map sk_key_id (kv_table V s))) \<and>
     (\<forall>s s' r. kc_begin (kv_client V) s = (s', r) \<longrightarrow> kv_table V s' = kv_table V s \<and>
        (r = Inr () \<longrightarrow> kv_work V s' = Some (kv_table V s))) \<and>
     (\<forall>s i s' r w. kc_find (kv_client V) s i = (s', r) \<longrightarrow> kv_work V s = Some w \<longrightarrow>
        kv_table V s' = kv_table V s \<and> (\<forall>x. r = Inr x \<longrightarrow> kv_work V s' = Some w \<and>
          x = map_option (\<lambda>k. (sk_public_key k, sk_valid_to k)) (find (\<lambda>k. sk_key_id k = i) w))) \<and>
     (\<forall>s at s' r w. kc_close (kv_client V) s at = (s', r) \<longrightarrow> kv_work V s = Some w \<longrightarrow>
        kv_table V s' = kv_table V s \<and> (r = Inr () \<longrightarrow> kv_work V s' = Some (map (close_row at) w))) \<and>
     (\<forall>s i key at s' r w. kc_insert (kv_client V) s i key at = (s', r) \<longrightarrow> kv_work V s = Some w \<longrightarrow>
        kv_table V s' = kv_table V s \<and> (r = Inr () \<longrightarrow> kv_work V s' = Some (w @ [new_row i key at]))) \<and>
     (\<forall>s s' r w. kc_commit (kv_client V) s = (s', r) \<longrightarrow> kv_work V s = Some w \<longrightarrow>
        (kv_table V s' = w \<or> r \<noteq> Inr () \<and> kv_table V s' = kv_table V s)) \<and>
     (\<forall>s. kv_table V (kc_rollback (kv_client V) s) = kv_table V s) \<and>
     (\<forall>s s' r. kc_list (kv_client V) s = (s', r) \<longrightarrow> kv_table V s' = kv_table V s \<and>
        (\<forall>rows. r = Inr rows \<longrightarrow> mset rows = mset (kv_table V s)))"

lemma keys_lawfulD:
  assumes "keys_lawful V"
  shows "distinct (map sk_key_id (kv_table V s))"
    and "kc_begin (kv_client V) s = (s', b) \<Longrightarrow> kv_table V s' = kv_table V s \<and>
      (b = Inr () \<longrightarrow> kv_work V s' = Some (kv_table V s))"
    and "kc_find (kv_client V) s i = (s', f) \<Longrightarrow> kv_work V s = Some w \<Longrightarrow>
      kv_table V s' = kv_table V s \<and> (\<forall>x. f = Inr x \<longrightarrow> kv_work V s' = Some w \<and>
        x = map_option (\<lambda>k. (sk_public_key k, sk_valid_to k)) (find (\<lambda>k. sk_key_id k = i) w))"
    and "kc_close (kv_client V) s at = (s', c) \<Longrightarrow> kv_work V s = Some w \<Longrightarrow>
      kv_table V s' = kv_table V s \<and> (c = Inr () \<longrightarrow> kv_work V s' = Some (map (close_row at) w))"
    and "kc_insert (kv_client V) s i key at = (s', n) \<Longrightarrow> kv_work V s = Some w \<Longrightarrow>
      kv_table V s' = kv_table V s \<and> (n = Inr () \<longrightarrow> kv_work V s' = Some (w @ [new_row i key at]))"
    and "kc_commit (kv_client V) s = (s', r) \<Longrightarrow> kv_work V s = Some w \<Longrightarrow>
      kv_table V s' = w \<or> r \<noteq> Inr () \<and> kv_table V s' = kv_table V s"
    and "kv_table V (kc_rollback (kv_client V) s) = kv_table V s"
    and "kc_list (kv_client V) s = (s', l) \<Longrightarrow> kv_table V s' = kv_table V s \<and>
      (\<forall>rows. l = Inr rows \<longrightarrow> mset rows = mset (kv_table V s))"
  using assms unfolding keys_lawful_def by (elim conjE; simp)+

lemma do_err_unit: "do_err Db p = (s', r) \<longleftrightarrow> (\<exists>q. p = (s', q) \<and> r = map_err Db q)"
  by (auto simp: do_err_eq)

lemma install_new_key_law:
  assumes "keys_lawful V" "kv_work V s = Some w" "install_new_key (kv_client V) s i key at = (s', r)"
  shows "kv_table V s' = map (close_row at) w @ [new_row i key at] \<or>
    r \<noteq> Inr () \<and> kv_table V s' = kv_table V s"
proof -
  let ?C = "kv_client V"
  note law = keys_lawfulD [OF assms(1)]
  obtain s1 q1 where q1: "kc_close ?C s at = (s1, q1)" by fastforce
  note l1 = law(4) [OF q1 assms(2)]
  show ?thesis
  proof (cases q1)
    case (Inl e)
    then have "s' = kc_rollback ?C s1" "r = Inl (Db e)"
      using assms(3) q1 by (simp_all add: install_new_key_def or_rollback_def)
    then show ?thesis using l1 law(7) by simp
  next
    case (Inr u)
    then have w1: "kv_work V s1 = Some (map (close_row at) w)" using l1 by simp
    obtain s2 q2 where q2: "kc_insert ?C s1 i key at = (s2, q2)" by fastforce
    note l2 = law(5) [OF q2 w1]
    show ?thesis
    proof (cases q2)
      case (Inl e)
      then have "s' = kc_rollback ?C s2" "r = Inl (Db e)"
        using assms(3) q1 q2 Inr by (simp_all add: install_new_key_def or_rollback_def)
      then show ?thesis using l1 l2 law(7) by simp
    next
      case (Inr v)
      then have w2: "kv_work V s2 = Some (map (close_row at) w @ [new_row i key at])" using l2 by simp
      obtain q3 where q3: "kc_commit ?C s2 = (s', q3)" "r = map_err Db q3"
        using assms(3) q1 q2 \<open>q1 = Inr u\<close> Inr by (auto simp: install_new_key_def or_rollback_def do_err_unit)
      then show ?thesis using law(6) [OF q3(1) w2] l1 l2 by auto
    qed
  qed
qed

lemma install_active_key_law:
  assumes "keys_lawful V"
    and "install_active_key (kv_range_err V) (kv_client V) s i key now = (s', r)"
  shows "case find (\<lambda>k. sk_key_id k = i) (kv_table V s) of
      Some k \<Rightarrow> kv_table V s' = kv_table V s \<and> (r = Inr () \<longrightarrow> sk_public_key k = key \<and> sk_valid_to k = None)
    | None \<Rightarrow> (\<exists>at. kv_table V s' = map (close_row at) (kv_table V s) @ [new_row i key at]) \<or>
        r \<noteq> Inr () \<and> kv_table V s' = kv_table V s"
proof -
  let ?C = "kv_client V"
  note law = keys_lawfulD [OF assms(1)]
  have unchanged: ?thesis if "kv_table V s' = kv_table V s" "r \<noteq> Inr ()"
    using that by (auto split: option.splits)
  show ?thesis
  proof (cases "to_pg (kv_range_err V) now")
    case (Inl e)
    then show ?thesis using assms(2) by (intro unchanged) (auto simp: install_active_key_def)
  next
    case (Inr at)
    obtain s1 q1 where q1: "kc_begin ?C s = (s1, q1)" by fastforce
    note l1 = law(2) [OF q1]
    show ?thesis
    proof (cases q1)
      case (Inl e)
      then show ?thesis using assms(2) Inr q1 l1 by (intro unchanged) (auto simp: install_active_key_def)
    next
      case (Inr u)
      then have w1: "kv_work V s1 = Some (kv_table V s)" using l1 by simp
      obtain s2 q2 where q2: "kc_find ?C s1 i = (s2, q2)" by fastforce
      note l2 = law(3) [OF q2 w1]
      show ?thesis
      proof (cases q2)
        case (Inl e)
        then show ?thesis
          using assms(2) \<open>to_pg _ _ = Inr at\<close> q1 Inr q2 l1 l2 law(7)
          by (intro unchanged) (auto simp: install_active_key_def or_rollback_def)
      next
        case (Inr x)
        then have w2: "kv_work V s2 = Some (kv_table V s)" and tb: "kv_table V s2 = kv_table V s"
          and x: "x = map_option (\<lambda>k. (sk_public_key k, sk_valid_to k)) (find (\<lambda>k. sk_key_id k = i) (kv_table V s))"
          using l1 l2 by simp_all
        note run = assms(2) [unfolded install_active_key_def \<open>to_pg _ _ = Inr at\<close> q1 \<open>q1 = Inr u\<close>
            do_err_simps then_do_simps q2 Inr or_rollback_def prod.case sum.case]
        show ?thesis
        proof (cases "find (\<lambda>k. sk_key_id k = i) (kv_table V s)")
          case None
          then have "install_new_key ?C s2 i key at = (s', r)" using run x by simp
          from install_new_key_law [OF assms(1) w2 this] show ?thesis using None tb by auto
        next
          case (Some k)
          show ?thesis
          proof (cases "sk_public_key k = key \<and> sk_valid_to k = None")
            case True
            then obtain q3 where "kc_commit ?C s2 = (s', q3)"
              using run x Some by (auto simp: do_err_unit)
            then show ?thesis using law(6) [OF _ w2] tb Some True by auto
          next
            case False
            then have "s' = kc_rollback ?C s2" "r \<noteq> Inr ()" using run x Some by (auto split: if_splits)
            then show ?thesis using law(7) tb by (intro unchanged) simp_all
          qed
        qed
      qed
    qed
  qed
qed

definition kv_installed :: "'s keys_view \<Rightarrow> 's \<Rightarrow> public_key_record list" where
  "kv_installed V s = map (record_of_key_row (kv_enc V)) (kv_table V s)"

definition table_kept :: "'s keys_view \<Rightarrow> 's \<Rightarrow> bool" where
  "table_kept V s \<longleftrightarrow> keys_lawful V \<and> windows (kv_installed V s)"

definition table_directory :: "'s keys_view \<Rightarrow> 's \<Rightarrow> 's \<times> (public_key_record list, control_error) result" where
  "table_directory V = pg_public_keys (kv_enc V) (kv_client V)"

interpretation pg_dir: key_directory table_kept kv_installed table_directory
proof unfold_locales
  fix V :: "'s keys_view" and s s' :: 's and ks
  assume V: "table_kept V s"
  then show "windows (kv_installed V s)" by (simp add: table_kept_def)
  assume "table_directory V s = (s', Inr ks)"
  then obtain rows where "kc_list (kv_client V) s = (s', Inr rows)" "ks = map (record_of_key_row (kv_enc V)) rows"
    by (cases "kc_list (kv_client V) s"; cases "snd (kc_list (kv_client V) s)")
      (auto simp: table_directory_def pg_public_keys_def)
  then show "mset ks = mset (kv_installed V s)"
    using keys_lawfulD(8) [of V s s' "Inr rows"] V by (simp add: table_kept_def kv_installed_def)
qed

section \<open>Keys in hex\<close>

text \<open>The encoder of \<open>hex\<close>: two lowercase digits for each byte.\<close>

definition hex_lawful :: "(u8 list \<Rightarrow> string) \<Rightarrow> bool" where
  "hex_lawful enc \<longleftrightarrow> (\<forall>bytes. enc bytes = hex_encode bytes)"

definition graphic :: "char \<Rightarrow> bool" where
  "graphic c \<longleftrightarrow> 33 \<le> (of_char c :: nat) \<and> of_char c < (127 :: nat)"

lemma graphic_not_space:
  assumes "graphic c" "w \<in> set white_space"
  shows "hd w \<noteq> c \<and> last w \<noteq> c"
proof -
  have "\<forall>w \<in> set white_space. \<not> graphic (hd w) \<and> \<not> graphic (last w)"
    by (simp add: white_space_def graphic_def)
  then show ?thesis using assms by auto
qed

lemma trim_with_keeps:
  assumes "\<And>w. w \<in> set ws \<Longrightarrow> w \<noteq> [] \<Longrightarrow> s \<noteq> [] \<Longrightarrow> hd w \<noteq> hd s"
  shows "trim_with ws s = s"
proof -
  have "find (\<lambda>w. w \<noteq> [] \<and> starts_with s w) ws = None"
    using assms by (auto simp: find_None_iff starts_with_conv) (metis hd_append2 Nil_is_append_conv)
  then show ?thesis by (simp add: trim_with.simps [of ws s])
qed

lemma trim_graphic:
  assumes "list_all graphic s"
  shows "trim s = s"
proof (cases "s = []")
  case False
  then have g: "graphic (hd s)" "graphic (last s)" using assms by (auto simp: list_all_iff)
  have "trim_with white_space s = s"
    using graphic_not_space [OF g(1)] by (intro trim_with_keeps) auto
  moreover have "trim_with (map rev white_space) (rev s) = rev s"
  proof (rule trim_with_keeps)
    fix w assume "w \<in> set (map rev white_space)" "w \<noteq> []"
    then obtain v where "v \<in> set white_space" "w = rev v" by auto
    then show "hd w \<noteq> hd (rev s)" using graphic_not_space [OF g(2)] by (simp add: hd_rev)
  qed
  ultimately show ?thesis by (simp add: trim_def)
qed (simp add: trim_def trim_with_keeps)

lemma graphic_DIGITS: "n < 16 \<Longrightarrow> graphic (DIGITS ! n)"
  by (erule below_16 [rotated -1]; simp add: DIGITS_def graphic_def)

lemma hex_digit_DIGITS: "n < 16 \<Longrightarrow> hex_digit (DIGITS ! n) = Some (word_of_nat n) \<and> DIGITS ! n \<noteq> CHR ''+''"
  by (erule below_16 [rotated -1]; simp add: DIGITS_def hex_digit_def)

lemma byte_of_nibbles: "16 * word_of_nat (unat (drop_bit 4 b)) + word_of_nat (unat (b AND 15)) = (b :: u8)"
proof -
  have "b AND 15 = take_bit 4 b" by (simp add: take_bit_eq_mask mask_eq_exp_minus_1)
  moreover have "push_bit 4 (drop_bit 4 b) + take_bit 4 b = b"
    by (metis add.commute bits_ident)
  ultimately show ?thesis by (simp add: push_bit_eq_mult mult.commute)
qed

lemma decode_pairs_encode: "decode_pairs (hex_encode bs) = Some bs"
proof (induction bs)
  case (Cons b bs)
  have n: "unat (drop_bit 4 b) < 16" "unat (b AND 15) < 16"
    using unat_drop_bit_4 word_and_le1 [of b 15] by (auto simp: word_le_nat_alt intro: le_less_trans)
  show ?case
    using hex_digit_DIGITS [OF n(1)] hex_digit_DIGITS [OF n(2)] byte_of_nibbles [of b] Cons.IH
    by (simp add: from_str_radix16_def)
qed simp

lemma graphic_hex: "list_all graphic (hex_encode bs)"
proof (induction bs)
  case (Cons b bs)
  have "unat (drop_bit 4 b) < 16" "unat (b AND 15) < 16"
    using unat_drop_bit_4 word_and_le1 [of b 15] by (auto simp: word_le_nat_alt intro: le_less_trans)
  then show ?case using Cons.IH graphic_DIGITS by simp
qed simp

lemma exported_key_reads: "hex_lawful enc \<Longrightarrow> length key = 32 \<Longrightarrow> decode_key (enc key) = Some key"
  by (simp add: decode_key_def hex_lawful_def trim_graphic [OF graphic_hex] decode_pairs_encode)

section \<open>Rings in use\<close>

text \<open>
  A ring in use: it seals with its active key and is rotated to others, at whatever instants. The run
  carries the checkpoints it sealed, the latest instant, and whether the instants came in order:
  no seal before what preceded it, every rotation after all of it (\<open>rotate\<close> takes its
  instant from its caller, \<open>seal_range\<close> from the clock).
\<close>

definition holder :: "ed25519 \<Rightarrow> checkpoint_signer \<Rightarrow> bool" where
  "holder E k \<longleftrightarrow> signs_for E (cs_key k) \<and> length (verifying_key E k) = 32"

inductive ring_run ::
    "canon_prims \<Rightarrow> ed25519 \<Rightarrow> (u8 list \<Rightarrow> string) \<Rightarrow> key_ring \<Rightarrow> timestamp \<Rightarrow> bool \<Rightarrow> checkpoint list \<Rightarrow> bool"
  for P :: canon_prims and E :: ed25519 and enc :: "u8 list \<Rightarrow> string" where
  ring_start: "holder E k \<Longrightarrow> ring_run P E enc (key_ring_new k t) t True []"
| ring_sealed: "ring_run P E enc ring clock in_order cps \<Longrightarrow>
    seal_range P E (kr_active ring) tenant_id system_id seq_from leaves now = Ok cp \<Longrightarrow>
    ring_run P E enc ring now (in_order \<and> clock \<le> now) (cps @ [cp])"
| ring_rotated: "ring_run P E enc ring clock in_order cps \<Longrightarrow> holder E k \<Longrightarrow>
    ring_run P E enc (rotate_key E enc ring k at) at (in_order \<and> clock < at) cps"

lemma close_at_simps [simp]:
  "pk_key_id (close_at at k) = pk_key_id k" "pk_public_key (close_at at k) = pk_public_key k"
  by (simp_all add: close_at_def)

text \<open>A key as it is exported, and a checkpoint that verifies under it.\<close>

definition checks :: "canon_prims \<Rightarrow> ed25519 \<Rightarrow> checkpoint \<Rightarrow> public_key_record \<Rightarrow> bool" where
  "checks P E cp r \<longleftrightarrow> pk_key_id r = cp_key_id cp \<and>
     (\<exists>key. decode_key (pk_public_key r) = Some key \<and> verify_checkpoint P E cp key = Ok ())"

lemma checks_closed [simp]: "checks P E cp (close_at at r) = checks P E cp r"
  by (simp add: checks_def)

lemma sealed_checks:
  assumes "seal_range P E k t y f leaves now = Ok cp" "holder E k" "hex_lawful enc"
    and "pk_key_id r = cs_key_id k" "pk_public_key r = enc (verifying_key E k)"
  shows "checks P E cp r \<and> cb_built_at (cp_body cp) = now"
proof -
  have "cp_key_id cp = cs_key_id k" "verify_checkpoint P E cp (verifying_key E k) = Ok ()"
    "cb_built_at (cp_body cp) = now"
    using assms(1,2) sign_verifies
    by (auto simp: holder_def seal_range_def sign_def and_then_eq_Inr split: if_splits)
  then show ?thesis using assms exported_key_reads [OF assms(3)] by (simp add: checks_def holder_def)
qed

lemma valid_at_closed: "valid_at t k \<Longrightarrow> t < at \<Longrightarrow> valid_at t (close_at at k)"
  by (simp add: valid_at_def close_at_def)

lemma close_at_from [simp]: "pk_valid_from (close_at at k) = pk_valid_from k"
  by (simp add: close_at_def)

lemma ring_run_kept: "ring_run P E enc ring clock ok cps \<Longrightarrow> ring_kept (E, enc) ring \<and> holder E (kr_active ring)"
  by (induction rule: ring_run.induct) (auto simp: ring_new_kept ring_rotate_kept, auto simp: key_ring_new_def rotate_key_def Let_def)

lemma ring_run_checks:
  "ring_run P E enc ring clock ok cps \<Longrightarrow> hex_lawful enc \<Longrightarrow> cp \<in> set cps \<Longrightarrow>
    \<exists>r \<in> set (ring_records E enc ring). checks P E cp r"
proof (induction rule: ring_run.induct)
  case (ring_sealed ring clock ok cps t y f leaves now cp')
  then show ?case
    using sealed_checks [OF ring_sealed.hyps(2)] ring_run_kept [OF ring_sealed.hyps(1)]
    by (auto simp: ring_records_def)
next
  case (ring_rotated ring clock ok cps k at)
  then show ?case using ring_run_kept [OF ring_rotated.hyps(1)] by (auto simp: ring_records_rotate)
qed simp

lemma ring_run_ordered:
  "ring_run P E enc ring clock ok cps \<Longrightarrow> ok \<Longrightarrow>
    sorted (map pk_valid_from (ring_records E enc ring)) \<and> kr_active_from ring \<le> clock"
proof (induction rule: ring_run.induct)
  case (ring_rotated ring clock ok cps k at)
  then have "\<forall>r \<in> set (ring_records E enc ring). pk_valid_from r \<le> clock"
    by (auto simp: ring_records_def sorted_append intro: order_trans)
  moreover have "kr_active_from (rotate_key E enc ring k at) = at" by (simp add: rotate_key_def Let_def)
  ultimately show ?case using ring_rotated ring_run_kept [OF ring_rotated.hyps(1)]
    by (auto simp: ring_records_rotate sorted_append comp_def)
qed (auto simp: ring_records_def key_ring_new_def)

lemma ring_run_in_window:
  "ring_run P E enc ring clock ok cps \<Longrightarrow> ok \<Longrightarrow> hex_lawful enc \<Longrightarrow> cp \<in> set cps \<Longrightarrow>
    cb_built_at (cp_body cp) \<le> clock \<and>
    (\<exists>r \<in> set (ring_records E enc ring). valid_at (cb_built_at (cp_body cp)) r \<and> checks P E cp r)"
proof (induction rule: ring_run.induct)
  case (ring_sealed ring clock ok cps t y f leaves now cp')
  show ?case
  proof (cases "cp \<in> set cps")
    case True
    then show ?thesis using ring_sealed by auto
  next
    case False
    let ?r = "\<lparr>pk_key_id = cs_key_id (kr_active ring), pk_public_key = enc (verifying_key E (kr_active ring)),
      pk_valid_from = kr_active_from ring, pk_valid_to = None\<rparr>"
    have "kr_active_from ring \<le> now"
      using ring_run_ordered [OF ring_sealed.hyps(1)] ring_sealed.prems(1) by simp
    then show ?thesis
      using False ring_sealed.prems sealed_checks [OF ring_sealed.hyps(2), of enc ?r] ring_run_kept [OF ring_sealed.hyps(1)]
      by (simp add: ring_records_def valid_at_def)
  qed
next
  case (ring_rotated ring clock ok cps k at)
  then obtain r where "cb_built_at (cp_body cp) \<le> clock" "r \<in> set (ring_records E enc ring)"
    "valid_at (cb_built_at (cp_body cp)) r" "checks P E cp r" by auto
  moreover from this have "valid_at (cb_built_at (cp_body cp)) (close_at at r)"
    using ring_rotated.prems by (auto intro: valid_at_closed)
  moreover have "close_at at r \<in> set (ring_records E enc (rotate_key E enc ring k at))"
    using calculation(2) ring_run_kept [OF ring_rotated.hyps(1)] by (auto simp: ring_records_rotate)
  ultimately show ?case using ring_rotated.prems by (auto intro!: bexI [of _ "close_at at r"])
qed simp

section \<open>Properties\<close>

text \<open>
  C25. Rotation never orphans a checkpoint. Whatever a ring sealed and however often it was rotated
  since, its export holds a key with the checkpoint's key id, in a form the verifier reads, under
  which the checkpoint verifies. Where the instants came in order (each rotation later than every
  seal before it) exactly one exported key has a window with the checkpoint's own instant, and that
  is the key under which it verifies; and every instant from the first key's on has exactly one
  exported key. The windows always abut, the last open.
\<close>

theorem rotation_keeps_checkpoints:
  assumes "ring_run P E enc ring clock in_order sealed" "hex_lawful enc"
  shows "windows (ring_records E enc ring) \<and>
    (\<forall>cp \<in> set sealed.
      (\<exists>r \<in> set (ring_records E enc ring). pk_key_id r = cp_key_id cp \<and>
        (\<exists>key. decode_key (pk_public_key r) = Some key \<and> verify_checkpoint P E cp key = Ok ())) \<and>
      (in_order \<longrightarrow> (\<exists>r key.
        {r' \<in> set (ring_records E enc ring). valid_at (cb_built_at (cp_body cp)) r'} = {r} \<and>
        pk_key_id r = cp_key_id cp \<and> decode_key (pk_public_key r) = Some key \<and>
        verify_checkpoint P E cp key = Ok ()))) \<and>
    (in_order \<longrightarrow> pk_valid_from (hd (ring_records E enc ring)) \<le> t \<longrightarrow>
      (\<exists>!r. r \<in> set (ring_records E enc ring) \<and> valid_at t r))"
proof (intro conjI ballI impI)
  let ?rs = "ring_records E enc ring"
  have kept: "ring_kept (E, enc) ring" "?rs \<noteq> []"
    using ring_run_kept [OF assms(1)] by (simp_all add: ring_records_def)
  then show "windows ?rs" by (simp add: ring_kept_def)
  have one: "\<exists>!r. r \<in> set ?rs \<and> valid_at t r" if "in_order" "pk_valid_from (hd ?rs) \<le> t" for t
    using ring_dir.attributable [OF kept(1), of ring ?rs t] ring_run_ordered [OF assms(1)] kept that
    by (simp add: ring_directory_def)
  then show "\<exists>!r. r \<in> set ?rs \<and> valid_at t r" if "in_order" "pk_valid_from (hd ?rs) \<le> t" using that by blast
  fix cp assume cp: "cp \<in> set sealed"
  show "\<exists>r \<in> set ?rs. pk_key_id r = cp_key_id cp \<and>
      (\<exists>key. decode_key (pk_public_key r) = Some key \<and> verify_checkpoint P E cp key = Ok ())"
    using ring_run_checks [OF assms cp] by (auto simp: checks_def)
  assume ok: "in_order"
  obtain r where r: "r \<in> set ?rs" "valid_at (cb_built_at (cp_body cp)) r" "checks P E cp r"
    using ring_run_in_window [OF assms(1) ok assms(2) cp] by blast
  have "pk_valid_from (hd ?rs) \<le> pk_valid_from r"
    using ring_run_ordered [OF assms(1) ok] kept(2) r(1) by (cases ?rs) auto
  then have "{r' \<in> set ?rs. valid_at (cb_built_at (cp_body cp)) r'} = {r}"
    using one [OF ok, of "cb_built_at (cp_body cp)"] r(1,2) by (auto simp: valid_at_def [of _ r])
  then show "\<exists>r key. {r' \<in> set ?rs. valid_at (cb_built_at (cp_body cp)) r'} = {r} \<and>
      pk_key_id r = cp_key_id cp \<and> decode_key (pk_public_key r) = Some key \<and> verify_checkpoint P E cp key = Ok ()"
    using r(3) unfolding checks_def by blast
qed

definition demo_holder :: "u8 \<Rightarrow> checkpoint_signer" where
  "demo_holder n = \<lparr>cs_key = replicate 32 n, cs_key_id = ''cp-'' @ hex_encode [n]\<rparr>"

lemma demo_holder_holds: "holder demo_ed (demo_holder n)"
  by (simp add: holder_def demo_ed_signs) (simp add: demo_ed_def demo_holder_def verifying_key_def)

theorem rotation_keeps_checkpoints_witness:
  "\<exists>cp. seal_range chain_prims demo_ed (demo_holder 1) ''t'' ''s'' 1 [GENESIS] 4 = Ok cp \<and>
    (\<exists>r key. {r' \<in> set (ring_records demo_ed hex_encode
          (rotate_key demo_ed hex_encode (key_ring_new (demo_holder 1) 3) (demo_holder 2) 5)). valid_at 4 r'} = {r} \<and>
      pk_key_id r = cp_key_id cp \<and> decode_key (pk_public_key r) = Some key \<and>
      verify_checkpoint chain_prims demo_ed cp key = Ok ())"
proof -
  let ?ring = "key_ring_new (demo_holder 1) 3"
  obtain cp where cp: "seal_range chain_prims demo_ed (demo_holder 1) ''t'' ''s'' 1 [GENESIS] 4 = Ok cp"
    using demo_seals [of "[GENESIS]"] by blast
  then have at: "cb_built_at (cp_body cp) = 4" using sign_body unfolding seal_range_eq_Inr by auto
  have "ring_run chain_prims demo_ed hex_encode ?ring 3 True []"
    using demo_holder_holds by (rule ring_start)
  then have "ring_run chain_prims demo_ed hex_encode ?ring 4 (True \<and> 3 \<le> (4 :: int)) ([] @ [cp])"
    by (rule ring_sealed) (use cp in \<open>simp add: key_ring_new_def\<close>)
  then have "ring_run chain_prims demo_ed hex_encode (rotate_key demo_ed hex_encode ?ring (demo_holder 2) 5) 5
      ((True \<and> 3 \<le> (4 :: int)) \<and> 4 < (5 :: int)) ([] @ [cp])"
    using demo_holder_holds by (rule ring_rotated)
  moreover have "hex_lawful hex_encode" by (simp add: hex_lawful_def)
  ultimately show ?thesis using rotation_keeps_checkpoints at cp by fastforce
qed

lemma record_of_closed [simp]:
  "record_of_key_row enc (close_row at k) = close_at (from_pg at) (record_of_key_row enc k)"
  by (auto simp: record_of_key_row_def close_row_def close_at_def)

lemma close_row_simps [simp]:
  "sk_key_id (close_row at k) = sk_key_id k" "sk_public_key (close_row at k) = sk_public_key k"
  by (simp_all add: close_row_def)

lemma open_is_last:
  assumes "windows (map (record_of_key_row enc) rows)" "k \<in> set rows" "sk_valid_to k = None"
  shows "k = last rows"
proof -
  obtain i where i: "i < length rows" "k = rows ! i" using assms(2) by (auto simp: in_set_conv_nth)
  show ?thesis
  proof (cases "Suc i < length rows")
    case True
    then have "pk_valid_to (map (record_of_key_row enc) rows ! i) \<noteq> None"
      using windows_nth [OF assms(1), of i] by simp
    then show ?thesis using i assms(3) by (simp add: record_of_key_row_def)
  next
    case False
    then have "i = length rows - 1" using i(1) by simp
    moreover have "rows \<noteq> []" using i(1) by auto
    ultimately show ?thesis using i by (simp add: last_conv_nth)
  qed
qed

text \<open>
  C26. Installing a key at startup keeps the table fit for evidence, on every branch: no key is ever
  forgotten or given another public key, each closed key stays closed, the windows abut; and where
  it answers \<open>Ok\<close> the key asked for is the one with the open window. A key id that is registered
  with another public key, or retired, is refused and nothing changes.
\<close>

theorem install_keeps_windows:
  assumes "keys_lawful V" "windows (kv_installed V s)"
    and "install_active_key (kv_range_err V) (kv_client V) s key_id key now = (s', r)"
  shows "windows (kv_installed V s') \<and>
    prefix (map (\<lambda>k. (sk_key_id k, sk_public_key k)) (kv_table V s)) (map (\<lambda>k. (sk_key_id k, sk_public_key k)) (kv_table V s')) \<and>
    list_all2 (\<lambda>k k'. sk_valid_to k = None \<or> k' = k) (kv_table V s) (take (length (kv_table V s)) (kv_table V s')) \<and>
    (r = Ok () \<longrightarrow> kv_table V s' \<noteq> [] \<and> sk_key_id (last (kv_table V s')) = key_id \<and>
      sk_public_key (last (kv_table V s')) = key \<and> sk_valid_to (last (kv_table V s')) = None) \<and>
    ((\<exists>k \<in> set (kv_table V s). sk_key_id k = key_id \<and> (sk_public_key k \<noteq> key \<or> sk_valid_to k \<noteq> None)) \<longrightarrow>
      r \<noteq> Ok () \<and> kv_table V s' = kv_table V s)"
proof -
  let ?T = "kv_table V s" and ?T' = "kv_table V s'"
  note law = install_active_key_law [OF assms(1,3)]
  have found: "find (\<lambda>k. sk_key_id k = key_id) ?T = Some k" if hyp: "k \<in> set ?T" "sk_key_id k = key_id" for k
  proof -
    obtain k' where k': "find (\<lambda>k. sk_key_id k = key_id) ?T = Some k'"
      using hyp by (cases "find (\<lambda>k. sk_key_id k = key_id) ?T") (auto simp: find_None_iff)
    then have "k' \<in> set ?T" "sk_key_id k' = key_id" by (auto simp: find_Some_iff)
    then have "k' = k" using hyp keys_lawfulD(1) [OF assms(1), of s] by (metis distinct_map inj_onD)
    then show ?thesis using k' by simp
  qed
  have bad: "(\<exists>k \<in> set ?T. sk_key_id k = key_id \<and> (sk_public_key k \<noteq> key \<or> sk_valid_to k \<noteq> None)) \<longrightarrow>
      r \<noteq> Ok () \<and> ?T' = ?T"
    using law found by auto
  have refl: "list_all2 (\<lambda>k k'. sk_valid_to k = None \<or> k' = k) ?T (take (length ?T) ?T)"
    by (simp add: list_all2_same)
  consider (same) "?T' = ?T" "r = Ok () \<Longrightarrow> \<exists>k \<in> set ?T. sk_key_id k = key_id \<and> sk_public_key k = key \<and> sk_valid_to k = None"
    | (added) at where "?T' = map (close_row at) ?T @ [new_row key_id key at]"
  proof (cases "find (\<lambda>k. sk_key_id k = key_id) ?T")
    case None
    then have "(\<exists>at. ?T' = map (close_row at) ?T @ [new_row key_id key at]) \<or> r \<noteq> Inr () \<and> ?T' = ?T"
      using law by simp
    then show ?thesis using that by blast
  next
    case (Some k)
    then have "k \<in> set ?T" "sk_key_id k = key_id" by (auto simp: find_Some_iff)
    then show ?thesis using law Some that(1) by auto
  qed
  then show ?thesis
  proof cases
    case same
    then have "windows (map (record_of_key_row (kv_enc V)) ?T)" using assms(2) by (simp add: kv_installed_def)
    then show ?thesis
      using same bad refl assms(2) open_is_last [of "kv_enc V" ?T]
      by (auto simp: kv_installed_def)
  next
    case added
    have "windows (kv_installed V s')"
      using windows_close [OF assms(2), of "record_of_key_row (kv_enc V) (new_row key_id key at)" "from_pg at"]
      by (simp add: kv_installed_def added comp_def) (simp add: record_of_key_row_def new_row_def)
    moreover have "list_all2 (\<lambda>k k'. sk_valid_to k = None \<or> k' = k) ?T (map (close_row at) ?T)"
      by (simp add: list_all2_conv_all_nth close_row_def)
    ultimately show ?thesis
      using bad added by (simp add: comp_def new_row_def)
  qed
qed

definition demo_keys_view :: "(signing_key_row list \<times> signing_key_row list option) keys_view" where
  "demo_keys_view =
     (let ok = (\<lambda>w. distinct (map sk_key_id w)); table = (\<lambda>s. if ok (fst s) then fst s else []) in
     \<lparr>kv_client =
        \<lparr>kc_begin = (\<lambda>s. ((fst s, Some (table s)), Ok ())),
         kc_find = (\<lambda>s i. (s, Ok (map_option (\<lambda>k. (sk_public_key k, sk_valid_to k))
            (find (\<lambda>k. sk_key_id k = i) (case snd s of None \<Rightarrow> [] | Some w \<Rightarrow> w))))),
         kc_close = (\<lambda>s at. ((fst s, map_option (map (close_row at)) (snd s)), Ok ())),
         kc_insert = (\<lambda>s i key at. ((fst s, map_option (\<lambda>w. w @ [new_row i key at]) (snd s)), Ok ())),
         kc_commit = (\<lambda>s. case snd s of None \<Rightarrow> (s, Ok ())
            | Some w \<Rightarrow> if ok w then ((w, None), Ok ()) else (s, Err ''unique'')),
         kc_rollback = (\<lambda>s. s), kc_list = (\<lambda>s. (s, Ok (table s)))\<rparr>,
      kv_range_err = (\<lambda>_. None), kv_enc = hex_encode, kv_table = table, kv_work = snd\<rparr>)"

lemma demo_keys_lawful: "keys_lawful demo_keys_view"
  unfolding keys_lawful_def by (auto simp: demo_keys_view_def Let_def split: option.splits if_splits)

theorem install_keeps_windows_witness:
  "\<exists>s'. install_active_key (\<lambda>_. None) (kv_client demo_keys_view) ([], None) ''cp-1'' [1] 3 = (s', Ok ()) \<and>
    windows (kv_installed demo_keys_view s') \<and> sk_key_id (last (kv_table demo_keys_view s')) = ''cp-1''"
proof -
  let ?s = "([new_row ''cp-1'' [1] 3000], None)"
  have run: "install_active_key (\<lambda>_. None) (kv_client demo_keys_view) ([], None) ''cp-1'' [1] 3 = (?s, Ok ())"
    by (simp add: install_active_key_def install_new_key_def to_pg_def or_rollback_def demo_keys_view_def Let_def)
  moreover have "windows (kv_installed demo_keys_view ([], None))"
    by (simp add: kv_installed_def demo_keys_view_def Let_def)
  moreover have "kv_range_err demo_keys_view = (\<lambda>_. None)" by (simp add: demo_keys_view_def Let_def)
  ultimately have "windows (kv_installed demo_keys_view ?s) \<and> sk_key_id (last (kv_table demo_keys_view ?s)) = ''cp-1''"
    using install_keeps_windows [OF demo_keys_lawful, of "([], None)" "''cp-1''" "[1]" 3 ?s "Ok ()"] by simp
  then show ?thesis using run by blast
qed

end
