(* ===== verification/Api.thy ===== *)
theory Api
  imports Keys Evidence
begin

text \<open>
  What the control plane serves and to whom: \<open>export.rs\<close>, \<open>auth.rs\<close> and \<open>api.rs\<close>.

  A request is what \<open>axum\<close> hands a handler: the decoded segments of its path, its headers (names in
  lower case) and what its body or query parsed as. The JSON of an answer, the text of a header
  value, randomness and the environment are arguments. A value that \<open>axum\<close> turns into a response
  carries the content type of its kind; the body of an answer to \<open>HEAD\<close>, which is the one to \<open>GET\<close>,
  is not sent.
\<close>

section \<open>The operator's token\<close>

definition SESSION_COOKIE :: string where
  "SESSION_COOKIE = ''ancre_session''"

definition SESSION_MAX_AGE_SECS :: u64 where
  "SESSION_MAX_AGE_SECS = 8 * 60 * 60"

record admin =
  ad_token :: string

definition admin_new :: "string \<Rightarrow> admin" where
  "admin_new token = \<lparr>ad_token = token\<rparr>"

definition is_a_placeholder :: "string \<Rightarrow> bool" where
  "is_a_placeholder token \<longleftrightarrow> list_ex (\<lambda>k. eq_ignore_ascii_case k token)
     [''ancre-insecure-default'', ''ancre-demo-operator'', ''changeme'', ''change-me'', ''password'',
      ''admin'', ''secret'']"

text \<open>\<open>from_env\<close>: the credential, and whether it is announced as a well-known or a generated one.\<close>

datatype token_warning = WellKnown | Generated string

definition admin_from_env ::
    "(u8 list \<Rightarrow> string) \<Rightarrow> string option \<Rightarrow> u8 list \<Rightarrow> admin \<times> token_warning option" where
  "admin_from_env enc var random =
     (case var of
        Some t \<Rightarrow>
          if trim t \<noteq> [] then (admin_new (trim t), if is_a_placeholder (trim t) then Some WellKnown else None)
          else (admin_new (enc random), Some (Generated (enc random)))
      | None \<Rightarrow> (admin_new (enc random), Some (Generated (enc random))))"

definition admin_admits :: "admin \<Rightarrow> string \<Rightarrow> bool" where
  "admin_admits ad presented =
     (let a = str_bytes (ad_token ad); b = str_bytes presented in
      if length a \<noteq> length b then False
      else foldl (\<lambda>acc (x, y). acc OR (x XOR y)) 0 (zip a b) = 0)"

definition session_cookie :: "admin \<Rightarrow> string" where
  "session_cookie ad = SESSION_COOKIE @ ''='' @ ad_token ad @
     ''; HttpOnly; SameSite=Strict; Path=/; Max-Age='' @ dec_u64 SESSION_MAX_AGE_SECS"

definition cleared_cookie :: string where
  "cleared_cookie = SESSION_COOKIE @ ''=; HttpOnly; SameSite=Strict; Path=/; Max-Age=0''"

type_synonym headers = "(string \<times> string) list"

definition header_get :: "string \<Rightarrow> headers \<Rightarrow> string option" where
  "header_get name h = map_option snd (find (\<lambda>(n, _). n = name) h)"

definition non_empty :: "string option \<Rightarrow> string option" where
  "non_empty t = (case t of None \<Rightarrow> None | Some s \<Rightarrow> if s = [] then None else Some s)"

definition presented_bearer :: "(string \<Rightarrow> string option) \<Rightarrow> headers \<Rightarrow> string option" where
  "presented_bearer to_str h = non_empty
     (Option.bind (Option.bind (header_get ''authorization'' h) to_str) (\<lambda>v.
      Option.bind (split_once CHR '' '' v) (\<lambda>(scheme, token).
        if eq_ignore_ascii_case scheme ''bearer'' then Some (trim token) else None)))"

fun find_map :: "('a \<Rightarrow> 'b option) \<Rightarrow> 'a list \<Rightarrow> 'b option" where
  "find_map f [] = None"
| "find_map f (x # xs) = (case f x of Some y \<Rightarrow> Some y | None \<Rightarrow> find_map f xs)"

definition session_of_cookie :: "string \<Rightarrow> string option" where
  "session_of_cookie c =
     Option.bind (split_once CHR ''='' (trim c)) (\<lambda>(name, v). if name = SESSION_COOKIE then Some v else None)"

definition presented_cookie :: "(string \<Rightarrow> string option) \<Rightarrow> headers \<Rightarrow> string option" where
  "presented_cookie to_str h = non_empty
     (Option.bind (Option.bind (header_get ''cookie'' h) to_str) (\<lambda>jar.
        find_map session_of_cookie (split_on CHR '';'' jar)))"

definition presented_token :: "(string \<Rightarrow> string option) \<Rightarrow> headers \<Rightarrow> string option" where
  "presented_token to_str h =
     (case presented_bearer to_str h of Some t \<Rightarrow> Some t | None \<Rightarrow> presented_cookie to_str h)"

section \<open>Answers\<close>

text \<open>A body is the chunks it is sent in; one that fails under way is cut off there.\<close>

record answer =
  an_status :: u16
  an_headers :: headers
  an_chunks :: "string list"
  an_cut :: "control_error option"

definition answer_of :: "u16 \<Rightarrow> headers \<Rightarrow> string \<Rightarrow> answer" where
  "answer_of status h body = \<lparr>an_status = status, an_headers = h, an_chunks = [body], an_cut = None\<rparr>"

definition JSON_TYPE :: "string \<times> string" where
  "JSON_TYPE = (''content-type'', ''application/json'')"

definition TEXT_TYPE :: "string \<times> string" where
  "TEXT_TYPE = (''content-type'', ''text/plain; charset=utf-8'')"

definition BYTES_TYPE :: "string \<times> string" where
  "BYTES_TYPE = (''content-type'', ''application/octet-stream'')"

definition UNAUTHORIZED_BODY :: string where
  "UNAUTHORIZED_BODY =
     ''{\"error\":\"authentication required\",\"hint\":\"POST /api/session with {'' @ [CHR 0x5C] @
     ''\"token'' @ [CHR 0x5C] @ ''\":'' @ [CHR 0x5C] @ ''\"'' @ ellipsis @ [CHR 0x5C] @
     ''\"}, or send Authorization: Bearer <ANCRE_ADMIN_TOKEN>\"}''"

text \<open>What runs behind the check may be a stream without end.\<close>

definition require_admin ::
    "(string \<Rightarrow> string option) \<Rightarrow> admin \<Rightarrow> headers \<Rightarrow> 's \<Rightarrow> ('s \<Rightarrow> ('s \<times> answer) option) \<Rightarrow> ('s \<times> answer) option" where
  "require_admin to_str ad h s run_next =
     (let refused = Some (s, answer_of 401 [JSON_TYPE] UNAUTHORIZED_BODY) in
      case presented_token to_str h of
        Some token \<Rightarrow> if admin_admits ad token then run_next s else refused
      | None \<Rightarrow> refused)"

text \<open>\<open>Display\<close> for \<open>ControlError\<close>.\<close>

fun control_error_to_string :: "control_error \<Rightarrow> string" where
  "control_error_to_string (Db m) = ''postgres: '' @ m"
| "control_error_to_string (ControlBus m) = ''nats: '' @ m"
| "control_error_to_string (ControlCanon m) = ''canonical encoding: '' @ m"
| "control_error_to_string (ControlInvalid m) = ''snapshot rejected: '' @ m"
| "control_error_to_string (ControlChain e) = ''chain: '' @ chain_error_to_string e"

datatype api_error = NotFound | ApiControl control_error

fun api_error_answer :: "api_error \<Rightarrow> answer" where
  "api_error_answer NotFound = answer_of 404 [TEXT_TYPE] ''not found''"
| "api_error_answer (ApiControl e) = answer_of 503 [TEXT_TYPE] (control_error_to_string e)"

definition answer_with :: "('a \<Rightarrow> answer) \<Rightarrow> 's \<times> ('a, control_error) result \<Rightarrow> 's \<times> answer" where
  "answer_with f p = (case p of (s, Inl e) \<Rightarrow> (s, api_error_answer (ApiControl e)) | (s, Inr a) \<Rightarrow> (s, f a))"

section \<open>Export\<close>

definition PAGE :: u64 where
  "PAGE = 10000"

fun to_jsonl :: "(audit_event \<Rightarrow> (string, string) result) \<Rightarrow> audit_event list \<Rightarrow> (string, control_error) result" where
  "to_jsonl to_writer [] = Ok []"
| "to_jsonl to_writer (e # es) =
     and_then (map_err (\<lambda>m. ControlCanon (''event '' @ dec_u64 (ae_seq e) @ '': '' @ m)) (to_writer e)) (\<lambda>line.
     and_then (to_jsonl to_writer es) (\<lambda>out. Ok (line @ [CHR 0x0A] @ out)))"

text \<open>
  The stream of pages: the chunks, and what cut them off. \<open>last + 1\<close> wraps, so that a range up to
  the largest position does not end; such a stream is \<open>None\<close>.
\<close>

definition saturating_add64 :: "u64 \<Rightarrow> u64 \<Rightarrow> u64" where
  "saturating_add64 a b = (if unat a + unat b < 2 ^ 64 then a + b else - 1)"

partial_function (option) pages ::
    "('s \<Rightarrow> u64 \<Rightarrow> u64 \<Rightarrow> 's \<times> (audit_event list, control_error) result) \<Rightarrow>
     (audit_event \<Rightarrow> (string, string) result) \<Rightarrow> u64 \<Rightarrow> 's \<Rightarrow> u64 \<Rightarrow>
     ('s \<times> string list \<times> control_error option) option" where
  "pages read to_writer bound s pos =
     (if pos > bound then Some (s, [], None)
      else
        let last_pos = min (saturating_add64 pos (PAGE - 1)) bound in
        case read s pos last_pos of
          (s, Inl e) \<Rightarrow> Some (s, [], Some e)
        | (s, Inr events) \<Rightarrow>
            if events = [] then Some (s, [], None)
            else (case to_jsonl to_writer events of
              Inl e \<Rightarrow> Some (s, [], Some e)
            | Inr bytes \<Rightarrow> Option.bind (pages read to_writer bound s (last_pos + 1))
                (\<lambda>(s, chunks, ended). Some (s, bytes # chunks, ended))))"

definition chain_token :: "string \<Rightarrow> string" where
  "chain_token s = token_text s"

record query_range =
  qr_from :: "u64 option"
  qr_to :: "u64 option"

section \<open>Handlers\<close>

record 's snapshot_api =
  sa_current :: "'s \<Rightarrow> 's \<times> (snapshot_envelope, control_error) result"
  sa_prompt :: "'s \<Rightarrow> string \<Rightarrow> 's \<times> (u8 list option, control_error) result"

record 's chains_api =
  ca_head_seq :: "'s \<Rightarrow> chain_id \<Rightarrow> 's \<times> (u64 option, control_error) result"
  ca_events :: "'s \<Rightarrow> chain_id \<Rightarrow> u64 \<Rightarrow> u64 \<Rightarrow> 's \<times> (audit_event list, control_error) result"
  ca_listings :: "'s \<Rightarrow> 's \<times> (chain_listing list, control_error) result"
  ca_summary :: "'s \<Rightarrow> chain_id \<Rightarrow> 's \<times> (chain_summary, control_error) result"

record 's control_state =
  ct_snapshots :: "'s snapshot_api"
  ct_checkpoints :: "'s checkpoint_store"
  ct_keys :: "'s \<Rightarrow> 's \<times> (public_key_record list, control_error) result"
  ct_chains :: "'s chains_api"

text \<open>The JSON of what is answered.\<close>

record api_json =
  aj_envelope :: "snapshot_envelope \<Rightarrow> string"
  aj_listings :: "chain_listing list \<Rightarrow> string"
  aj_summary :: "chain_summary \<Rightarrow> string"
  aj_checkpoints :: "checkpoint list \<Rightarrow> string"
  aj_keys :: "public_key_record list \<Rightarrow> string"
  aj_event :: "audit_event \<Rightarrow> (string, string) result"

definition snapshot_handler :: "api_json \<Rightarrow> 's control_state \<Rightarrow> 's \<Rightarrow> 's \<times> answer" where
  "snapshot_handler J st s = answer_with (\<lambda>e. answer_of 200 [JSON_TYPE] (aj_envelope J e)) (sa_current (ct_snapshots st) s)"

definition prompt_handler :: "'s control_state \<Rightarrow> 's \<Rightarrow> string \<Rightarrow> 's \<times> answer" where
  "prompt_handler st s hash = answer_with (\<lambda>b. case b of
       None \<Rightarrow> api_error_answer NotFound
     | Some body \<Rightarrow> answer_of 200 [BYTES_TYPE] (map (\<lambda>x. char_of (unat x)) body)) (sa_prompt (ct_snapshots st) s hash)"

definition chain_list_handler :: "api_json \<Rightarrow> 's control_state \<Rightarrow> 's \<Rightarrow> 's \<times> answer" where
  "chain_list_handler J st s = answer_with (\<lambda>l. answer_of 200 [JSON_TYPE] (aj_listings J l)) (ca_listings (ct_chains st) s)"

definition chain_summary_handler :: "api_json \<Rightarrow> 's control_state \<Rightarrow> 's \<Rightarrow> string \<Rightarrow> string \<Rightarrow> 's \<times> answer" where
  "chain_summary_handler J st s tenant_id system_id =
     answer_with (\<lambda>x. answer_of 200 [JSON_TYPE] (aj_summary J x))
       (ca_summary (ct_chains st) s \<lparr>cid_tenant_id = tenant_id, cid_system_id = system_id\<rparr>)"

definition checkpoints_handler :: "api_json \<Rightarrow> 's control_state \<Rightarrow> 's \<Rightarrow> string \<Rightarrow> string \<Rightarrow> 's \<times> answer" where
  "checkpoints_handler J st s tenant_id system_id =
     answer_with (\<lambda>x. answer_of 200 [JSON_TYPE] (aj_checkpoints J x))
       (st_list (ct_checkpoints st) s \<lparr>cid_tenant_id = tenant_id, cid_system_id = system_id\<rparr>)"

definition pubkeys_handler :: "api_json \<Rightarrow> 's control_state \<Rightarrow> 's \<Rightarrow> 's \<times> answer" where
  "pubkeys_handler J st s = answer_with (\<lambda>x. answer_of 200 [JSON_TYPE] (aj_keys J x)) (ct_keys st s)"

text \<open>The export, with its body as far as the client reads it: to its end.\<close>

definition events_handler ::
    "api_json \<Rightarrow> 's control_state \<Rightarrow> 's \<Rightarrow> string \<Rightarrow> string \<Rightarrow> query_range \<Rightarrow> ('s \<times> answer) option" where
  "events_handler J st s tenant_id system_id rng =
     (let chain = \<lparr>cid_tenant_id = tenant_id, cid_system_id = system_id\<rparr> in
      case ca_head_seq (ct_chains st) s chain of
        (s, Inl e) \<Rightarrow> Some (s, api_error_answer (ApiControl e))
      | (s, Inr head) \<Rightarrow>
          let head = (case head of None \<Rightarrow> 0 | Some h \<Rightarrow> h);
              pos = max (case qr_from rng of None \<Rightarrow> 1 | Some f \<Rightarrow> f) 1;
              bound = min (case qr_to rng of None \<Rightarrow> head | Some t \<Rightarrow> t) head;
              filename = chain_token tenant_id @ ''-'' @ chain_token system_id @ ''-'' @
                dec_u64 pos @ ''-'' @ dec_u64 bound @ ''.jsonl''
          in Option.bind (pages (\<lambda>s. ca_events (ct_chains st) s chain) (aj_event J) bound s pos)
               (\<lambda>(s, chunks, ended). Some (s,
                 \<lparr>an_status = 200,
                  an_headers = [(''content-type'', ''application/x-ndjson''),
                    (''content-disposition'', ''attachment; filename=\"'' @ filename @ ''\"'')],
                  an_chunks = chunks, an_cut = ended\<rparr>)))"

definition session_status :: "(string \<Rightarrow> string option) \<Rightarrow> (bool \<Rightarrow> string) \<Rightarrow> admin \<Rightarrow> headers \<Rightarrow> answer" where
  "session_status to_str json_of ad h =
     answer_of 200 [JSON_TYPE] (json_of (case presented_token to_str h of None \<Rightarrow> False | Some t \<Rightarrow> admin_admits ad t))"

definition session_create :: "admin \<Rightarrow> string \<Rightarrow> answer" where
  "session_create ad token =
     (if admin_admits ad (trim token) then answer_of 204 [(''set-cookie'', session_cookie ad)] []
      else answer_of 401 [JSON_TYPE] ''{\"error\":\"that token was not accepted\"}'')"

definition session_delete :: answer where
  "session_delete = answer_of 204 [(''set-cookie'', cleared_cookie)] []"

section \<open>The dashboard's files\<close>

record asset_lib =
  al_get :: "string \<Rightarrow> string option"
  al_mime :: "string \<Rightarrow> string"
  al_unbuilt :: string

definition with_headers :: "asset_lib \<Rightarrow> string \<Rightarrow> string \<Rightarrow> answer" where
  "with_headers A path data =
     answer_of 200
       [(''content-type'', al_mime A path),
        (''cache-control'', if path = ''index.html'' then ''no-cache'' else ''public, max-age=31536000, immutable'')]
       data"

definition serve_asset :: "asset_lib \<Rightarrow> string \<Rightarrow> answer" where
  "serve_asset A uri_path =
     (let path = dropWhile (\<lambda>c. c = CHR ''/'') uri_path in
      if starts_with path ''v1/'' \<or> starts_with path ''api/''
      then answer_of 404 [JSON_TYPE] ''{\"error\":\"no such endpoint\"}''
      else (case al_get A path of
        Some data \<Rightarrow> with_headers A path data
      | None \<Rightarrow>
          (case al_get A ''index.html'' of
             Some index \<Rightarrow> with_headers A ''index.html'' index
           | None \<Rightarrow> answer_of 404 [(''content-type'', ''text/html; charset=utf-8'')] (al_unbuilt A))))"

section \<open>The router\<close>

datatype endpoint =
    Healthz
  | Checkpoints string string
  | Pubkeys
  | Snapshot
  | Prompt string
  | ChainList
  | ChainSummary string string
  | Events string string
  | Session
  | Dashboard

record api_request =
  aq_method :: string
  aq_path :: string
  aq_segments :: "string list"
  aq_headers :: headers
  aq_range :: query_range
  aq_token :: string

text \<open>The path of a request; a parameter of it is not empty. All others are the dashboard's.\<close>

definition endpoint_of :: "string list \<Rightarrow> endpoint" where
  "endpoint_of segments =
     (if segments = [''v1'', ''snapshot''] then Snapshot
      else if segments = [''v1'', ''chains''] then ChainList
      else if segments = [''healthz''] then Healthz
      else if segments = [''v1'', ''pubkeys''] then Pubkeys
      else if segments = [''api'', ''session''] then Session
      else (case segments of
        [v, p, h] \<Rightarrow> if v = ''v1'' \<and> p = ''prompts'' \<and> h \<noteq> [] then Prompt h else Dashboard
      | [v, p, t, y] \<Rightarrow>
          if v = ''v1'' \<and> p = ''checkpoints'' \<and> t \<noteq> [] \<and> y \<noteq> [] then Checkpoints t y else Dashboard
      | [v, p, t, y, k] \<Rightarrow>
          if v = ''v1'' \<and> p = ''chains'' \<and> t \<noteq> [] \<and> y \<noteq> [] \<and> k = ''summary'' then ChainSummary t y
          else if v = ''v1'' \<and> p = ''chains'' \<and> t \<noteq> [] \<and> y \<noteq> [] \<and> k = ''events'' then Events t y
          else Dashboard
      | _ \<Rightarrow> Dashboard))"

definition METHOD_NOT_ALLOWED :: answer where
  "METHOD_NOT_ALLOWED = answer_of 405 [] []"

definition on_get :: "string \<Rightarrow> ('s \<Rightarrow> ('s \<times> answer) option) \<Rightarrow> 's \<Rightarrow> ('s \<times> answer) option" where
  "on_get method f s =
     (if method = ''GET'' \<or> method = ''HEAD'' then f s else Some (s, METHOD_NOT_ALLOWED))"

text \<open>The routes behind \<open>require_admin\<close>, with every method of theirs, and those open to anyone.\<close>

fun protected_route :: "api_json \<Rightarrow> 's control_state \<Rightarrow> api_request \<Rightarrow> endpoint \<Rightarrow> ('s \<Rightarrow> ('s \<times> answer) option) option" where
  "protected_route J st rq Snapshot = Some (on_get (aq_method rq) (\<lambda>s. Some (snapshot_handler J st s)))"
| "protected_route J st rq (Prompt h) = Some (on_get (aq_method rq) (\<lambda>s. Some (prompt_handler st s h)))"
| "protected_route J st rq ChainList = Some (on_get (aq_method rq) (\<lambda>s. Some (chain_list_handler J st s)))"
| "protected_route J st rq (ChainSummary t y) =
     Some (on_get (aq_method rq) (\<lambda>s. Some (chain_summary_handler J st s t y)))"
| "protected_route J st rq (Events t y) =
     Some (on_get (aq_method rq) (\<lambda>s. events_handler J st s t y (aq_range rq)))"
| "protected_route J st rq _ = None"

definition session_route ::
    "(string \<Rightarrow> string option) \<Rightarrow> (bool \<Rightarrow> string) \<Rightarrow> admin \<Rightarrow> api_request \<Rightarrow> answer" where
  "session_route to_str json_of ad rq =
     (if aq_method rq = ''GET'' \<or> aq_method rq = ''HEAD'' then session_status to_str json_of ad (aq_headers rq)
      else if aq_method rq = ''POST'' then session_create ad (aq_token rq)
      else if aq_method rq = ''DELETE'' then session_delete
      else METHOD_NOT_ALLOWED)"

fun open_route ::
    "(string \<Rightarrow> string option) \<Rightarrow> (bool \<Rightarrow> string) \<Rightarrow> asset_lib \<Rightarrow> api_json \<Rightarrow> admin \<Rightarrow> 's control_state \<Rightarrow>
     api_request \<Rightarrow> endpoint \<Rightarrow> 's \<Rightarrow> ('s \<times> answer) option" where
  "open_route to_str json_of A J ad st rq Healthz s =
     on_get (aq_method rq) (\<lambda>s. Some (s, answer_of 200 [TEXT_TYPE] ''ok'')) s"
| "open_route to_str json_of A J ad st rq (Checkpoints t y) s =
     on_get (aq_method rq) (\<lambda>s. Some (checkpoints_handler J st s t y)) s"
| "open_route to_str json_of A J ad st rq Pubkeys s =
     on_get (aq_method rq) (\<lambda>s. Some (pubkeys_handler J st s)) s"
| "open_route to_str json_of A J ad st rq Session s = Some (s, session_route to_str json_of ad rq)"
| "open_route to_str json_of A J ad st rq _ s =
     on_get (aq_method rq) (\<lambda>s. Some (s, serve_asset A (aq_path rq))) s"

definition router ::
    "(string \<Rightarrow> string option) \<Rightarrow> (bool \<Rightarrow> string) \<Rightarrow> asset_lib \<Rightarrow> api_json \<Rightarrow> admin \<Rightarrow> 's control_state \<Rightarrow>
     api_request \<Rightarrow> 's \<Rightarrow> ('s \<times> answer) option" where
  "router to_str json_of A J ad st rq s =
     (let e = endpoint_of (aq_segments rq) in
      case protected_route J st rq e of
        Some run_next \<Rightarrow> require_admin to_str ad (aq_headers rq) s run_next
      | None \<Rightarrow> open_route to_str json_of A J ad st rq e s)"

section \<open>Lemmas on tokens\<close>

lemma xor_eq_zero: "x XOR y = 0 \<longleftrightarrow> x = (y :: u8)"
proof
  assume "x XOR y = 0"
  then have "(x XOR y) XOR y = y" by simp
  then show "x = y" by (simp add: xor.assoc)
qed simp

lemma admits_fold:
  "foldl (\<lambda>acc (x, y). acc OR (x XOR y)) a ps = (0 :: u8) \<longleftrightarrow> a = 0 \<and> (\<forall>(x, y) \<in> set ps. x = y)"
proof (induction ps arbitrary: a)
  case (Cons p ps)
  show ?case by (cases p) (auto simp: Cons.IH or_eq_0_iff xor_eq_zero)
qed simp

lemma zip_all_eq: "length a = length b \<Longrightarrow> (\<forall>(x, y) \<in> set (zip a b). x = y) \<longleftrightarrow> a = b"
  by (induction a b rule: list_induct2) auto

lemma admits_eq: "admin_admits ad t \<longleftrightarrow> t = ad_token ad"
proof -
  have "admin_admits ad t \<longleftrightarrow> length (str_bytes (ad_token ad)) = length (str_bytes t) \<and>
      str_bytes (ad_token ad) = str_bytes t"
    using zip_all_eq [of "str_bytes (ad_token ad)" "str_bytes t"]
    by (auto simp: admin_admits_def Let_def admits_fold)
  then show ?thesis by auto
qed

lemma takeWhile_cut: "takeWhile (\<lambda>x. x \<noteq> c) (s @ c # r) = takeWhile (\<lambda>x. x \<noteq> c) s"
  by (induction s) auto

section \<open>Properties\<close>

text \<open>
  The comparison that takes the same time wherever the tokens differ is equality: a presented
  token is admitted exactly when it is the operator's, no prefix of it and no extension.
\<close>

theorem admits_exact: "admin_admits ad presented \<longleftrightarrow> presented = ad_token ad"
  by (rule admits_eq)

definition is_content :: "endpoint \<Rightarrow> bool" where
  "is_content e \<longleftrightarrow> (case e of Snapshot \<Rightarrow> True | Prompt _ \<Rightarrow> True | ChainList \<Rightarrow> True
     | ChainSummary _ _ \<Rightarrow> True | Events _ _ \<Rightarrow> True | _ \<Rightarrow> False)"

definition is_attestation :: "endpoint \<Rightarrow> bool" where
  "is_attestation e \<longleftrightarrow> (case e of Healthz \<Rightarrow> True | Checkpoints _ _ \<Rightarrow> True | Pubkeys \<Rightarrow> True | _ \<Rightarrow> False)"

text \<open>
  C13. Content is served to the operator alone: a request for a snapshot, a prompt, the chains, a
  summary or events, whatever its method, is answered by its route exactly when it presents the
  operator's token, and with 401 and nothing read otherwise; checkpoints, keys and liveness answer
  without looking at who asks.
\<close>

theorem content_requires_token:
  assumes "e = endpoint_of (aq_segments rq)"
  shows "(is_content e \<longrightarrow> presented_token to_str (aq_headers rq) \<noteq> Some (ad_token ad) \<longrightarrow>
      router to_str json_of A J ad st rq s = Some (s, answer_of 401 [JSON_TYPE] UNAUTHORIZED_BODY)) \<and>
    (is_content e \<longrightarrow> presented_token to_str (aq_headers rq) = Some (ad_token ad) \<longrightarrow>
      (\<exists>run. protected_route J st rq e = Some run \<and> router to_str json_of A J ad st rq s = run s)) \<and>
    (is_attestation e \<longrightarrow>
      router to_str json_of A J ad st (rq\<lparr>aq_headers := h\<rparr>) s = router to_str json_of A J ad' st rq s)"
proof -
  have run: "router to_str json_of A J ad st rq s =
      (case protected_route J st rq (endpoint_of (aq_segments rq)) of
         Some run_next \<Rightarrow> require_admin to_str ad (aq_headers rq) s run_next
       | None \<Rightarrow> open_route to_str json_of A J ad st rq (endpoint_of (aq_segments rq)) s)" for ad rq
    by (simp add: router_def Let_def)
  have refused: "require_admin to_str ad (aq_headers rq) s f =
      (if presented_token to_str (aq_headers rq) = Some (ad_token ad) then f s
       else Some (s, answer_of 401 [JSON_TYPE] UNAUTHORIZED_BODY))" for f
    by (auto simp: require_admin_def Let_def admits_eq split: option.splits)
  have same: "endpoint_of (aq_segments (rq\<lparr>aq_headers := h\<rparr>)) = e" using assms by simp
  show ?thesis
    unfolding run same assms [symmetric] refused by (cases e) (simp_all add: is_content_def is_attestation_def)
qed

theorem content_requires_token_witness:
  "\<forall>A J st s. router Some (\<lambda>_. []) A J (admin_new ''s3cret'') st
      \<lparr>aq_method = ''GET'', aq_path = ''/v1/snapshot'', aq_segments = [''v1'', ''snapshot''],
       aq_headers = [(''authorization'', ''Basic s3cret'')], aq_range = \<lparr>qr_from = None, qr_to = None\<rparr>, aq_token = []\<rparr> s =
    Some (s, answer_of 401 [JSON_TYPE] UNAUTHORIZED_BODY)"
proof (intro allI)
  fix A J st s
  let ?rq = "\<lparr>aq_method = ''GET'', aq_path = ''/v1/snapshot'', aq_segments = [''v1'', ''snapshot''],
       aq_headers = [(''authorization'', ''Basic s3cret'')], aq_range = \<lparr>qr_from = None, qr_to = None\<rparr>, aq_token = []\<rparr>"
  have "Snapshot = endpoint_of (aq_segments ?rq)" by (simp add: endpoint_of_def)
  moreover have "presented_token Some (aq_headers ?rq) = None"
    by (simp add: presented_token_def presented_bearer_def header_get_def split_once_def non_empty_def
        eq_ignore_ascii_case_def presented_cookie_def)
  ultimately show "router Some (\<lambda>_. []) A J (admin_new ''s3cret'') st ?rq s =
      Some (s, answer_of 401 [JSON_TYPE] UNAUTHORIZED_BODY)"
    using content_requires_token [of Snapshot ?rq Some "admin_new ''s3cret''" "\<lambda>_. []" A J st s]
    by (simp add: is_content_def)
qed

text \<open>
  A session works exactly when the operator's token has no semicolon: the token is exchanged for
  a cookie, and what a browser sends back of that cookie (its first part) is admitted if and only
  if no semicolon cut the token short; with one, the login answers success and every request after
  it is refused.
\<close>

theorem session_reads_back:
  assumes "list_all graphic (ad_token ad)" "ad_token ad \<noteq> []"
    and "to_str (hd (split_on CHR '';'' (session_cookie ad))) = Some (hd (split_on CHR '';'' (session_cookie ad)))"
  shows "session_create ad (ad_token ad) = answer_of 204 [(''set-cookie'', session_cookie ad)] [] \<and>
    ((case presented_token to_str [(''cookie'', hd (split_on CHR '';'' (session_cookie ad)))] of
        None \<Rightarrow> False | Some t \<Rightarrow> admin_admits ad t) \<longleftrightarrow> CHR '';'' \<notin> set (ad_token ad))"
proof -
  obtain t where t_def: "t = takeWhile (\<lambda>c. c \<noteq> CHR '';'') (ad_token ad)" by simp
  obtain c where c_def: "c = SESSION_COOKIE @ CHR ''='' # t" by simp
  have sent: "hd (split_on CHR '';'' (session_cookie ad)) = c"
    unfolding hd_split_on by (simp add: session_cookie_def SESSION_COOKIE_def takeWhile_cut c_def t_def)
  have t: "x \<in> set t \<Longrightarrow> x \<in> set (ad_token ad) \<and> x \<noteq> CHR '';''" for x
    unfolding t_def by (auto dest: set_takeWhileD)
  have "CHR '';'' \<notin> set c" using t [of "CHR '';''"] by (auto simp: c_def SESSION_COOKIE_def)
  then have one: "split_on CHR '';'' c = [c]" by (rule split_on_no)
  have "list_all graphic t" using assms(1) t by (simp add: list_all_iff)
  then have "list_all graphic c" by (simp add: c_def SESSION_COOKIE_def graphic_def)
  then have trim: "trim c = c" by (rule trim_graphic)
  have "split_once CHR ''='' c = Some (SESSION_COOKIE, t)"
    by (simp add: split_once_def c_def SESSION_COOKIE_def)
  then have found: "session_of_cookie c = Some t" by (simp add: session_of_cookie_def trim)
  have "presented_bearer to_str [(''cookie'', c)] = None"
    by (simp add: presented_bearer_def header_get_def non_empty_def)
  moreover have "presented_cookie to_str [(''cookie'', c)] = (if t = [] then None else Some t)"
    using assms(3) one found by (simp add: sent presented_cookie_def header_get_def non_empty_def)
  ultimately have read: "presented_token to_str [(''cookie'', c)] = (if t = [] then None else Some t)"
    by (simp add: presented_token_def)
  have "t = ad_token ad \<longleftrightarrow> CHR '';'' \<notin> set (ad_token ad)"
    using t [of "CHR '';''"] by (auto simp: t_def takeWhile_eq_all_conv)
  then show ?thesis
    using assms(2) trim_graphic [OF assms(1)] read by (auto simp: sent admits_eq session_create_def)
qed

theorem session_reads_back_witness:
  "(case presented_token Some [(''cookie'', hd (split_on CHR '';'' (session_cookie (admin_new ''a;b''))))] of
     None \<Rightarrow> False | Some t \<Rightarrow> admin_admits (admin_new ''a;b'') t) = False"
  using session_reads_back [of "admin_new ''a;b''" Some] by (simp add: admin_new_def graphic_def)

section \<open>The export\<close>

lemma to_jsonl_append:
  "to_jsonl w es = Inr a \<Longrightarrow> to_jsonl w fs = Inr b \<Longrightarrow> to_jsonl w (es @ fs) = Inr (a @ b)"
  by (induction es arbitrary: a) (auto simp: and_then_eq_Inr)

lemma unat_page_end:
  assumes "k < h" "h < 2 ^ 63"
  shows "min (saturating_add64 (of_nat k + 1) (PAGE - 1)) (of_nat h) = of_nat (min (k + 10000) h)"
proof -
  have "saturating_add64 (of_nat k + 1) (PAGE - 1) = of_nat (k + 10000)"
  proof -
    have "unat (of_nat k + 1 :: u64) = Suc k" using assms unat_of_nat64 [of "Suc k"] by (simp add: add.commute)
    moreover have "unat (PAGE - 1) = 9999" by (simp add: PAGE_def)
    ultimately have "unat (of_nat k + 1 :: u64) + unat (PAGE - 1) < 2 ^ 64" using assms by simp
    then show ?thesis unfolding saturating_add64_def by (simp only: if_True) (simp add: PAGE_def)
  qed
  then show ?thesis
    using assms unat_of_nat64 [of h] unat_of_nat64 [of "k + 10000"] by (simp add: min_def word_le_nat_alt)
qed

lemma page_end:
  assumes "pos \<le> bound" "bound < (- 1 :: u64)"
  shows "unat (min (saturating_add64 pos (PAGE - 1)) bound + 1) = min (unat pos + 10000) (Suc (unat bound))"
proof -
  have m: "unat (- 1 :: u64) = 2 ^ 64 - 1" by (simp add: unsigned_minus_1_eq_mask mask_eq_exp_minus_1)
  then have b: "unat bound < 2 ^ 64 - 1" using assms(2) unfolding word_less_nat_alt by simp
  have n: "unat (PAGE - 1) = 9999" by (simp add: PAGE_def)
  have sat: "unat (saturating_add64 pos (PAGE - 1)) = min (unat pos + 9999) (2 ^ 64 - 1)"
  proof (cases "unat pos + unat (PAGE - 1) < 2 ^ 64")
    case True
    then have "unat (pos + (PAGE - 1)) = unat pos + unat (PAGE - 1)" by (simp add: unat_word_ariths)
    then show ?thesis using True n by (simp add: saturating_add64_def)
  next
    case False
    then show ?thesis using n m by (simp add: saturating_add64_def)
  qed
  let ?l = "min (saturating_add64 pos (PAGE - 1)) bound"
  have l: "unat ?l = min (unat pos + 9999) (unat bound)"
    using sat b assms(1) by (auto simp: min_def word_le_nat_alt)
  then have "unat ?l < 2 ^ 64 - 1" using b by simp
  then have "unat (?l + 1) = Suc (unat ?l)" by (simp add: unat_word_ariths)
  then show ?thesis using l assms(1) by (simp add: word_le_nat_alt)
qed

lemma pages_end:
  assumes "bound < - 1"
  shows "\<exists>t chunks ended. pages read w bound s pos = Some (t, chunks, ended) \<and>
    10000 * length chunks < Suc (unat bound) - unat pos + 10000"
proof (induction "Suc (unat bound) - unat pos" arbitrary: s pos rule: less_induct)
  case less
  show ?case
  proof (cases "pos > bound")
    case True
    then show ?thesis by (simp add: pages.simps [of read w bound s pos])
  next
    case False
    let ?l = "min (saturating_add64 pos (PAGE - 1)) bound"
    have le: "unat pos \<le> unat bound" using False by (simp add: word_less_nat_alt)
    have l: "unat (?l + 1) = min (unat pos + 10000) (Suc (unat bound))"
      using page_end [OF _ assms] False by simp
    then have "Suc (unat bound) - unat (?l + 1) < Suc (unat bound) - unat pos" using le by simp
    note again = less [OF this]
    obtain t r where rd: "read s pos ?l = (t, r)" by fastforce
    obtain t' chunks ended where rest: "pages read w bound t (?l + 1) = Some (t', chunks, ended)"
        "10000 * length chunks < Suc (unat bound) - unat (?l + 1) + 10000"
      using again [of t] by blast
    have "10000 * length chunks < Suc (unat bound) - unat pos"
    proof (cases "unat pos + 10000 \<le> Suc (unat bound)")
      case True
      then show ?thesis using rest(2) l by simp
    next
      case False
      then have "Suc (unat bound) - unat (?l + 1) = 0" using l by simp
      then have "10000 * length chunks < 10000" using rest(2) by simp
      then show ?thesis using le by simp
    qed
    then show ?thesis
      unfolding pages.simps [of read w bound s pos]
      using False rd rest by (auto simp: Let_def split: sum.splits)
  qed
qed

text \<open>
  What the export promises: a range of the store's rows, in order, as they stood or grew while the
  pages were read.
\<close>

locale chain_export =
  fixes lawful :: "'c \<Rightarrow> bool"
    and fetch_events :: "'c \<Rightarrow> 's \<Rightarrow> chain_id \<Rightarrow> u64 \<Rightarrow> u64 \<Rightarrow> 's \<times> (audit_event list, control_error) result"
    and rows :: "'c \<Rightarrow> 's \<Rightarrow> audit_event_row list"
    and means :: "'c \<Rightarrow> audit_event_row \<Rightarrow> audit_event \<Rightarrow> bool"
  assumes fetch_keep: "lawful c \<Longrightarrow> fetch_events c s ch a b = (s', r) \<Longrightarrow> grown (rows c s) (rows c s')"
    and fetch_slice: "lawful c \<Longrightarrow> fetch_events c s ch (of_nat k + 1) (of_nat h) = (s', Inr es) \<Longrightarrow>
      numbered (rows c s') \<Longrightarrow> k \<le> h \<Longrightarrow> h \<le> length (chain_rows ch (rows c s')) \<Longrightarrow>
      list_all2 (means c) (take (h - k) (drop k (chain_rows ch (rows c s')))) es"
begin

lemma grown_numbered: "grown r r' \<Longrightarrow> numbered r \<Longrightarrow> numbered r'"
  by (simp add: grown_def)

lemma grown_slice:
  assumes "grown r r'" "h \<le> length (chain_rows ch r)"
  shows "take (h - k) (drop k (chain_rows ch r')) = take (h - k) (drop k (chain_rows ch r))"
    and "length (chain_rows ch r) \<le> length (chain_rows ch r')"
proof -
  obtain new where "chain_rows ch r' = chain_rows ch r @ new" using grown_chain [OF assms(1)] .
  then show "take (h - k) (drop k (chain_rows ch r')) = take (h - k) (drop k (chain_rows ch r))"
    "length (chain_rows ch r) \<le> length (chain_rows ch r')"
    using assms(2) by (auto simp: take_drop)
qed

lemma pages_slice:
  assumes "lawful c" "numbered (rows c s)" "k \<le> h" "h \<le> length (chain_rows ch (rows c s))"
    and "pages (\<lambda>s. fetch_events c s ch) w (of_nat h) s (of_nat k + 1) = Some (s', chunks, ended)"
  shows "grown (rows c s) (rows c s') \<and> (\<exists>m es. k \<le> m \<and> m \<le> h \<and> (ended = None \<longrightarrow> m = h) \<and>
    list_all2 (means c) (take (m - k) (drop k (chain_rows ch (rows c s)))) es \<and>
    to_jsonl w es = Inr (concat chunks))"
  using assms(2-)
proof (induction "h - k" arbitrary: s k chunks rule: less_induct)
  case less
  have h63: "h < 2 ^ 63" using less.prems(1,3) numbered_length [of "rows c s" ch] by linarith
  have nat: "unat (of_nat h :: u64) = h" "unat (of_nat k + 1 :: u64) = Suc k"
    using unat_of_nat64 [of h] unat_of_nat64 [of "Suc k"] h63 less.prems(2) by (simp_all add: add.commute)
  show ?case
  proof (cases "k = h")
    case True
    then have "(of_nat k + 1 :: u64) > of_nat h" using nat by (simp add: word_less_nat_alt)
    then have "s' = s" "chunks = []" "ended = None"
      using less.prems(4) by (simp_all add: pages.simps [of "\<lambda>s. fetch_events c s ch"])
    then show ?thesis using True by (auto intro!: exI [of _ k] exI [of _ "[]"])
  next
    case False
    let ?m = "min (k + 10000) h"
    have kh: "k < h" using False less.prems(2) by simp
    have not_done: "\<not> (of_nat k + 1 :: u64) > of_nat h" using nat kh by (simp add: word_less_nat_alt)
    obtain t r where rd: "fetch_events c s ch (of_nat k + 1) (of_nat ?m) = (t, r)" by fastforce
    have gr: "grown (rows c s) (rows c t)" by (rule fetch_keep [OF assms(1) rd])
    note run = less.prems(4) [unfolded pages.simps [of "\<lambda>s. fetch_events c s ch" w "of_nat h" s] Let_def
        unat_page_end [OF kh h63] rd prod.case if_not_P [OF not_done]]
    show ?thesis
    proof (cases r)
      case (Inl e)
      then show ?thesis using run gr kh by (auto intro!: exI [of _ k] exI [of _ "[]"])
    next
      case (Inr es)
      have m: "k \<le> ?m" "?m \<le> length (chain_rows ch (rows c s))" using kh less.prems(3) by auto
      then have "?m \<le> length (chain_rows ch (rows c t))" using grown_slice(2) [OF gr m(2)] by simp
      from fetch_slice [OF assms(1) rd [unfolded Inr] grown_numbered [OF gr less.prems(1)] m(1) this]
      have es: "list_all2 (means c) (take (?m - k) (drop k (chain_rows ch (rows c s)))) es"
        unfolding grown_slice(1) [OF gr m(2)] .
      have "es \<noteq> []" using list_all2_lengthD [OF es] kh less.prems(3) by auto
      note run = run [unfolded Inr sum.case if_not_P [OF this]]
      show ?thesis
      proof (cases "to_jsonl w es")
        case (Inl e)
        then show ?thesis using run gr kh by (auto intro!: exI [of _ k] exI [of _ "[]"])
      next
        case (Inr bytes)
        then obtain cs where rest: "pages (\<lambda>s. fetch_events c s ch) w (of_nat h) t (of_nat ?m + 1) = Some (s', cs, ended)"
            "chunks = bytes # cs"
          using run by (auto simp: bind_eq_Some_conv)
        have len: "h \<le> length (chain_rows ch (rows c t))" using grown_slice(2) [OF gr less.prems(3)] less.prems(3) by simp
        have "h - ?m < h - k" "?m \<le> h" using kh by auto
        from less.hyps [OF this(1) grown_numbered [OF gr less.prems(1)] this(2) len rest(1)]
        obtain m fs where IH: "grown (rows c t) (rows c s')" "?m \<le> m" "m \<le> h" "ended = None \<longrightarrow> m = h"
            "list_all2 (means c) (take (m - ?m) (drop ?m (chain_rows ch (rows c t)))) fs"
            "to_jsonl w fs = Inr (concat cs)"
          by blast
        have "m \<le> length (chain_rows ch (rows c s))" using IH(3) less.prems(3) by simp
        then have fs: "list_all2 (means c) (take (m - ?m) (drop ?m (chain_rows ch (rows c s)))) fs"
          using IH(5) grown_slice(1) [OF gr, of m] by simp
        have "m - k = (?m - k) + (m - ?m)" using m(1) IH(2) by simp
        then have "take (m - k) (drop k (chain_rows ch (rows c s))) =
            take (?m - k) (drop k (chain_rows ch (rows c s))) @ take (m - ?m) (drop ?m (chain_rows ch (rows c s)))"
          using m(1) by (simp only: take_add drop_drop le_add_diff_inverse2)
        then have "list_all2 (means c) (take (m - k) (drop k (chain_rows ch (rows c s)))) (es @ fs)"
          using list_all2_appendI [OF es fs] by simp
        moreover have "to_jsonl w (es @ fs) = Inr (concat chunks)"
          using to_jsonl_append [OF Inr IH(6)] rest(2) by simp
        ultimately show ?thesis
          using IH(1-4) gr m(1) grown_trans
          by (intro conjI exI [of _ m] exI [of _ "es @ fs"]) (auto intro: grown_trans)
      qed
    qed
  qed
qed

end

text \<open>ClickHouse provides it, where the rows of a range come in the order of their positions.\<close>

record 's export_view =
  ev_view :: "'s control_view"
  ev_dbg :: "string \<Rightarrow> string"
  ev_print :: "chain_id \<Rightarrow> ingest_error \<Rightarrow> string"

definition export_lawful :: "'s export_view \<Rightarrow> bool" where
  "export_lawful X \<longleftrightarrow> control_lawful (ev_view X) \<and>
     (\<forall>s s' c a b r. cc_events (vw_click (ev_view X)) s (cid_tenant_id c) (cid_system_id c) a b = (s', r) \<longrightarrow>
        view_keeps (ev_view X) s s' \<and> (\<forall>rs. r = Inr rs \<longrightarrow> rs = rows_between c a b (vw_rows (ev_view X) s')))"

definition view_events ::
    "'s export_view \<Rightarrow> 's \<Rightarrow> chain_id \<Rightarrow> u64 \<Rightarrow> u64 \<Rightarrow> 's \<times> (audit_event list, control_error) result" where
  "view_events X = click_events (ev_dbg X) (ev_print X) (vw_click (ev_view X))"

interpretation click_export: chain_export export_lawful view_events "\<lambda>X. vw_rows (ev_view X)"
  "\<lambda>X r e. event_of_row (ev_dbg X) r = Inr e"
proof unfold_locales
  fix X :: "'s export_view" and s s' :: 's and ch :: chain_id
  assume X: "export_lawful X"
  {
    fix a b r
    assume ev: "view_events X s ch a b = (s', r)"
    obtain t q where q: "cc_events (vw_click (ev_view X)) s (cid_tenant_id ch) (cid_system_id ch) a b = (t, q)"
      by fastforce
    have law: "view_keeps (ev_view X) s t" "\<And>rs. q = Inr rs \<Longrightarrow> rs = rows_between ch a b (vw_rows (ev_view X) t)"
      using X q unfolding export_lawful_def by blast+
    have t: "s' = t" "r = (case q of Inl e \<Rightarrow> Inl (Db e)
        | Inr rs \<Rightarrow> try_map (\<lambda>r. map_err (\<lambda>e. Db (ev_print X ch e)) (event_of_row (ev_dbg X) r)) rs)"
      using ev q by (cases q; simp add: view_events_def click_events_def)+
    have "grown (vw_rows (ev_view X) s) (vw_rows (ev_view X) s')" using law(1) t(1) by (simp add: view_keeps_def)
    moreover have "list_all2 (\<lambda>r e. event_of_row (ev_dbg X) r = Inr e) (rows_between ch a b (vw_rows (ev_view X) s')) es"
      if "r = Inr es" for es
    proof -
      have "try_map (\<lambda>r. map_err (\<lambda>e. Db (ev_print X ch e)) (event_of_row (ev_dbg X) r))
          (rows_between ch a b (vw_rows (ev_view X) s')) = Inr es"
        using law(2) t that by (cases q) auto
      then show ?thesis by (simp add: try_map_list_all2)
    qed
    ultimately have "grown (vw_rows (ev_view X) s) (vw_rows (ev_view X) s') \<and> (\<forall>es. r = Inr es \<longrightarrow>
        list_all2 (\<lambda>r e. event_of_row (ev_dbg X) r = Inr e) (rows_between ch a b (vw_rows (ev_view X) s')) es)"
      by blast
  }
  note read = this
  show "view_events X s ch a b = (s', r) \<Longrightarrow> grown (vw_rows (ev_view X) s) (vw_rows (ev_view X) s')" for a b r
    using read by blast
  fix k h es
  assume "view_events X s ch (of_nat k + 1) (of_nat h) = (s', Inr es)" "numbered (vw_rows (ev_view X) s')"
    "k \<le> h" "h \<le> length (chain_rows ch (vw_rows (ev_view X) s'))"
  then show "list_all2 (\<lambda>r e. event_of_row (ev_dbg X) r = Inr e)
      (take (h - k) (drop k (chain_rows ch (vw_rows (ev_view X) s')))) es"
    using read [of "of_nat k + 1" "of_nat h" "Inr es"] rows_between_numbered by simp
qed

text \<open>What the verifier's reader relies on: one line of JSON for an event, read back as it was.\<close>

definition json_lines_lawful ::
    "(audit_event \<Rightarrow> (string, string) result) \<Rightarrow> (string \<Rightarrow> (audit_event, string) result) \<Rightarrow> bool" where
  "json_lines_lawful to_writer parse \<longleftrightarrow> (\<forall>e line. to_writer e = Inr line \<longrightarrow> parse line = Inr e \<and>
     list_all (\<lambda>c. c \<noteq> CHR 0x0A \<and> c \<noteq> CHR 0x0D) line \<and> trim line \<noteq> [])"

lemma lines_cons:
  assumes "list_all (\<lambda>c. c \<noteq> CHR 0x0A \<and> c \<noteq> CHR 0x0D) line"
  shows "lines (line @ CHR 0x0A # rest) = line # lines rest"
proof -
  have nl: "CHR 0x0A \<notin> set line" using assms by (auto simp: list_all_iff)
  have cut: "takeWhile (\<lambda>c. c \<noteq> CHR 0x0A) (line @ CHR 0x0A # rest) = line"
    "dropWhile (\<lambda>c. c \<noteq> CHR 0x0A) (line @ CHR 0x0A # rest) = CHR 0x0A # rest"
    using nl by (induction line) auto
  have "CHR 0x0D \<notin> set line" using assms by (auto simp: list_all_iff)
  then have "line = [] \<or> last line \<noteq> CHR 0x0D" by (metis last_in_set)
  then have l: "(if line \<noteq> [] \<and> last line = CHR 0x0D then butlast line else line) = line" by auto
  show ?thesis unfolding lines.simps [of "line @ CHR 0x0A # rest"] Let_def cut l by simp
qed

lemma read_jsonl:
  assumes "json_lines_lawful w parse" "to_jsonl w es = Inr out"
  shows "read_events path (Inr out) parse = Inr es"
proof -
  have "\<exists>ls. lines out = ls \<and> list_all2 (\<lambda>l e. parse l = Inr e \<and> trim l \<noteq> []) ls es"
    using assms(2)
  proof (induction es arbitrary: out)
    case Nil
    then show ?case by (simp add: lines.simps [of "[]"])
  next
    case (Cons e es)
    then obtain line rest where l: "w e = Inr line" "to_jsonl w es = Inr rest" "out = line @ CHR 0x0A # rest"
      by (auto simp: and_then_eq_Inr)
    have "parse line = Inr e" "list_all (\<lambda>c. c \<noteq> CHR 0x0A \<and> c \<noteq> CHR 0x0D) line" "trim line \<noteq> []"
      using assms(1) l(1) unfolding json_lines_lawful_def by blast+
    then show ?case using Cons.IH [OF l(2)] l(3) lines_cons [of line rest] by auto
  qed
  then have ls: "list_all2 (\<lambda>l e. parse l = Inr e \<and> trim l \<noteq> []) (lines out) es" by blast
  have "filter (\<lambda>(i, l). trim l \<noteq> []) (enumerate 0 (lines out)) = enumerate 0 (lines out)"
    using ls by (auto simp: filter_id_conv in_set_enumerate_eq list_all2_conv_all_nth)
  moreover have "try_map (\<lambda>(i, l). map_err (\<lambda>e. path @ '', line '' @ dec_nat (i + 1) @ '': '' @ e) (parse l))
      (enumerate 0 (lines out)) = Inr es"
    using ls by (auto simp: try_map_list_all2 list_all2_conv_all_nth nth_enumerate_eq)
  ultimately show ?thesis by (simp add: read_events_def)
qed

lemma chained_take: "chained P q prev es \<Longrightarrow> chained P q prev (take n es)"
proof (induction es arbitrary: n q prev)
  case (Cons e es)
  then show ?case by (cases n) auto
qed simp

lemma good_take:
  assumes "good P es"
  shows "good P (take n es)"
proof (cases "n \<le> length es")
  case True
  have "map ae_seq (take n es) = map of_nat (take n [1..<Suc (length es)])"
    using assms by (simp add: good_def take_map [symmetric] del: upt_Suc)
  also have "take n [1..<Suc (length es)] = [1..<Suc n]" using True by (simp add: take_upt del: upt_Suc)
  finally show ?thesis using assms True chained_take by (simp add: good_def min_def del: upt_Suc)
qed (use assms in simp)

lemma events_handler_whole:
  assumes "ca_head_seq (ct_chains st) s \<lparr>cid_tenant_id = t, cid_system_id = y\<rparr> = (s1, q)"
  obtains (failed) e where "q = Inl e"
      "events_handler J st s t y \<lparr>qr_from = None, qr_to = None\<rparr> = Some (s1, api_error_answer (ApiControl e))"
  | (streamed) h hs where "q = Inr h"
      "events_handler J st s t y \<lparr>qr_from = None, qr_to = None\<rparr> =
        Option.bind (pages (\<lambda>s. ca_events (ct_chains st) s \<lparr>cid_tenant_id = t, cid_system_id = y\<rparr>) (aj_event J)
          (case h of None \<Rightarrow> 0 | Some x \<Rightarrow> x) s1 1)
          (\<lambda>(s, chunks, ended). Some (s, \<lparr>an_status = 200, an_headers = hs, an_chunks = chunks, an_cut = ended\<rparr>))"
proof (cases q)
  case (Inl e)
  then show ?thesis using assms by (intro failed) (simp_all add: events_handler_def)
next
  case (Inr h)
  show ?thesis
    by (rule streamed [OF Inr]) (simp only: events_handler_def assms Let_def Inr prod.case sum.case query_range.simps
        option.case max.idem min.idem)
qed

end
