(* ===== verification/Export.thy ===== *)
theory Export
  imports Api
begin

text \<open>
  From the export endpoint of the control plane to the auditor's verifier.
\<close>

lemma rows_of_stored:
  "list_all2 (\<lambda>r e. event_of_row dbg r = Inr e) (map row_of xs) es \<Longrightarrow> es = map stored_form xs"
  by (induction xs arbitrary: es) (auto simp: list_all2_Cons1 event_of_row_of)

text \<open>
  C6. What the export endpoint serves verifies as a chain: over a gapless store whose chains verify, a
  complete answer for a whole chain is read by the verifier as events that are a prefix of the
  chain as it stands at the end, at least as long as the chain was when it was asked for, and
  they verify from genesis.
\<close>

theorem export_verifies:
  assumes "export_lawful X" "json_lines_lawful (aj_event J) parse"
    and "ca_head_seq (ct_chains st) = click_head_seq (vw_click (ev_view X))"
    and "ca_events (ct_chains st) = view_events X"
    and "events_handler J st s t y \<lparr>qr_from = None, qr_to = None\<rparr> = Some (s', a)"
    and "an_status a = 200" "an_cut a = None"
    and "numbered (vw_rows (ev_view X) s)" "store_holds P base (vw_rows (ev_view X) s')"
  shows "\<exists>es. read_events path (Ok (concat (an_chunks a))) parse = Ok es \<and>
    prefix es (map stored_form (base \<lparr>cid_tenant_id = t, cid_system_id = y\<rparr>)) \<and>
    length (filter (of_chain \<lparr>cid_tenant_id = t, cid_system_id = y\<rparr>) (vw_rows (ev_view X) s)) \<le> length es \<and>
    is_clean (verify_range P es GENESIS)"
proof -
  let ?c = "\<lparr>cid_tenant_id = t, cid_system_id = y\<rparr>" and ?V = "ev_view X"
  let ?R = "vw_rows (ev_view X)"
  have V: "control_lawful ?V" using assms(1) by (simp add: export_lawful_def)
  obtain s1 q where h: "click_head_seq (vw_click ?V) s ?c = (s1, q)" by fastforce
  have "ca_head_seq (ct_chains st) s ?c = (s1, q)" by (simp only: assms(3) h)
  then obtain hd' chunks where hd': "q = Inr hd'" and body: "an_chunks a = chunks"
    and pg: "pages (\<lambda>s. view_events X s ?c) (aj_event J) (case hd' of None \<Rightarrow> 0 | Some x \<Rightarrow> x) s1 1 = Some (s', chunks, None)"
  proof (cases rule: events_handler_whole [where J = J])
    case (failed e)
    then show ?thesis using assms(5,6) by (simp add: answer_of_def)
  next
    case (streamed h hs)
    note streamed(2) [unfolded assms(4,5), symmetric, unfolded bind_eq_Some_conv]
    then show ?thesis using assms(7) by (intro that [OF streamed(1)]) auto
  qed
  have hs: "so_head_seq (view_source ?V) s ?c = (s1, Inr hd')" by (simp add: view_source_def click_source_def h hd')
  have g1: "grown (?R s) (?R s1)" using clicks.head_keep [OF V hs] by simp
  let ?h = "case hd' of None \<Rightarrow> 0 | Some x \<Rightarrow> x"
  have n1: "numbered (?R s1)" using g1 assms(8) by (simp add: grown_def)
  let ?n = "length (chain_rows ?c (?R s1))"
  have "max_seq (chain_rows ?c (?R s1)) hd'" using clicks.head_read [OF V hs] .
  from max_seq_numbered [OF n1 this] have h_eq: "?h = of_nat ?n" by auto
  have "pages (\<lambda>s. view_events X s ?c) (aj_event J) (of_nat ?n) s1 (of_nat 0 + 1) = Some (s', chunks, None)"
    using pg by (simp add: h_eq)
  from click_export.pages_slice [OF assms(1) n1 _ _ this]
  obtain es where g2: "grown (?R s1) (?R s')"
    and es: "list_all2 (\<lambda>r e. event_of_row (ev_dbg X) r = Inr e) (chain_rows ?c (?R s1)) es"
    and out: "to_jsonl (aj_event J) es = Inr (concat chunks)"
    by auto
  obtain new where new: "chain_rows ?c (?R s') = chain_rows ?c (?R s1) @ new" using grown_chain [OF g2] .
  have rows': "chain_rows ?c (?R s') = map row_of (base ?c)" and gd: "good P (base ?c)"
    using assms(9) by (simp_all add: store_holds_def chain_rows_def)
  have rows1: "chain_rows ?c (?R s1) = map row_of (take ?n (base ?c))"
    using new rows' by (metis append_eq_conv_conj take_map)
  have "list_all2 (\<lambda>r e. event_of_row (ev_dbg X) r = Inr e) (map row_of (take ?n (base ?c))) es"
    by (rule subst [OF rows1, of "\<lambda>rs. list_all2 _ rs es"], rule es)
  then have es_eq: "es = map stored_form (take ?n (base ?c))" by (rule rows_of_stored)
  have "prefix es (map stored_form (base ?c))" unfolding es_eq take_map [symmetric] by (rule take_is_prefix)
  moreover have "length (filter (of_chain ?c) (?R s)) \<le> length es"
  proof -
    have "length es = ?n" using list_all2_lengthD [OF es] by simp
    moreover have "length (chain_rows ?c (?R s)) \<le> ?n" using click_export.grown_slice(2) [OF g1, of 0 ?c] by simp
    ultimately show ?thesis by (simp only: chain_rows_def)
  qed
  moreover have "is_clean (verify_range P es GENESIS)"
    using good_take [OF gd, of ?n] good_stored [of P "take ?n (base ?c)"] by (simp add: es_eq is_clean_iff good_def)
  ultimately show ?thesis using read_jsonl [OF assms(2) out] body by blast
qed

definition demo_writer :: "audit_event \<Rightarrow> (string, string) result" where
  "demo_writer e = (if e = stored_form (demo_event 1 5 GENESIS) then Ok ''x'' else Err ''unknown'')"

definition demo_reader :: "string \<Rightarrow> (audit_event, string) result" where
  "demo_reader line = Ok (stored_form (demo_event 1 5 GENESIS))"

definition demo_json :: api_json where
  "demo_json = \<lparr>aj_envelope = (\<lambda>_. []), aj_listings = (\<lambda>_. []), aj_summary = (\<lambda>_. []),
     aj_checkpoints = (\<lambda>_. []), aj_keys = (\<lambda>_. []), aj_event = demo_writer\<rparr>"

definition demo_export :: "demo_control export_view" where
  "demo_export = \<lparr>ev_view = demo_control, ev_dbg = (\<lambda>x. x), ev_print = (\<lambda>_ _. [])\<rparr>"

definition demo_state :: "demo_control control_state" where
  "demo_state = \<lparr>ct_snapshots = \<lparr>sa_current = (\<lambda>s. (s, Err (Db []))), sa_prompt = (\<lambda>s h. (s, Ok None))\<rparr>,
     ct_checkpoints = view_store demo_control, ct_keys = (\<lambda>s. (s, Ok [])),
     ct_chains = \<lparr>ca_head_seq = click_head_seq (vw_click (ev_view demo_export)), ca_events = view_events demo_export,
       ca_listings = (\<lambda>s. (s, Ok [])), ca_summary = (\<lambda>s c. (s, Err (Db [])))\<rparr>\<rparr>"

lemma demo_export_lawful: "export_lawful demo_export"
  using demo_control_lawful
  by (simp add: export_lawful_def demo_export_def view_keeps_def) (simp add: demo_control_def view_keeps_def)

lemma demo_json_lawful: "json_lines_lawful (aj_event demo_json) demo_reader"
proof -
  have "trim ''x'' = ''x''" by (rule trim_graphic) (simp add: graphic_def)
  then show ?thesis
    by (simp add: json_lines_lawful_def demo_json_def demo_writer_def demo_reader_def split: if_splits)
qed

lemma demo_range_row:
  "chain_rows (demo_chain ''t'' ''s'') demo_sealed_rows = demo_sealed_rows"
  "rows_between (demo_chain ''t'' ''s'') 1 1 demo_sealed_rows = demo_sealed_rows"
  "r_seq ` set demo_sealed_rows = {1}" "demo_sealed_rows \<noteq> []"
proof -
  show rows: "chain_rows (demo_chain ''t'' ''s'') demo_sealed_rows = demo_sealed_rows"
    by (simp add: chain_rows_def demo_sealed_rows_def of_chain_row_of chain_of_def demo_emitted_def demo_chain_def)
  show "rows_between (demo_chain ''t'' ''s'') 1 1 demo_sealed_rows = demo_sealed_rows"
    by (simp add: rows_between_def rows) (simp add: demo_sealed_rows_def row_of_def Let_def)
qed (simp_all add: demo_sealed_rows_def row_of_def Let_def)

lemma demo_head:
  "click_head_seq (vw_click (ev_view demo_export)) (demo_sealed_rows, []) (demo_chain ''t'' ''s'') =
    ((demo_sealed_rows, []), Ok (Some 1))"
  by (simp add: demo_export_def demo_control_def click_head_seq_def demo_chain_def [symmetric] demo_range_row)

lemma demo_page:
  "view_events demo_export (demo_sealed_rows, []) (demo_chain ''t'' ''s'') 1 1 =
    ((demo_sealed_rows, []), Ok [stored_form (demo_event 1 5 GENESIS)])"
  by (simp add: demo_export_def demo_control_def view_events_def click_events_def demo_chain_def [symmetric] demo_range_row)
    (simp add: demo_sealed_rows_def event_of_row_of)

lemma demo_exports:
  "\<exists>a. events_handler demo_json demo_state (demo_sealed_rows, []) ''t'' ''s'' \<lparr>qr_from = None, qr_to = None\<rparr> =
    Some ((demo_sealed_rows, []), a) \<and> an_status a = 200 \<and> an_cut a = None"
proof -
  have first: "min (saturating_add64 1 (PAGE - 1)) 1 = (1 :: u64)"
    by (simp add: saturating_add64_def PAGE_def)
  have "pages (\<lambda>s. view_events demo_export s (demo_chain ''t'' ''s'')) demo_writer 1 (demo_sealed_rows, []) 1 =
      Some ((demo_sealed_rows, []), [''x'' @ [CHR 0x0A]], None)"
    unfolding pages.simps [of _ _ 1 _ 1] Let_def first demo_page
    by (simp add: demo_writer_def pages.simps [of _ _ 1 _ 2])
  then show ?thesis
    by (simp add: events_handler_def demo_state_def demo_json_def demo_chain_def [symmetric] demo_head)
qed

theorem export_verifies_witness:
  "\<exists>a es. events_handler demo_json demo_state (demo_sealed_rows, []) ''t'' ''s'' \<lparr>qr_from = None, qr_to = None\<rparr> =
      Some ((demo_sealed_rows, []), a) \<and>
    read_events [] (Ok (concat (an_chunks a))) demo_reader = Ok es \<and> length es = 1 \<and>
    is_clean (verify_range chain_prims es GENESIS)"
proof -
  obtain a where a: "events_handler demo_json demo_state (demo_sealed_rows, []) ''t'' ''s'' \<lparr>qr_from = None, qr_to = None\<rparr> =
      Some ((demo_sealed_rows, []), a)" "an_status a = 200" "an_cut a = None"
    using demo_exports by blast
  have rows: "vw_rows (ev_view demo_export) (demo_sealed_rows, []) = demo_sealed_rows"
    by (simp add: demo_export_def demo_control_def)
  have n: "numbered (vw_rows (ev_view demo_export) (demo_sealed_rows, []))"
    unfolding rows using store_holds_numbered [OF demo_one_good] by (simp add: demo_sealed_rows_def)
  have len: "length (filter (of_chain (demo_chain ''t'' ''s'')) demo_sealed_rows) = 1"
    using demo_one_good by (simp add: store_holds_def)
  have "store_holds chain_prims (\<lambda>c. if c = demo_chain ''t'' ''s'' then [demo_event 1 5 GENESIS] else [])
      (vw_rows (ev_view demo_export) (demo_sealed_rows, []))"
    unfolding rows by (rule demo_one_good)
  from export_verifies [OF demo_export_lawful demo_json_lawful _ _ a n this, of "[]"]
  obtain es where es: "read_events [] (Ok (concat (an_chunks a))) demo_reader = Ok es"
      "prefix es (map stored_form [demo_event 1 5 GENESIS])" "1 \<le> length es"
      "is_clean (verify_range chain_prims es GENESIS)"
    using len unfolding rows by (auto simp: demo_state_def demo_chain_def [symmetric])
  have "length es = 1" using prefix_length_le [OF es(2)] es(3) by simp
  then show ?thesis using a(1) es(1,4) by blast
qed

text \<open>
  C33. An export ends: however the store grows or fails while its pages are read, the answer has no
  more chunks than the range asked for (clamped to the chain, from its first event to its head when
  it was asked) has pages of ten thousand (a page without events
  sends none). The one condition: the head and the end asked for (the head, where none is) are not both
  \<open>u64::MAX\<close>.
\<close>

theorem export_ends:
  assumes "ca_head_seq (ct_chains st) s \<lparr>cid_tenant_id = t, cid_system_id = y\<rparr> = (s1, q)"
    and "q = Ok (Some (- 1)) \<Longrightarrow> \<exists>x. qr_to rng = Some x \<and> x \<noteq> - 1"
  shows "\<exists>s' a. events_handler J st s t y rng = Some (s', a) \<and>
    (\<forall>h. q = Ok h \<longrightarrow>
      (let head = (case h of None \<Rightarrow> 0 | Some x \<Rightarrow> x);
           first = max (case qr_from rng of None \<Rightarrow> 1 | Some x \<Rightarrow> x) 1;
           final = min (case qr_to rng of None \<Rightarrow> head | Some x \<Rightarrow> x) head;
           asked = Suc (unat final) - unat first
       in 10000 * length (an_chunks a) < asked + 10000))"
proof (cases q)
  case (Inl e)
  then show ?thesis using assms by (simp add: events_handler_def)
next
  case (Inr hd')
  let ?h = "case hd' of None \<Rightarrow> 0 | Some x \<Rightarrow> x"
  let ?b = "min (case qr_to rng of None \<Rightarrow> ?h | Some x \<Rightarrow> x) ?h"
  let ?p = "max (case qr_from rng of None \<Rightarrow> 1 | Some x \<Rightarrow> x) (1 :: u64)"
  have "?b \<noteq> - 1"
    using assms(2) Inr by (auto simp: min_def word_order.extremum_unique split: option.splits if_splits)
  then have b: "?b < - 1" by (simp add: word_order.not_eq_extremum)
  obtain s' chunks ended where pg: "pages (\<lambda>s. ca_events (ct_chains st) s \<lparr>cid_tenant_id = t, cid_system_id = y\<rparr>)
      (aj_event J) ?b s1 ?p = Some (s', chunks, ended)" "10000 * length chunks < Suc (unat ?b) - unat ?p + 10000"
    using pages_end [OF b, of "\<lambda>s. ca_events (ct_chains st) s \<lparr>cid_tenant_id = t, cid_system_id = y\<rparr>"
      "aj_event J" s1 ?p] by blast
  then show ?thesis by (auto simp: events_handler_def assms(1) Inr Let_def)
qed

theorem export_ends_witness:
  "\<exists>s' a. events_handler demo_json demo_state (demo_sealed_rows, []) ''t'' ''s'' \<lparr>qr_from = Some 2, qr_to = None\<rparr> =
    Some (s', a) \<and> an_chunks a = []"
proof -
  have "ca_head_seq (ct_chains demo_state) (demo_sealed_rows, []) \<lparr>cid_tenant_id = ''t'', cid_system_id = ''s''\<rparr> =
      ((demo_sealed_rows, []), Ok (Some 1))"
    using demo_head by (simp add: demo_state_def demo_chain_def)
  from export_ends [OF this, of "\<lparr>qr_from = Some 2, qr_to = None\<rparr>" demo_json] show ?thesis by simp
qed

end
