(* ===== verification/Sink.thy ===== *)
theory Sink
  imports Telemetry Bus Publish
begin

text \<open>
  \<open>crates/ancre-gateway/src/bus.rs\<close>: the subjects of a gateway's events and the sink that publishes
  a batch on JetStream; and the batcher of \<open>Telemetry\<close> over that sink.

  JetStream is the record of \<open>Publish\<close>: sending a message gives a handle, awaiting the handle is
  its acknowledgement. The text of a \<open>Uuid\<close> and the JSON of an event are arguments.
\<close>

section \<open>The stream and its subjects\<close>

definition SINK_STREAM :: string where
  "SINK_STREAM = ''ANCRE_EVENTS''"

definition SINK_SUBJECT_ROOT :: string where
  "SINK_SUBJECT_ROOT = ''ancre.events''"

definition sanitise :: "string \<Rightarrow> string" where
  "sanitise token = (let cleaned = token_text token in if cleaned = [] then ''_'' else cleaned)"

definition subject_for :: "string \<Rightarrow> string \<Rightarrow> string" where
  "subject_for tenant_id system_id =
     SINK_SUBJECT_ROOT @ ''.'' @ sanitise tenant_id @ ''.'' @ sanitise system_id"

text \<open>
  The configuration both ends hand to \<open>get_or_create_stream\<close>; what they leave out is the default of
  the client. Durations are nanoseconds.
\<close>

datatype retention = Limits | WorkQueue
datatype storage = FileStorage | MemoryStorage

record stream_config =
  sm_name :: string
  sm_subjects :: "string list"
  sm_retention :: retention
  sm_storage :: storage
  sm_max_age :: nat
  sm_duplicate_window :: nat

definition gateway_stream :: stream_config where
  "gateway_stream =
     \<lparr>sm_name = SINK_STREAM, sm_subjects = [SINK_SUBJECT_ROOT @ ''.>''], sm_retention = Limits,
      sm_storage = FileStorage, sm_max_age = 7 * 24 * 3600 * 10 ^ 9, sm_duplicate_window = 300 * 10 ^ 9\<rparr>"

definition ingester_stream :: stream_config where
  "ingester_stream =
     \<lparr>sm_name = STREAM, sm_subjects = [SUBJECT_ROOT @ ''.>''], sm_retention = Limits,
      sm_storage = FileStorage, sm_max_age = 7 * 24 * 3600 * 10 ^ 9, sm_duplicate_window = 300 * 10 ^ 9\<rparr>"

section \<open>Publishing\<close>

datatype sink_error = Unavailable string

fun send_all ::
    "(uuid \<Rightarrow> string) \<Rightarrow> (emitted_event \<Rightarrow> (string, string) result) \<Rightarrow> ('s, 'a) jetstream \<Rightarrow> 's \<Rightarrow>
     emitted_event list \<Rightarrow> 's \<times> ('a list, sink_error) result" where
  "send_all id_text to_vec J s [] = (s, Ok [])"
| "send_all id_text to_vec J s (event # batch) =
     then_do (s, map_err (\<lambda>e. Unavailable (''encoding event: '' @ e)) (to_vec event)) (\<lambda>s payload.
     then_do (do_err Unavailable (js_send J s (subject_for (e_tenant_id event) (e_system_id event))
         (id_text (e_event_id event)) payload)) (\<lambda>s ack.
     then_do (send_all id_text to_vec J s batch) (\<lambda>s acks. (s, Ok (ack # acks)))))"

fun await_all :: "('s, 'a) jetstream \<Rightarrow> 's \<Rightarrow> 'a list \<Rightarrow> 's \<times> (unit, sink_error) result" where
  "await_all J s [] = (s, Ok ())"
| "await_all J s (ack # acks) = then_do (do_err Unavailable (js_ack J s ack)) (\<lambda>s _. await_all J s acks)"

definition sink_publish ::
    "(uuid \<Rightarrow> string) \<Rightarrow> (emitted_event \<Rightarrow> (string, string) result) \<Rightarrow> ('s, 'a) jetstream \<Rightarrow> 's \<Rightarrow>
     emitted_event list \<Rightarrow> 's \<times> (unit, sink_error) result" where
  "sink_publish id_text to_vec J s batch = then_do (send_all id_text to_vec J s batch) (\<lambda>s acks. await_all J s acks)"

section \<open>The batcher over a sink\<close>

text \<open>
  The node of \<open>Telemetry\<close> with its publishes done by a sink. The world moves beside it, without
  taking back what the bus has ever stored. A failed publish may have stored a part.
\<close>

definition failed_part ::
    "('s \<Rightarrow> uuid set) \<Rightarrow> 's \<times> (unit, sink_error) result \<Rightarrow> emitted_event list \<Rightarrow> emitted_event list option" where
  "failed_part stored p batch =
     (case p of (s, Inr _) \<Rightarrow> None | (s, Inl _) \<Rightarrow> Some (filter (\<lambda>e. e_event_id e \<in> stored s) batch))"

inductive sink_run ::
    "('s \<Rightarrow> emitted_event list \<Rightarrow> 's \<times> (unit, sink_error) result) \<Rightarrow> ('s \<Rightarrow> uuid set) \<Rightarrow> batch_config \<Rightarrow>
     's \<Rightarrow> node \<Rightarrow> emitted_event list \<Rightarrow> bool"
  for publish stored config where
  sink_start: "sink_run publish stored config s node_new []"
| sink_world: "sink_run publish stored config s n es \<Longrightarrow> stored s \<subseteq> stored s' \<Longrightarrow>
    sink_run publish stored config s' n es"
| sink_emit: "sink_run publish stored config s n es \<Longrightarrow> nd_open n \<Longrightarrow>
    sink_run publish stored config s (emit taken now e n) (es @ [e])"
| sink_close: "sink_run publish stored config s n es \<Longrightarrow> nd_open n \<Longrightarrow>
    sink_run publish stored config s (n\<lparr>nd_open := False\<rparr>) es"
| sink_wakes: "sink_run publish stored config s n es \<Longrightarrow> nd_phase n = Waiting \<Longrightarrow> node_step config n [] n' \<Longrightarrow>
    sink_run publish stored config s n' es"
| sink_published: "sink_run publish stored config s n es \<Longrightarrow> nd_phase n = Publishing batch final \<Longrightarrow>
    (\<And>ws. mset (order ws) = mset ws) \<Longrightarrow> publish s batch = (s', r) \<Longrightarrow>
    sink_run publish stored config s'
      (finish_publish order now (failed_part stored (s', r) batch) batch final n) es"
| sink_recovered: "sink_run publish stored config s n es \<Longrightarrow> nd_phase n = Recovering windows final \<Longrightarrow>
    events = drop_events fresh node_id windows \<Longrightarrow> publish s events = (s', r) \<Longrightarrow>
    sink_run publish stored config s'
      (finish_recover events (failed_part stored (s', r) events) windows final n) es"

lemma start_recover_stored [simp]: "nd_stored (start_recover order final n) = nd_stored n"
  by (simp add: start_recover_def flush_done_def split: prod.splits)

lemma start_flush_stored [simp]: "nd_stored (start_flush order final n) = nd_stored n"
  by (simp add: start_flush_def)

lemma waiting_step_stored: "node_step config n fs n' \<Longrightarrow> nd_phase n = Waiting \<Longrightarrow> nd_stored n' = nd_stored n"
  by (erule node_step.cases)
    (auto simp: emit_def on_event_def on_closed_def on_elapsed_def Let_def split: list.splits prod.splits)

text \<open>What the node relies on: an acknowledged batch is on the bus, and nothing leaves it.\<close>

locale event_sink =
  fixes lawful :: "'c \<Rightarrow> bool"
    and publish :: "'c \<Rightarrow> 's \<Rightarrow> emitted_event list \<Rightarrow> 's \<times> (unit, sink_error) result"
    and stored :: "'c \<Rightarrow> 's \<Rightarrow> uuid set"
  assumes publish_keep: "lawful c \<Longrightarrow> publish c s batch = (s', r) \<Longrightarrow> stored c s \<subseteq> stored c s'"
    and publish_stored: "lawful c \<Longrightarrow> publish c s batch = (s', Inr ()) \<Longrightarrow> e_event_id ` set batch \<subseteq> stored c s'"
begin

lemma sink_run_ok:
  assumes "sink_run (publish c) (stored c) config s n es" "lawful c"
  shows "node_run config node_new es n \<and> e_event_id ` set (nd_stored n) \<subseteq> stored c s"
  using assms(1)
proof (induction rule: sink_run.induct)
  case (sink_start s)
  then show ?case by (simp add: node_run.Start) (simp add: node_new_def)
next
  case (sink_world s n es s')
  then show ?case by blast
next
  case (sink_emit s n es taken now e)
  then show ?case
    using node_run.Step [OF conjunct1 [OF sink_emit.IH] node_step.Emit [OF sink_emit.hyps(2)]]
    by (simp add: emit_def)
next
  case (sink_close s n es)
  then show ?case
    using node_run.Step [OF conjunct1 [OF sink_close.IH] node_step.Close [OF sink_close.hyps(2)]] by simp
next
  case (sink_wakes s n es n')
  then show ?case
    using node_run.Step [OF conjunct1 [OF sink_wakes.IH] sink_wakes.hyps(3)]
      waiting_step_stored [OF sink_wakes.hyps(3,2)] by simp
next
  case (sink_published s n es batch final order s' r now)
  have keep: "stored c s \<subseteq> stored c s'" by (rule publish_keep [OF assms(2) sink_published.hyps(4)])
  have "set (case failed_part (stored c) (s', r) batch of None \<Rightarrow> [] | Some part \<Rightarrow> part) \<subseteq> set batch"
    by (auto simp: failed_part_def split: sum.splits)
  from node_run.Step [OF conjunct1 [OF sink_published.IH] node_step.Published [OF sink_published.hyps(2,3) this]]
  have "node_run config node_new es
      (finish_publish order now (failed_part (stored c) (s', r) batch) batch final n)"
    using sink_published.IH by simp
  moreover have "e_event_id ` set (nd_stored n) \<subseteq> stored c s'" using sink_published.IH keep by blast
  ultimately show ?case
    using publish_stored [OF assms(2), of s batch s'] sink_published.hyps(4)
    by (cases r) (auto simp: finish_publish_def failed_part_def)
next
  case (sink_recovered s n es windows final events fresh node_id s' r)
  have keep: "stored c s \<subseteq> stored c s'" by (rule publish_keep [OF assms(2) sink_recovered.hyps(4)])
  have "set (case failed_part (stored c) (s', r) events of None \<Rightarrow> [] | Some part \<Rightarrow> part)
      \<subseteq> set (drop_events fresh node_id windows)"
    using sink_recovered.hyps(3) by (auto simp: failed_part_def split: sum.splits)
  from node_run.Step [OF conjunct1 [OF sink_recovered.IH] node_step.Recovered [OF sink_recovered.hyps(2) this]]
  have "node_run config node_new es
      (finish_recover events (failed_part (stored c) (s', r) events) windows final n)"
    using sink_recovered.IH sink_recovered.hyps(3) by simp
  moreover have "e_event_id ` set (nd_stored n) \<subseteq> stored c s'" using sink_recovered.IH keep by blast
  ultimately show ?case
    using publish_stored [OF assms(2), of s events s'] sink_recovered.hyps(4)
    by (cases r) (auto simp: finish_recover_def failed_part_def flush_done_def)
qed

end

section \<open>JetStream keeps the contract\<close>

text \<open>
  What JetStream documents: a handle stands for the message of its id, awaiting it succeeds when a
  message of that id is stored (this one, or the one it repeats), and the ids ever stored grow.
\<close>

record ('s, 'a) sink_view =
  sv_js :: "('s, 'a) jetstream"
  sv_ids :: "'s \<Rightarrow> string set"
  sv_for :: "'a \<Rightarrow> string"

definition sink_lawful :: "('s, 'a) sink_view \<Rightarrow> bool" where
  "sink_lawful V \<longleftrightarrow>
     (\<forall>s subject i payload s' r. js_send (sv_js V) s subject i payload = (s', r) \<longrightarrow>
        sv_ids V s \<subseteq> sv_ids V s' \<and> (\<forall>a. r = Ok a \<longrightarrow> sv_for V a = i)) \<and>
     (\<forall>s a s' r. js_ack (sv_js V) s a = (s', r) \<longrightarrow>
        sv_ids V s \<subseteq> sv_ids V s' \<and> (r = Ok () \<longrightarrow> sv_for V a \<in> sv_ids V s'))"

lemma send_all_ok:
  assumes "sink_lawful V" "send_all id_text to_vec (sv_js V) s batch = (s', r)"
  shows "sv_ids V s \<subseteq> sv_ids V s' \<and>
    (\<forall>acks. r = Ok acks \<longrightarrow> map (sv_for V) acks = map (id_text \<circ> e_event_id) batch)"
  using assms(2)
proof (induction batch arbitrary: s s' r)
  case (Cons event batch)
  let ?send = "js_send (sv_js V) s (subject_for (e_tenant_id event) (e_system_id event)) (id_text (e_event_id event))"
  show ?case
  proof (cases "to_vec event")
    case (Inr payload)
    obtain t q where send: "?send payload = (t, q)" by fastforce
    have one: "sv_ids V s \<subseteq> sv_ids V t" "\<And>a. q = Ok a \<Longrightarrow> sv_for V a = id_text (e_event_id event)"
      using assms(1) send unfolding sink_lawful_def by blast+
    show ?thesis
    proof (cases q)
      case (Inr a)
      obtain u p where rest: "send_all id_text to_vec (sv_js V) t batch = (u, p)" by fastforce
      show ?thesis
        using Cons.prems Cons.IH [OF rest] one \<open>to_vec event = Inr payload\<close> send Inr rest
        by (cases p) (auto simp: do_err_def)
    qed (use Cons.prems one \<open>to_vec event = Inr payload\<close> send in \<open>auto simp: do_err_def\<close>)
  qed (use Cons.prems in auto)
qed auto

lemma await_all_ok:
  assumes "sink_lawful V" "await_all (sv_js V) s acks = (s', r)"
  shows "sv_ids V s \<subseteq> sv_ids V s' \<and> (r = Ok () \<longrightarrow> sv_for V ` set acks \<subseteq> sv_ids V s')"
  using assms(2)
proof (induction acks arbitrary: s)
  case (Cons a acks)
  obtain t q where ack: "js_ack (sv_js V) s a = (t, q)" by fastforce
  have one: "sv_ids V s \<subseteq> sv_ids V t" "q = Ok () \<Longrightarrow> sv_for V a \<in> sv_ids V t"
    using assms(1) ack unfolding sink_lawful_def by blast+
  show ?case
  proof (cases q)
    case (Inr x)
    then have "await_all (sv_js V) t acks = (s', r)" using Cons.prems ack by (simp add: do_err_def)
    from Cons.IH [OF this] one Inr show ?thesis by auto
  qed (use Cons.prems ack one in \<open>auto simp: do_err_def\<close>)
qed auto

lemma sink_publish_ok:
  assumes "sink_lawful V" "sink_publish id_text to_vec (sv_js V) s batch = (s', r)"
  shows "sv_ids V s \<subseteq> sv_ids V s'"
    and "r = Ok () \<Longrightarrow> e \<in> set batch \<Longrightarrow> id_text (e_event_id e) \<in> sv_ids V s'"
proof -
  obtain t p where all: "send_all id_text to_vec (sv_js V) s batch = (t, p)" by fastforce
  then have run: "(case p of Inl e \<Rightarrow> (t, Inl e) | Inr acks \<Rightarrow> await_all (sv_js V) t acks) = (s', r)"
    using assms(2) by (cases p) (simp_all add: sink_publish_def)
  note sent = send_all_ok [OF assms(1) all]
  have "sv_ids V s \<subseteq> sv_ids V s' \<and> (r = Ok () \<longrightarrow> (id_text \<circ> e_event_id) ` set batch \<subseteq> sv_ids V s')"
  proof (cases p)
    case (Inl e)
    then show ?thesis using run sent by auto
  next
    case (Inr acks)
    have "sv_for V ` set acks = (id_text \<circ> e_event_id) ` set batch" using sent Inr by (metis list.set_map)
    then show ?thesis using await_all_ok [OF assms(1), of t acks s' r] run Inr sent by auto
  qed
  then show "sv_ids V s \<subseteq> sv_ids V s'" "r = Ok () \<Longrightarrow> e \<in> set batch \<Longrightarrow> id_text (e_event_id e) \<in> sv_ids V s'"
    by auto
qed

text \<open>A sink: how ids print, how events are written, and the stream.\<close>

type_synonym ('s, 'a) nats_sink = "(uuid \<Rightarrow> string) \<times> (emitted_event \<Rightarrow> (string, string) result) \<times> ('s, 'a) sink_view"

fun nats_lawful :: "('s, 'a) nats_sink \<Rightarrow> bool" where
  "nats_lawful (id_text, to_vec, V) = sink_lawful V"

fun nats_sink_publish :: "('s, 'a) nats_sink \<Rightarrow> 's \<Rightarrow> emitted_event list \<Rightarrow> 's \<times> (unit, sink_error) result" where
  "nats_sink_publish (id_text, to_vec, V) = sink_publish id_text to_vec (sv_js V)"

fun nats_stored :: "('s, 'a) nats_sink \<Rightarrow> 's \<Rightarrow> uuid set" where
  "nats_stored (id_text, to_vec, V) s = {i. id_text i \<in> sv_ids V s}"

interpretation nats: event_sink "nats_lawful :: ('s, 'a) nats_sink \<Rightarrow> bool" nats_sink_publish nats_stored
proof unfold_locales
  fix c :: "('s, 'a) nats_sink" and s batch s' r
  obtain id_text to_vec V where c: "c = (id_text, to_vec, V)" by (cases c)
  show "nats_lawful c \<Longrightarrow> nats_sink_publish c s batch = (s', r) \<Longrightarrow> nats_stored c s \<subseteq> nats_stored c s'"
    using sink_publish_ok(1) unfolding c by fastforce
  show "nats_lawful c \<Longrightarrow> nats_sink_publish c s batch = (s', Inr ()) \<Longrightarrow> e_event_id ` set batch \<subseteq> nats_stored c s'"
    using sink_publish_ok(2) unfolding c by fastforce
qed

section \<open>Subjects\<close>

text \<open>
  What a NATS subject filter selects: tokens between dots, \<open>*\<close> for any one of them, \<open>>\<close> at the end
  for one or more.
\<close>

fun selects :: "string list \<Rightarrow> string list \<Rightarrow> bool" where
  "selects [] ts \<longleftrightarrow> ts = []"
| "selects (f # fs) [] \<longleftrightarrow> False"
| "selects (f # fs) (t # ts) \<longleftrightarrow> f = ''>'' \<and> fs = [] \<or> (f = ''*'' \<or> f = t) \<and> selects fs ts"

definition subject_selected :: "string \<Rightarrow> string \<Rightarrow> bool" where
  "subject_selected filter_subject subject \<longleftrightarrow>
     selects (split_on CHR ''.'' filter_subject) (split_on CHR ''.'' subject)"

definition plain_token :: "string \<Rightarrow> bool" where
  "plain_token t \<longleftrightarrow> t \<noteq> [] \<and> list_all (\<lambda>c. token_char c = c) t"

lemma plain_sanitise: "plain_token (sanitise t)"
  using token_text_chars [of _ t]
  by (auto simp: plain_token_def sanitise_def Let_def list_all_iff) (simp add: token_char_def)

lemma plain_no_dot: "plain_token t \<Longrightarrow> CHR ''.'' \<notin> set t"
  by (auto simp: plain_token_def list_all_iff token_char_def dest!: bspec [of _ _ "CHR ''.''"])

lemma subject_tokens:
  "split_on CHR ''.'' (subject_for t y) = [''ancre'', ''events'', sanitise t, sanitise y]"
proof -
  have "split_on CHR ''.'' (sanitise t @ CHR ''.'' # sanitise y) = [sanitise t, sanitise y]"
    using split_on_first [OF plain_no_dot [OF plain_sanitise], of t "sanitise y"]
      split_on_no [OF plain_no_dot [OF plain_sanitise], of y] by simp
  then show ?thesis by (simp add: subject_for_def SINK_SUBJECT_ROOT_def)
qed

section \<open>Properties\<close>

text \<open>
  C11. A gateway that counts no loss has put its events on the bus: whatever requests and the batcher do
  in turn, however the stream fails, each chain's emitted events are exactly those still on the
  node, those of acknowledged batches, and those counted in a drop window; and the stream has
  stored every event of an acknowledged batch under its own id.
\<close>

theorem acknowledged_in_stream:
  assumes "sink_lawful V"
    and "sink_run (sink_publish id_text to_vec (sv_js V)) (\<lambda>s. {i. id_text i \<in> sv_ids V s}) config s n es"
    and "length es < 2 ^ 32" "genuine es" "card (event_chain ` set es) \<le> MAX_TRACKED_CHAINS"
  shows "length (filter (\<lambda>e. event_chain e = c) es) =
      weigh c (nd_queue n) + weigh c (nd_batch n) + weigh c (in_flight n) + weigh c (nd_stored n) +
      pending c (dc_windows (nd_drops n)) + taken_out c (recovering n) \<and>
    (id_text \<circ> e_event_id) ` set (nd_stored n) \<subseteq> sv_ids V s"
proof -
  have "nats_stored (id_text, to_vec, V) = (\<lambda>s. {i. id_text i \<in> sv_ids V s})"
    "nats_sink_publish (id_text, to_vec, V) = sink_publish id_text to_vec (sv_js V)"
    by (simp_all add: fun_eq_iff)
  with nats.sink_run_ok [of "(id_text, to_vec, V)" config s n es] assms(1,2)
  have run: "node_run config node_new es n" "e_event_id ` set (nd_stored n) \<subseteq> {i. id_text i \<in> sv_ids V s}"
    by simp_all
  show ?thesis using node_accounts [OF run(1) assms(3-5)] run(2) by auto
qed

definition demo_js :: "(string set, string) jetstream" where
  "demo_js = \<lparr>js_send = (\<lambda>s subject i payload. (insert i s, Ok i)), js_ack = (\<lambda>s i. (s, if i \<in> s then Ok () else Err []))\<rparr>"

definition demo_stream :: "(string set, string) sink_view" where
  "demo_stream = \<lparr>sv_js = demo_js, sv_ids = (\<lambda>s. s), sv_for = (\<lambda>i. i)\<rparr>"

lemma demo_stream_lawful: "sink_lawful demo_stream"
  by (auto simp: sink_lawful_def demo_stream_def demo_js_def split: if_splits)

definition demo_uuid_text :: "uuid \<Rightarrow> string" where
  "demo_uuid_text u = dec_nat (unat u)"

definition demo_sink_node :: node where
  "demo_sink_node =
     (let n = on_event batch_config_default (\<lambda>ws. ws) (emit True 4 Telemetry.demo_event node_new) in
      finish_publish (\<lambda>ws. ws) (\<lambda>_. 6) None [Telemetry.demo_event] False (on_elapsed (\<lambda>ws. ws) n))"

lemma demo_sink_run:
  "sink_run (sink_publish demo_uuid_text (\<lambda>_. Ok []) (sv_js demo_stream)) (\<lambda>s. {i. demo_uuid_text i \<in> sv_ids demo_stream s})
    batch_config_default {demo_uuid_text 7} demo_sink_node [Telemetry.demo_event]"
proof -
  let ?run = "sink_run (sink_publish demo_uuid_text (\<lambda>_. Ok []) (sv_js demo_stream))
    (\<lambda>s. {i. demo_uuid_text i \<in> sv_ids demo_stream s}) batch_config_default"
  let ?e = "Telemetry.demo_event"
  define n1 where "n1 = emit True 4 ?e node_new"
  define n2 where "n2 = on_event batch_config_default (\<lambda>ws. ws) n1"
  define n3 where "n3 = on_elapsed (\<lambda>ws. ws) n2"
  have n1: "nd_phase n1 = Waiting" "nd_queue n1 = [?e]" "nd_open n1" "nd_batch n1 = []"
    by (simp_all add: n1_def emit_def node_new_def)
  then have n2: "nd_phase n2 = Waiting" "nd_queue n2 = []" "nd_open n2" "nd_batch n2 = [?e]"
    by (simp_all add: n2_def on_event_def batch_config_default_def Let_def)
  then have n3: "nd_phase n3 = Publishing [?e] False" by (simp add: n3_def on_elapsed_def start_flush_def)
  have "?run {} node_new []" by (rule sink_start)
  then have "?run {} n1 ([] @ [?e])" unfolding n1_def by (rule sink_emit) (simp add: node_new_def)
  then have "?run {} n2 ([] @ [?e])"
    by (rule sink_wakes) (use n1 in \<open>auto simp: n2_def intro: node_step.Event\<close>)
  then have r3: "?run {} n3 ([] @ [?e])"
    by (rule sink_wakes) (use n2 in \<open>auto simp: n3_def intro: node_step.Elapsed\<close>)
  have "e_event_id ?e = 7" by (simp add: Telemetry.demo_event_def into_event_def)
  then have p: "sink_publish demo_uuid_text (\<lambda>_. Ok []) (sv_js demo_stream) {} [?e] = ({demo_uuid_text 7}, Ok ())"
    by (simp add: sink_publish_def demo_stream_def demo_js_def do_err_def)
  from sink_published [OF r3 n3 refl p, of "\<lambda>_. 6"] show ?thesis
    by (simp add: demo_sink_node_def failed_part_def n1_def n2_def n3_def Let_def)
qed

theorem acknowledged_in_stream_witness:
  "nd_stored demo_sink_node = [Telemetry.demo_event] \<and>
    (demo_uuid_text \<circ> e_event_id) ` set (nd_stored demo_sink_node) \<subseteq> sv_ids demo_stream {demo_uuid_text 7}"
proof -
  have "genuine [Telemetry.demo_event]" by (simp add: genuine_def Telemetry.demo_event_def)
  then show ?thesis
    using acknowledged_in_stream [OF demo_stream_lawful demo_sink_run, of "(''acme'', ''hr'')"]
    by (simp add: MAX_TRACKED_CHAINS_def)
      (simp add: demo_sink_node_def demo_node_simps Telemetry.demo_event_def Let_def)
qed

text \<open>
  C35. Every event the gateway sends reaches the ingester's subjects: whatever the tenant and the
  system are called, the subject has four tokens, none of them empty or with a character that
  means something to NATS, the streams both ends declare are the same, and its subjects and
  the default filter of the consumer select it.
\<close>

theorem subject_reaches_ingester:
  "split_on CHR ''.'' (subject_for t y) = [''ancre'', ''events'', sanitise t, sanitise y] \<and>
    plain_token (sanitise t) \<and> plain_token (sanitise y) \<and>
    gateway_stream = ingester_stream \<and>
    list_ex (\<lambda>f. subject_selected f (subject_for t y)) (sm_subjects ingester_stream) \<and>
    subject_selected (cc_filter_subject default_consumer) (subject_for t y)"
proof -
  have parts: "split_on CHR ''.'' ''ancre.events.>'' = [''ancre'', ''events'', ''>'']" by simp
  have "subject_selected ''ancre.events.>'' (subject_for t y)"
    unfolding subject_selected_def parts subject_tokens by simp
  then show ?thesis
    using subject_tokens plain_sanitise
    by (simp add: gateway_stream_def ingester_stream_def default_consumer_def SINK_STREAM_def STREAM_def
        SUBJECT_ROOT_def SINK_SUBJECT_ROOT_def)
qed

end
