(* ===== verification/Serving.thy ===== *)
theory Serving
  imports Startup Sink
begin

text \<open>
  A gateway process from its \<open>main\<close> to its end: \<open>serve.rs\<close>, \<open>control.rs::watch\<close>,
  \<open>config_feed.rs::run\<close> and what \<open>main.rs\<close> spawns, over one resolver.

  What the tasks wait for comes as inputs, in any order. An input that a task is not waiting for
  leaves it as it is. A step gives the events it hands to the fork; \<open>None\<close> is a panic, which
  aborts the process. Once \<open>serve\<close> returns so does \<open>main\<close>, and the runtime is dropped with
  every task it still has: the bodies of the open responses are dropped, and the batcher beside them.
\<close>

section \<open>The subscription and the polls\<close>

datatype watcher = Subscribing | Retrying | Streaming | Watch_over

text \<open>A stream that yields an error, or its end, is \<open>Stream_broken\<close>.\<close>

datatype watch_input =
  Subscribed "(unit, string) result"
| Retry_elapsed
| Message feed_env "(snapshot_envelope, string) result"
| Stream_broken
| Watch_shutdown

fun watch_step ::
    "canon_prims \<Rightarrow> watch_input \<Rightarrow> watcher \<Rightarrow> pin_resolver \<Rightarrow>
     (watcher \<times> pin_resolver \<times> emitted_event list) option" where
  "watch_step P (Subscribed x) Subscribing r =
     Some (case x of Inl _ \<Rightarrow> Retrying | Inr _ \<Rightarrow> Streaming, r, [])"
| "watch_step P Watch_shutdown Retrying r = Some (Watch_over, r, [])"
| "watch_step P Retry_elapsed Retrying r = Some (Subscribing, r, [])"
| "watch_step P Watch_shutdown Streaming r = Some (Watch_over, r, [])"
| "watch_step P (Message env parsed) Streaming r =
     map_option (\<lambda>(r, events). (Streaming, r, events)) (watch_message P env parsed r)"
| "watch_step P Stream_broken Streaming r = Some (Subscribing, r, [])"
| "watch_step P _ w r = Some (w, r, [])"

text \<open>A tick of \<open>run\<close>: what the poll answers is logged only.\<close>

definition poll_tick ::
    "canon_prims \<Rightarrow> feed_env \<Rightarrow> (snapshot_envelope, feed_error) result \<Rightarrow> pin_resolver \<Rightarrow>
     (pin_resolver \<times> emitted_event list) option" where
  "poll_tick P env fetched r = map_option (\<lambda>(r, _, events). (r, events)) (poll_once P env fetched r)"

section \<open>A connection\<close>

text \<open>
  HTTP/1 serves the requests of a connection one after the other. \<open>Resolving\<close> holds the resolver
  that \<open>resolve\<close> read, \<open>Calling\<close> also the one the tenant was read from right after it, before the
  request is sent. The upstream's answer, the polls of the server and whether it keeps the
  connection come as inputs, and a client may go away at any time.
\<close>

datatype connection =
  Idle
| Resolving pin_resolver request_env http_request
| Calling pin_resolver pin_resolver request_env http_request
| Responding proxy_body
| Closed

datatype conn_input =
  Received request_env http_request
| Tenant_read
| Answered upstream
| Polled poll_env
| Body_done finish_env bool
| Peer_gone finish_env

record gateway_deps =
  gd_hash :: hash_fn
  gd_http :: http_lib
  gd_json :: serde_json
  gd_quote :: "string \<Rightarrow> string"
  gd_prims :: canon_prims

definition drop_body :: "gateway_deps \<Rightarrow> finish_env \<Rightarrow> proxy_body \<Rightarrow> emitted_event list" where
  "drop_body D fe body =
     (case body of
        Tapped b \<Rightarrow> option_list (snd (tap_drop (gd_hash D) (gd_json D) fe b))
      | Fixed _ \<Rightarrow> [])"

fun conn_step ::
    "gateway_deps \<Rightarrow> gateway_state \<Rightarrow> pin_resolver \<Rightarrow> conn_input \<Rightarrow> connection \<Rightarrow>
     (connection \<times> emitted_event list) option" where
  "conn_step D state r (Received env req) Idle = Some (Resolving r env req, [])"
| "conn_step D state r' Tenant_read (Resolving r env req) = Some (Calling r r' env req, [])"
| "conn_step D state _ (Answered up) (Calling r r' env req) =
     map_option (\<lambda>x. (case x of Inl _ \<Rightarrow> Closed | Inr resp \<Rightarrow> Responding (px_body resp), []))
       (handle (gd_hash D) (gd_http D) (gd_json D) (gd_quote D) up state r r' env req)"
| "conn_step D state r (Polled p) (Responding body) =
     (case proxy_poll (gd_hash D) (gd_json D) p body of
        (body, _, event) \<Rightarrow> Some (Responding body, option_list event))"
| "conn_step D state r (Body_done fe keep_alive) (Responding body) =
     Some (if keep_alive then Idle else Closed, drop_body D fe body)"
| "conn_step D state r (Peer_gone fe) (Responding body) = Some (Closed, drop_body D fe body)"
| "conn_step D state r (Peer_gone fe) _ = Some (Closed, [])"
| "conn_step D state r _ c = Some (c, [])"

section \<open>The process\<close>

text \<open>\<open>gw_result\<close> is what \<open>serve\<close>, and with it \<open>main\<close>, returned.\<close>

record gateway =
  gw_node_id :: string
  gw_resolver :: pin_resolver
  gw_watcher :: watcher
  gw_polling :: bool
  gw_conns :: "connection list"
  gw_result :: "(unit, string) result option"

datatype gateway_input =
  Watch watch_input
| Poll feed_env "(snapshot_envelope, feed_error) result"
| Poll_shutdown
| Accepted "(unit, string) result" "nat \<Rightarrow> finish_env"
| Conn nat conn_input
| Serve_shutdown "nat \<Rightarrow> finish_env"

definition gateway_serving :: "string \<Rightarrow> gateway_state" where
  "gateway_serving node_id = \<lparr>gs_node_id = node_id, gs_pinning_enabled = True\<rparr>"

text \<open>
  \<open>serve\<close> returns: the runtime drops the task of every connection, and with it the body it was sending.
  \<open>fes\<close> is what each drop reads.
\<close>

definition drop_conn :: "gateway_deps \<Rightarrow> finish_env \<Rightarrow> connection \<Rightarrow> emitted_event list" where
  "drop_conn D fe c = (case c of Responding body \<Rightarrow> drop_body D fe body | _ \<Rightarrow> [])"

fun drop_conns :: "gateway_deps \<Rightarrow> (nat \<Rightarrow> finish_env) \<Rightarrow> nat \<Rightarrow> connection list \<Rightarrow> emitted_event list" where
  "drop_conns D fes i [] = []"
| "drop_conns D fes i (c # cs) = drop_conn D (fes i) c @ drop_conns D fes (i + 1) cs"

definition serve_returns ::
    "gateway_deps \<Rightarrow> (nat \<Rightarrow> finish_env) \<Rightarrow> (unit, string) result \<Rightarrow> gateway \<Rightarrow> gateway \<times> emitted_event list" where
  "serve_returns D fes result g =
     (g\<lparr>gw_result := Some result, gw_conns := map (\<lambda>_. Closed) (gw_conns g)\<rparr>,
      drop_conns D fes 0 (gw_conns g))"

text \<open>The loop of \<open>serve\<close>: a failure to accept ends it, as the signal does.\<close>

definition serve_accept ::
    "gateway_deps \<Rightarrow> (nat \<Rightarrow> finish_env) \<Rightarrow> (unit, string) result \<Rightarrow> gateway \<Rightarrow> gateway \<times> emitted_event list" where
  "serve_accept D fes accepted g =
     (case accepted of
        Inl e \<Rightarrow> serve_returns D fes (Err e) g
      | Inr _ \<Rightarrow> (g\<lparr>gw_conns := gw_conns g @ [Idle]\<rparr>, []))"

definition gateway_step :: "gateway_deps \<Rightarrow> gateway_input \<Rightarrow> gateway \<Rightarrow> (gateway \<times> emitted_event list) option" where
  "gateway_step D input g =
     (if gw_result g \<noteq> None then Some (g, [])
      else case input of
        Watch x \<Rightarrow>
          map_option (\<lambda>(w, r, events). (g\<lparr>gw_watcher := w, gw_resolver := r\<rparr>, events))
            (watch_step (gd_prims D) x (gw_watcher g) (gw_resolver g))
      | Poll env fetched \<Rightarrow>
          if gw_polling g then
            map_option (\<lambda>(r, events). (g\<lparr>gw_resolver := r\<rparr>, events))
              (poll_tick (gd_prims D) env fetched (gw_resolver g))
          else Some (g, [])
      | Poll_shutdown \<Rightarrow> Some (g\<lparr>gw_polling := False\<rparr>, [])
      | Accepted x fes \<Rightarrow> Some (serve_accept D fes x g)
      | Conn i x \<Rightarrow>
          if i < length (gw_conns g) then
            map_option (\<lambda>(c, events). (g\<lparr>gw_conns := (gw_conns g)[i := c]\<rparr>, events))
              (conn_step D (gateway_serving (gw_node_id g)) (gw_resolver g) x (gw_conns g ! i))
          else Some (g, [])
      | Serve_shutdown fes \<Rightarrow> Some (serve_returns D fes (Ok ()) g))"

text \<open>
  \<open>main\<close> up to the loops. The clients and the socket are operations that can fail; the attempts are
  those of the cold start, and \<open>None\<close> is a cold start that still waits. The binding of the socket
  is the first step of \<open>serve\<close>.
\<close>

record ('s, 'addr) gateway_boot =
  gb_parse_addr :: "string \<Rightarrow> ('addr, string) result"
  gb_connect_sink :: "'s \<Rightarrow> string \<Rightarrow> 's \<times> (unit, sink_error) result"
  gb_source_new :: "string \<Rightarrow> (unit, string) result"
  gb_upstream_new :: "endpoints \<Rightarrow> credentials \<Rightarrow> (unit, string) result"
  gb_bind :: "'s \<Rightarrow> 'addr \<Rightarrow> 's \<times> (unit, string) result"

fun sink_error_to_string :: "sink_error \<Rightarrow> string" where
  "sink_error_to_string (Unavailable e) = ''bus unavailable: '' @ e"

definition gateway_prepare :: "('s, 'addr) gateway_boot \<Rightarrow> environment \<Rightarrow> 's \<Rightarrow> 's \<times> 'addr started" where
  "gateway_prepare B env s =
     or_fatal id (s, gb_parse_addr B (env_or env ''ANCRE_LISTEN'' ''0.0.0.0:8080'')) (\<lambda>s addr.
     or_fatal sink_error_to_string
       (gb_connect_sink B s (env_or env ''ANCRE_NATS_URL'' ''nats://127.0.0.1:4222'')) (\<lambda>s _.
     or_fatal id (s, gb_source_new B (snapshot_url (env_or env ''ANCRE_CONTROL_URL'' ''http://127.0.0.1:8081'')))
       (\<lambda>s _. (s, Running addr))))"

definition gateway_listen ::
    "('s, 'addr) gateway_boot \<Rightarrow> environment \<Rightarrow> nat \<Rightarrow> 'addr \<Rightarrow> pin_resolver \<Rightarrow> 's \<Rightarrow> 's \<times> gateway started" where
  "gateway_listen B env pid addr r s =
     or_fatal id (s, gb_upstream_new B (gateway_endpoints env) (gateway_credentials env)) (\<lambda>s _.
     or_fatal id (gb_bind B s addr) (\<lambda>s _.
       (s, Running \<lparr>gw_node_id = node_name ''gw'' env pid, gw_resolver = r, gw_watcher = Subscribing,
          gw_polling = True, gw_conns = [], gw_result = None\<rparr>)))"

definition gateway_main ::
    "canon_prims \<Rightarrow> ('s, 'addr) gateway_boot \<Rightarrow> environment \<Rightarrow> nat \<Rightarrow> timestamp \<Rightarrow> instant \<Rightarrow> instant \<Rightarrow>
     attempt list \<Rightarrow> 's \<Rightarrow> ('s \<times> emitted_event list \<times> gateway started) option" where
  "gateway_main P B env pid built now begin_at as s =
     (case gateway_prepare B env s of
        (s, Refused_start e) \<Rightarrow> Some (s, [], Refused_start e)
      | (s, Panicked e) \<Rightarrow> Some (s, [], Panicked e)
      | (s, Running addr) \<Rightarrow>
          (case cold_start P (env_or env ''ANCRE_CONTROL_URL'' ''http://127.0.0.1:8081'')
                 (begin_at + COLD_START_BUDGET) as (cold (gateway_staleness env) built now) of
             (r, events, Waits) \<Rightarrow> None
           | (r, events, Panics) \<Rightarrow> Some (s, events, Panicked [])
           | (r, events, Gave_up e) \<Rightarrow> Some (s, events, Refused_start e)
           | (r, events, Installed _) \<Rightarrow>
               (case gateway_listen B env pid addr r s of (s, x) \<Rightarrow> Some (s, events, x))))"

section \<open>What a connection leaves\<close>

text \<open>
  A response that still owes its event. Pins that name the generation and the hash of an envelope that
  was delivered to the node and whose contents have that generation and that hash.
\<close>

fun live :: "connection \<Rightarrow> bool" where
  "live (Responding (Tapped b)) \<longleftrightarrow> tb_tap b \<noteq> None"
| "live _ \<longleftrightarrow> False"

definition verified_pins :: "canon_prims \<Rightarrow> snapshot_envelope list \<Rightarrow> pins \<Rightarrow> bool" where
  "verified_pins P log p \<longleftrightarrow> (\<exists>e \<in> set log. spec_hash P (env_spec e) = Ok (env_content_hash e) \<and>
     ss_generation (env_spec e) = env_generation e \<and>
     p_config_generation p = env_generation e \<and> p_config_hash p = env_content_hash e)"

definition fed :: "canon_prims \<Rightarrow> snapshot_envelope list \<Rightarrow> pin_resolver \<Rightarrow> bool" where
  "fed P log r \<longleftrightarrow> (\<exists>policy heard seen. feed_run P policy r heard seen \<and> set seen \<subseteq> set log)"

fun conn_ok :: "canon_prims \<Rightarrow> snapshot_envelope list \<Rightarrow> connection \<Rightarrow> bool" where
  "conn_ok P log (Resolving r env req) \<longleftrightarrow> fed P log r"
| "conn_ok P log (Calling r r' env req) \<longleftrightarrow> fed P log r"
| "conn_ok P log (Responding (Tapped b)) \<longleftrightarrow>
     (\<forall>t. tb_tap b = Some t \<longrightarrow> verified_pins P log (rc_pins (tp_ctx t)))"
| "conn_ok P log _ \<longleftrightarrow> True"

lemma verified_pins_mono: "verified_pins P log p \<Longrightarrow> set log \<subseteq> set log' \<Longrightarrow> verified_pins P log' p"
  by (auto simp: verified_pins_def)

lemma fed_mono: "fed P log r \<Longrightarrow> set log \<subseteq> set log' \<Longrightarrow> fed P log' r"
  unfolding fed_def by (meson order_trans)

lemma conn_ok_mono: "conn_ok P log c \<Longrightarrow> set log \<subseteq> set log' \<Longrightarrow> conn_ok P log' c"
  by (cases "(P, log, c)" rule: conn_ok.cases) (auto intro: fed_mono verified_pins_mono)

text \<open>What a step of a live connection gives: nothing, or its one event and it is live no more.\<close>

definition owed ::
    "canon_prims \<Rightarrow> snapshot_envelope list \<Rightarrow> connection \<Rightarrow> connection \<Rightarrow> emitted_event list \<Rightarrow> bool" where
  "owed P log c c' es \<longleftrightarrow> length es + (if live c' then 1 else 0) = (if live c \<or> live c' then 1 else 0) \<and>
     (\<forall>e \<in> set es. e_event_type e = LlmRequest \<and> verified_pins P log (e_pins e)) \<and> conn_ok P log c'"

lemma event_of_verified:
  "event_of H t e \<Longrightarrow> verified_pins P log (rc_pins (tp_ctx t)) \<Longrightarrow> e_event_type e = LlmRequest \<and> verified_pins P log (e_pins e)"
  by (simp add: verified_pins_def event_of_fields)

lemma tap_drop_event:
  "tap_drop H js fe b = (b', None) \<Longrightarrow> tb_tap b = None"
  "tap_drop H js fe b = (b', Some e) \<Longrightarrow> \<exists>t. tb_tap b = Some t \<and> event_of H t e"
  by (auto simp: tap_drop_def split: if_splits dest!: tap_finish_event)

lemma drop_body_owed:
  assumes "conn_ok P log (Responding body)" "\<not> live c'" "conn_ok P log c'"
  shows "owed P log (Responding body) c' (drop_body D fe body)"
proof (cases body)
  case (Tapped b)
  obtain b' x where d: "tap_drop (gd_hash D) (gd_json D) fe b = (b', x)" by fastforce
  show ?thesis
    using assms Tapped d tap_drop_event(1) [of "gd_hash D" "gd_json D" fe b b']
      tap_drop_event(2) [of "gd_hash D" "gd_json D" fe b b']
    by (cases x) (auto simp: owed_def drop_body_def option_list_def dest: event_of_verified)
qed (use assms in \<open>simp add: owed_def drop_body_def\<close>)

lemma polled_owed:
  assumes "conn_ok P log (Responding body)" "proxy_poll H js p body = (body', x, event)"
  shows "owed P log (Responding body) (Responding body') (option_list event)"
proof (cases body)
  case (Tapped b)
  obtain b' e where f: "poll_frame H js p b = (b', e)" by fastforce
  then have "body' = Tapped b'" "event = e" using assms(2) Tapped by auto
  then show ?thesis
    using assms(1) Tapped f poll_frame_tap(1) [of H js p b b'] poll_frame_tap(2) [of H js p b b']
    by (cases e) (auto simp: owed_def option_list_def dest: event_of_verified)
next
  case (Fixed d)
  then show ?thesis using assms by (cases d) (auto simp: owed_def option_list_def)
qed

lemma polled_live:
  assumes "proxy_poll H js p body = (body', x, event)" "live (Responding body')"
  shows "live (Responding body)"
proof (cases body)
  case (Tapped b)
  obtain b' e where "poll_frame H js p b = (b', e)" by fastforce
  then show ?thesis
    using assms Tapped poll_frame_tap(1) [of H js p b b'] poll_frame_tap(2) [of H js p b b'] by (cases e) auto
next
  case (Fixed d)
  then show ?thesis using assms by (cases d) auto
qed

lemma feed_run_resolves:
  assumes "feed_run P policy r heard log"
  shows "resolve r meta now \<noteq> None"
    and "resolve r meta now = Some (Inr pins) \<Longrightarrow> verified_pins P log pins"
proof -
  note kept = feed_run_kept [OF assms]
  have ok: "resolver_ok policy r heard" using kept resolver_run_ok by blast
  show "resolve r meta now \<noteq> None"
    using resolve_answers [OF ok, of meta now] by (auto simp: Let_def split: option.splits)
  assume pins: "resolve r meta now = Some (Inr pins)"
  have "\<not> is_cold r" using resolve_answers [OF ok, of meta now] pins by auto
  then obtain e where "e \<in> set log" "vouches P e (ld_snap (pr_current r))"
    using kept by (auto simp: verified_snapshot_def)
  then show "verified_pins P log pins"
    using resolved_binding [OF ok pins] unfolding verified_pins_def vouches_def by auto
qed

lemma handle_total:
  assumes "feed_run P policy r heard log"
  shows "\<exists>x. handle H L js quote up state r r' env req = Some x"
proof -
  have no: "resolve r meta now = None \<longleftrightarrow> False" for meta now using feed_run_resolves(1) [OF assms] by simp
  show ?thesis by (simp add: handle_def no Let_def split: option.split sum.split)
qed

lemma handle_live:
  assumes "fed P log r" "gs_pinning_enabled state"
    and "handle H L js quote up state r r' env req = Some (Inr resp)"
  shows "owed P log (Calling r r' env req) (Responding (px_body resp)) []"
    and "live (Responding (px_body resp)) \<longleftrightarrow> consults H L js quote state r r' env req"
proof -
  obtain policy heard seen where run: "feed_run P policy r heard seen" "set seen \<subseteq> set log"
    using assms(1) by (auto simp: fed_def)
  have "owed P log (Calling r r' env req) (Responding (px_body resp)) [] \<and>
      (live (Responding (px_body resp)) \<longleftrightarrow> (\<exists>b. px_body resp = Tapped b))"
  proof (cases "px_body resp")
    case (Tapped b)
    obtain meta pins t where t: "resolve r meta (re_resolved_at env) = Some (Inr pins)" "b = tapped_body_new t"
        "rc_pins (tp_ctx t) = pins"
      using handle_tapped [OF assms(3) Tapped assms(2)] by auto
    then have "verified_pins P log pins"
      using feed_run_resolves(2) [OF run(1)] verified_pins_mono run(2) by blast
    then show ?thesis using t Tapped by (simp add: owed_def tapped_body_new_def)
  qed (simp add: owed_def)
  then show "owed P log (Calling r r' env req) (Responding (px_body resp)) []"
    and "live (Responding (px_body resp)) \<longleftrightarrow> consults H L js quote state r r' env req"
    using consults_iff [OF assms(3)] by simp_all
qed

lemma conn_step_total: "conn_ok P log c \<Longrightarrow> conn_step D state r x c \<noteq> None"
  by (cases "(D, state, r, x, c)" rule: conn_step.cases)
    (auto simp: fed_def split: prod.splits dest: handle_total)

lemma conn_step_owed:
  assumes "fed P log r" "gs_pinning_enabled state" "conn_ok P log c"
    and "conn_step D state r x c = Some (c', es)"
  shows "owed P log c c' es"
proof (cases c)
  case Idle
  then show ?thesis using assms(1,4) by (cases x) (auto simp: owed_def)
next
  case (Resolving r0 env req)
  then show ?thesis using assms(3,4) by (cases x) (auto simp: owed_def)
next
  case (Calling r0 r1 env req)
  show ?thesis
  proof (cases x)
    case (Answered up)
    then obtain y where y: "handle (gd_hash D) (gd_http D) (gd_json D) (gd_quote D) up state r0 r1 env req = Some y"
        "es = []" "c' = (case y of Inl _ \<Rightarrow> Closed | Inr resp \<Rightarrow> Responding (px_body resp))"
      using assms(4) Calling by auto
    have "owed P log c Closed []" using Calling by (simp add: owed_def)
    then show ?thesis
      using y Calling handle_live(1) [OF _ assms(2), of P log r0] assms(3) by (cases y) auto
  qed (use assms Calling in \<open>auto simp: owed_def\<close>)
next
  case (Responding body)
  have same: "owed P log c c []" using assms(3) by (simp add: owed_def)
  have dropped: "owed P log c Idle (drop_body D fe body)" "owed P log c Closed (drop_body D fe body)" for fe
    using drop_body_owed [of P log body Idle D fe] drop_body_owed [of P log body Closed D fe] assms(3) Responding
    by simp_all
  have polled: "proxy_poll (gd_hash D) (gd_json D) p body = (body', y, event) \<Longrightarrow>
      owed P log c (Responding body') (option_list event)" for p body' y event
    using polled_owed assms(3) unfolding Responding by blast
  show ?thesis
    using assms(4) Responding same dropped polled by (cases x) (auto split: prod.splits if_splits)
next
  case Closed
  then show ?thesis using assms by (cases x) (auto simp: owed_def)
qed

text \<open>A step begins a response of a provider just when it hears a provider that was consulted.\<close>

lemma conn_step_begins:
  assumes "gs_pinning_enabled state" "conn_ok P log c" "conn_step D state r x c = Some (c', es)"
  shows "(\<not> live c \<and> live c') \<longleftrightarrow> (\<exists>up r0 r1 env req resp. x = Answered up \<and> c = Calling r0 r1 env req \<and>
    consults (gd_hash D) (gd_http D) (gd_json D) (gd_quote D) state r0 r1 env req \<and>
    handle (gd_hash D) (gd_http D) (gd_json D) (gd_quote D) up state r0 r1 env req = Some (Ok resp))"
proof (cases "\<exists>up r0 r1 env req. x = Answered up \<and> c = Calling r0 r1 env req")
  case True
  then obtain up r0 r1 env req where c: "x = Answered up" "c = Calling r0 r1 env req" by blast
  obtain y where y: "handle (gd_hash D) (gd_http D) (gd_json D) (gd_quote D) up state r0 r1 env req = Some y"
      "c' = (case y of Inl _ \<Rightarrow> Closed | Inr resp \<Rightarrow> Responding (px_body resp))"
    using assms(3) c by auto
  have fed: "fed P log r0" using assms(2) c by simp
  show ?thesis
    using c y handle_live(2) [OF fed assms(1), of "gd_hash D" "gd_http D" "gd_json D" "gd_quote D" up r1 env req]
    by (cases y) auto
next
  case False
  have "live c" if "live c'"
  proof (cases c)
    case (Responding body)
    show ?thesis
    proof (cases x)
      case (Polled p)
      then show ?thesis
        using that assms(3) Responding polled_live [of "gd_hash D" "gd_json D" p body]
        by (auto split: prod.splits)
    qed (use that assms(3) Responding in \<open>auto split: if_splits\<close>)
  qed (use that assms(3) False in \<open>cases x; auto\<close>)+
  then show ?thesis using False by blast
qed

lemma drop_conn_owed: "conn_ok P log c \<Longrightarrow> owed P log c Closed (drop_conn D fe c)"
  by (cases c) (auto simp: drop_conn_def intro: drop_body_owed, auto simp: owed_def)

lemma drop_conns_owed:
  "list_all (conn_ok P log) cs \<Longrightarrow> length (drop_conns D fes i cs) = length (filter live cs) \<and>
    (\<forall>e \<in> set (drop_conns D fes i cs). e_event_type e = LlmRequest \<and> verified_pins P log (e_pins e))"
proof (induction cs arbitrary: i)
  case (Cons c cs)
  then show ?case using drop_conn_owed [of P log c D "fes i"] by (auto simp: owed_def)
qed simp

section \<open>Every run of a gateway\<close>

lemma all_some_types:
  "all_some xs = Some es \<Longrightarrow> (\<And>x e. x \<in> set xs \<Longrightarrow> x = Some e \<Longrightarrow> Q e) \<Longrightarrow> e \<in> set es \<Longrightarrow> Q e"
  by (induction xs arbitrary: es) (auto simp: bind_eq_Some_conv)

lemma applied_event_type: "applied_event env p n out i k = Some e \<Longrightarrow> e_event_type e = ConfigGenerationApplied"
  by (auto simp: applied_event_def Let_def split: prod.splits)

lemma feed_apply_types:
  assumes "feed_apply P env e r = Some (r', a, es)" "f \<in> set es"
  shows "e_event_type f = ConfigGenerationApplied"
proof -
  have "record_applied env p n out = Some es \<Longrightarrow> ?thesis" for p n out
    using assms(2) all_some_types [of _ es "\<lambda>e. e_event_type e = ConfigGenerationApplied" f] applied_event_type
    by (fastforce simp: record_applied_def split: if_splits)
  then show ?thesis using assms by (auto simp: feed_apply_def Let_def reload_def split: sum.splits)
qed

lemma watch_message_types:
  "watch_message P env parsed r = Some (r', es) \<Longrightarrow> f \<in> set es \<Longrightarrow> e_event_type f = ConfigGenerationApplied"
  by (auto simp: watch_message_def split: sum.splits dest: feed_apply_types)

lemma poll_once_types:
  "poll_once P env fetched r = Some (r', a, es) \<Longrightarrow> f \<in> set es \<Longrightarrow> e_event_type f = ConfigGenerationApplied"
  by (cases fetched) (auto simp: poll_once_def split: if_splits dest: feed_apply_types)

lemma cold_start_types:
  "cold_start P url deadline as r = (r', es, out) \<Longrightarrow> f \<in> set es \<Longrightarrow> e_event_type f = ConfigGenerationApplied"
  by (induction as arbitrary: r)
    (auto split: if_splits option.splits sum.splits prod.splits dest: poll_once_types)

lemma watch_message_total: "feed_run P policy r heard log \<Longrightarrow> watch_message P env parsed r \<noteq> None"
proof (cases parsed)
  case (Inr e)
  assume "feed_run P policy r heard log"
  then have "feed_apply P env e r \<noteq> None" by (rule feed_apply_total)
  then show ?thesis using Inr by (simp add: watch_message_def)
qed (simp add: watch_message_def)

lemma watch_step_total: "feed_run P policy r heard log \<Longrightarrow> watch_step P x w r \<noteq> None"
  using watch_message_total [of P policy r heard log]
  by (cases "(P, x, w, r)" rule: watch_step.cases) auto

text \<open>The envelopes an input brings to the node.\<close>

fun brings :: "gateway_input \<Rightarrow> snapshot_envelope list" where
  "brings (Watch (Message env parsed)) = arrived parsed"
| "brings (Poll env fetched) = arrived fetched"
| "brings _ = []"

text \<open>A step of a task of the feed keeps the resolver's contract and emits no request.\<close>

definition kept :: "canon_prims \<Rightarrow> staleness_policy \<Rightarrow> snapshot_envelope list \<Rightarrow> pin_resolver \<Rightarrow> bool" where
  "kept P policy log r \<longleftrightarrow> (\<exists>heard seen. feed_run P policy r heard seen \<and> set seen \<subseteq> set log)"

definition feeds ::
    "canon_prims \<Rightarrow> staleness_policy \<Rightarrow> snapshot_envelope list \<Rightarrow> pin_resolver \<Rightarrow> emitted_event list \<Rightarrow> bool" where
  "feeds P policy log r es \<longleftrightarrow> kept P policy log r \<and> (\<forall>e \<in> set es. e_event_type e = ConfigGenerationApplied)"

lemma kept_mono: "kept P policy log r \<Longrightarrow> kept P policy (log @ later) r"
  by (auto simp: kept_def)

lemma kept_fed: "kept P policy log r \<Longrightarrow> fed P log r"
  by (auto simp: kept_def fed_def)

lemma watch_step_feeds:
  assumes "kept P policy log r" "watch_step P x w r = Some (w', r', es)"
  shows "feeds P policy (log @ brings (Watch x)) r' es"
proof -
  have "feeds P policy (log @ brings (Watch x)) r []" using kept_mono [OF assms(1)] by (simp add: feeds_def)
  moreover have "watch_message P env parsed r = Some (r', es) \<Longrightarrow> feeds P policy (log @ arrived parsed) r' es"
    for env parsed
  proof -
    assume step: "watch_message P env parsed r = Some (r', es)"
    obtain heard seen where "feed_run P policy r heard seen" "set seen \<subseteq> set log"
      using assms(1) by (auto simp: kept_def)
    then have "kept P policy (log @ arrived parsed) r'"
      unfolding kept_def using feed_message [OF _ step] by (intro exI conjI) auto
    then show ?thesis using watch_message_types [OF step] by (simp add: feeds_def)
  qed
  ultimately show ?thesis
    using assms(2) by (cases "(P, x, w, r)" rule: watch_step.cases) auto
qed

lemma poll_tick_feeds:
  assumes "kept P policy log r" "poll_tick P env fetched r = Some (r', es)"
  shows "feeds P policy (log @ arrived fetched) r' es"
proof -
  obtain a where step: "poll_once P env fetched r = Some (r', a, es)" using assms(2) by (auto simp: poll_tick_def)
  obtain heard seen where "feed_run P policy r heard seen" "set seen \<subseteq> set log"
    using assms(1) by (auto simp: kept_def)
  then have "kept P policy (log @ arrived fetched) r'"
    unfolding kept_def using feed_poll [OF _ step] by (intro exI conjI) auto
  then show ?thesis using poll_once_types [OF step] by (simp add: feeds_def)
qed

text \<open>
  Whether a step begins a response of a provider: a connection that waits for its answer gets one,
  and what is answered depends on it.
\<close>

definition begins :: "gateway_deps \<Rightarrow> gateway_input \<Rightarrow> gateway \<Rightarrow> bool" where
  "begins D input g \<longleftrightarrow> gw_result g = None \<and>
     (\<exists>i up r r' env req resp. input = Conn i (Answered up) \<and> i < length (gw_conns g) \<and>
        gw_conns g ! i = Calling r r' env req \<and>
        consults (gd_hash D) (gd_http D) (gd_json D) (gd_quote D) (gateway_serving (gw_node_id g)) r r' env req \<and>
        handle (gd_hash D) (gd_http D) (gd_json D) (gd_quote D) up (gateway_serving (gw_node_id g)) r r' env req =
          Some (Ok resp))"

definition is_request :: "emitted_event \<Rightarrow> bool" where
  "is_request e \<longleftrightarrow> e_event_type e = LlmRequest"

text \<open>
  From a boot: the state, the events so far, how many responses were begun, and the envelopes that
  were delivered.
\<close>

inductive gateway_run ::
    "gateway_deps \<Rightarrow> ('s, 'addr) gateway_boot \<Rightarrow> environment \<Rightarrow> gateway \<Rightarrow> emitted_event list \<Rightarrow> nat \<Rightarrow>
     snapshot_envelope list \<Rightarrow> bool"
  for D :: gateway_deps and B :: "('s, 'addr) gateway_boot" and env :: environment where
  gateway_booted: "gateway_main (gd_prims D) B env pid built now begin_at as s = Some (s', es, Running g) \<Longrightarrow>
    gateway_run D B env g es 0 (concat (map (arrived \<circ> at_fetched) as))"
| gateway_stepped: "gateway_run D B env g es k log \<Longrightarrow> gateway_step D input g = Some (g', fs) \<Longrightarrow>
    gateway_run D B env g' (es @ fs) (k + (if begins D input g then 1 else 0)) (log @ brings input)"

definition gateway_ok :: "canon_prims \<Rightarrow> staleness_policy \<Rightarrow> snapshot_envelope list \<Rightarrow> gateway \<Rightarrow> bool" where
  "gateway_ok P policy log g \<longleftrightarrow> kept P policy log (gw_resolver g) \<and> list_all (conn_ok P log) (gw_conns g)"

text \<open>What a step adds to the record.\<close>

definition records ::
    "canon_prims \<Rightarrow> snapshot_envelope list \<Rightarrow> gateway \<Rightarrow> gateway \<Rightarrow> bool \<Rightarrow> emitted_event list \<Rightarrow> bool" where
  "records P log g g' begun fs \<longleftrightarrow>
     length (filter is_request fs) + length (filter live (gw_conns g')) =
       length (filter live (gw_conns g)) + (if begun then 1 else 0) \<and>
     (\<forall>e \<in> set fs. is_request e \<longrightarrow> verified_pins P log (e_pins e))"

lemma filter_update:
  "i < length xs \<Longrightarrow> length (filter p (xs[i := x])) + (if p (xs ! i) then 1 else 0) =
    length (filter p xs) + (if p x then 1 else 0)"
proof -
  assume i: "i < length xs"
  have "filter p (xs[i := x]) = filter p (take i xs) @ filter p [x] @ filter p (drop (Suc i) xs)"
    using i by (simp add: upd_conv_take_nth_drop)
  moreover have "filter p xs = filter p (take i xs) @ filter p [xs ! i] @ filter p (drop (Suc i) xs)"
    using i by (subst id_take_nth_drop [OF i]) simp
  ultimately show ?thesis by simp
qed

lemma feeds_records:
  "feeds P policy log r fs \<Longrightarrow> gw_conns g' = gw_conns g \<Longrightarrow> records P log g g' False fs"
  by (auto simp: records_def feeds_def is_request_def filter_empty_conv)

lemma conns_ok_mono: "list_all (conn_ok P log) cs \<Longrightarrow> list_all (conn_ok P (log @ later)) cs"
  by (auto simp: list_all_iff intro: conn_ok_mono)

lemma serve_returns_kept:
  assumes "gateway_ok P policy log g" "serve_returns D fes x g = (g', fs)"
  shows "gateway_ok P policy log g' \<and> records P log g g' False fs"
proof -
  have g': "gw_resolver g' = gw_resolver g" "gw_conns g' = map (\<lambda>_. Closed) (gw_conns g)"
      "fs = drop_conns D fes 0 (gw_conns g)"
    using assms(2) by (auto simp: serve_returns_def)
  note owed = drop_conns_owed [of P log "gw_conns g" D fes 0]
  have "filter is_request fs = fs" using owed assms(1) g'(3) by (auto simp: is_request_def gateway_ok_def filter_id_conv)
  then show ?thesis
    using owed assms(1) g' by (auto simp: records_def gateway_ok_def filter_empty_conv list_all_iff)
qed

lemma gateway_step_kept:
  assumes "gateway_ok P policy log g" "P = gd_prims D" "gateway_step D input g = Some (g', fs)"
  shows "gateway_ok P policy (log @ brings input) g' \<and> records P (log @ brings input) g g' (begins D input g) fs"
proof -
  have kept: "kept P policy log (gw_resolver g)" and conns: "list_all (conn_ok P log) (gw_conns g)"
    using assms(1) by (simp_all add: gateway_ok_def)
  have stays: "gateway_ok P policy (log @ later) g" for later
    using kept_mono [OF kept] conns_ok_mono [OF conns] by (simp add: gateway_ok_def)
  have quiet: "records P l g g' False []" if "filter live (gw_conns g') = filter live (gw_conns g)" for l g'
    using that by (simp add: records_def)
  show ?thesis
  proof (cases "gw_result g = None")
    case False
    then show ?thesis
      using assms(3) quiet [of g] stays by (auto simp: gateway_step_def begins_def)
  next
    case True
    show ?thesis
    proof (cases input)
      case (Watch x)
      then obtain w r where w: "watch_step P x (gw_watcher g) (gw_resolver g) = Some (w, r, fs)"
          "g' = g\<lparr>gw_watcher := w, gw_resolver := r\<rparr>"
        using assms(2,3) True by (auto simp: gateway_step_def)
      have f: "feeds P policy (log @ brings input) r fs" using watch_step_feeds [OF kept w(1)] Watch by simp
      show ?thesis
        using f feeds_records [OF f, of g' g] w(2) conns_ok_mono [OF conns] Watch
        by (simp add: gateway_ok_def feeds_def begins_def)
    next
      case (Poll e fetched)
      show ?thesis
      proof (cases "gw_polling g")
        case True
        then obtain r where p: "poll_tick P e fetched (gw_resolver g) = Some (r, fs)" "g' = g\<lparr>gw_resolver := r\<rparr>"
          using assms(2,3) \<open>gw_result g = None\<close> Poll by (auto simp: gateway_step_def)
        have f: "feeds P policy (log @ brings input) r fs" using poll_tick_feeds [OF kept p(1)] Poll by simp
        show ?thesis
          using f feeds_records [OF f, of g' g] p(2) conns_ok_mono [OF conns] Poll
          by (simp add: gateway_ok_def feeds_def begins_def)
      next
        case False
        then show ?thesis
          using assms(3) True Poll quiet [of g] stays by (auto simp: gateway_step_def begins_def)
      qed
    next
      case (Accepted x fes)
      show ?thesis
      proof (cases x)
        case (Inl e)
        then show ?thesis
          using serve_returns_kept [OF assms(1)] assms(3) True Accepted
          by (auto simp: gateway_step_def serve_accept_def begins_def)
      next
        case (Inr u)
        then have "fs = []" "gw_resolver g' = gw_resolver g" "gw_conns g' = gw_conns g @ [Idle]"
          using assms(3) True Accepted by (auto simp: gateway_step_def serve_accept_def)
        then show ?thesis using assms(1) Accepted quiet [of g'] by (simp add: gateway_ok_def begins_def)
      qed
    next
      case (Conn i x)
      show ?thesis
      proof (cases "i < length (gw_conns g)")
        case i: True
        let ?c = "gw_conns g ! i" and ?state = "gateway_serving (gw_node_id g)"
        obtain c where c: "conn_step D ?state (gw_resolver g) x ?c = Some (c, fs)"
            "g' = g\<lparr>gw_conns := (gw_conns g)[i := c]\<rparr>"
          using assms(3) True Conn i by (auto simp: gateway_step_def)
        have ok: "conn_ok P log ?c" and pin: "gs_pinning_enabled ?state"
          using conns i by (simp_all add: list_all_length gateway_serving_def)
        have o: "owed P log ?c c fs" by (rule conn_step_owed [OF kept_fed [OF kept] pin ok c(1)])
        then have "filter is_request fs = fs" by (simp add: owed_def is_request_def filter_id_conv)
        then have "records P log g g' (\<not> live ?c \<and> live c) fs"
          using o filter_update [OF i, of live c] c(2) by (auto simp: records_def owed_def split: if_splits)
        moreover have "begins D input g \<longleftrightarrow> \<not> live ?c \<and> live c"
          unfolding conn_step_begins [OF pin ok c(1)] begins_def using True Conn i by auto
        moreover have "gateway_ok P policy log g'"
          using assms(1) o c(2) i by (auto simp: gateway_ok_def owed_def list_all_length nth_list_update)
        ultimately show ?thesis using Conn by simp
      next
        case False
        then show ?thesis using assms True Conn quiet [of g] by (auto simp: gateway_step_def begins_def)
      qed
    next
      case (Serve_shutdown fes)
      then show ?thesis
        using serve_returns_kept [OF assms(1)] assms(3) True by (auto simp: gateway_step_def begins_def)
    qed (use assms True quiet [of g'] in \<open>auto simp: gateway_step_def begins_def gateway_ok_def\<close>)
  qed
qed

lemma gateway_main_Running:
  assumes "gateway_main P B env pid built now begin_at as s = Some (s', es, Running g)"
  shows "\<exists>r a. cold_start P (env_or env ''ANCRE_CONTROL_URL'' ''http://127.0.0.1:8081'')
      (begin_at + COLD_START_BUDGET) as (cold (gateway_staleness env) built now) = (r, es, Installed a) \<and>
    g = \<lparr>gw_node_id = node_name ''gw'' env pid, gw_resolver = r, gw_watcher = Subscribing,
      gw_polling = True, gw_conns = [], gw_result = None\<rparr>"
  using assms
  by (auto simp: gateway_main_def gateway_listen_def or_fatal_Running
    split: prod.splits started.splits cold_outcome.splits)

lemma gateway_run_kept:
  assumes "gateway_run D B env g es k log"
  shows "gateway_ok (gd_prims D) (gateway_staleness env) log g \<and>
    length (filter is_request es) + length (filter live (gw_conns g)) = k \<and>
    (\<forall>e \<in> set es. is_request e \<longrightarrow> verified_pins (gd_prims D) log (e_pins e))"
  using assms
proof (induction rule: gateway_run.induct)
  case (gateway_booted pid built now begin_at as s s' es g)
  let ?c = "cold (gateway_staleness env) built now"
  have c: "feed_run (gd_prims D) (gateway_staleness env) ?c now []" "is_cold ?c"
    by (rule feed_cold) (simp add: is_cold_def cold_def)
  obtain r a where r: "cold_start (gd_prims D) (env_or env ''ANCRE_CONTROL_URL'' ''http://127.0.0.1:8081'')
      (begin_at + COLD_START_BUDGET) as ?c = (r, es, Installed a)" and g: "gw_resolver g = r" "gw_conns g = []"
    using gateway_main_Running [OF gateway_booted] by auto
  have "\<not> is_request e" if "e \<in> set es" for e using cold_start_types [OF r that] by (simp add: is_request_def)
  moreover have "kept (gd_prims D) (gateway_staleness env) (concat (map (arrived \<circ> at_fetched) as)) r"
    using cold_start_run [OF c r] by (auto simp: kept_def)
  ultimately show ?case using g by (simp add: gateway_ok_def filter_empty_conv)
next
  case (gateway_stepped g es k log input g' fs)
  have "verified_pins (gd_prims D) (log @ brings input) (e_pins e)" if "e \<in> set es" "is_request e" for e
    using gateway_stepped.IH that verified_pins_mono [of "gd_prims D" log "e_pins e" "log @ brings input"] by simp
  then show ?case
    using gateway_step_kept [OF _ refl gateway_stepped.hyps(2)] gateway_stepped.IH
    by (fastforce simp: records_def)
qed

text \<open>
  Nothing about the control plane, the bus or a request ends the process: only the signal does, or a
  socket that fails to accept.
\<close>

theorem only_serve_ends:
  "gateway_step D input g = Some (g', fs) \<Longrightarrow> gw_result g = None \<Longrightarrow>
    gw_result g' = None \<or> (\<exists>fes. input = Serve_shutdown fes) \<or> (\<exists>e fes. input = Accepted (Err e) fes)"
  by (cases input) (auto simp: gateway_step_def serve_accept_def split: if_splits sum.splits)

text \<open>
  The signal cuts every response that is still being sent: its body is dropped and hands its event,
  marked interrupted, to a fork whose batcher is dropped beside it; after that nothing happens.
\<close>

lemma tap_drop_outcome: "tap_drop H js fe b = (b', Some e) \<Longrightarrow> e_outcome e = OutcomeInterrupted"
  by (auto simp: tap_drop_def tap_finish_def finish_event_def Let_def split: if_splits option.splits)

lemma drop_conn_outcome: "e \<in> set (drop_conn D fe c) \<Longrightarrow> e_outcome e = OutcomeInterrupted"
  by (auto simp: drop_conn_def drop_body_def option_list_def intro: tap_drop_outcome [OF prod_eqI]
    split: connection.splits proxy_body.splits option.splits)

lemma drop_conns_outcome: "e \<in> set (drop_conns D fes i cs) \<Longrightarrow> e_outcome e = OutcomeInterrupted"
  by (induction cs arbitrary: i) (auto dest: drop_conn_outcome)

theorem shutdown_cuts_responses:
  assumes "gateway_run D B env g es k log" "gw_result g = None"
    and "gateway_step D (Serve_shutdown fes) g = Some (g', fs)"
  shows "length fs = length (filter live (gw_conns g)) \<and> list_all (\<lambda>e. e_outcome e = OutcomeInterrupted) fs \<and>
    list_all (\<lambda>c. c = Closed) (gw_conns g') \<and> gateway_step D input g' = Some (g', [])"
proof -
  have conns: "list_all (conn_ok (gd_prims D) log) (gw_conns g)"
    using gateway_run_kept [OF assms(1)] by (simp add: gateway_ok_def)
  have "serve_returns D fes (Ok ()) g = (g', fs)" using assms(2,3) by (simp add: gateway_step_def)
  then show ?thesis
    using drop_conns_owed [OF conns, of D fes 0] drop_conns_outcome [of _ D fes 0 "gw_conns g"]
    by (auto simp: serve_returns_def list_all_iff gateway_step_def)
qed

text \<open>
  C18. A gateway accounts for every response in every interleaving: whatever the subscription delivers,
  the polls fetch, clients, providers and connections do, and in whatever order, the events of requests that
  were handed to the fork and the responses still open together are the responses that were
  begun: those of a provider that was consulted and answered. Every such event names the generation
  and the content hash stated by an envelope that was delivered to this node, and the contents of
  that envelope hash to that hash. No step panics.
\<close>

theorem gateway_records_responses:
  assumes "gateway_run D B env g es k delivered"
  shows "length (filter is_request es) + length (filter live (gw_conns g)) = k \<and>
    (\<forall>e \<in> set es. is_request e \<longrightarrow> (\<exists>v \<in> set delivered.
       spec_hash (gd_prims D) (env_spec v) = Ok (env_content_hash v) \<and>
       ss_generation (env_spec v) = env_generation v \<and>
       p_config_generation (e_pins e) = env_generation v \<and> p_config_hash (e_pins e) = env_content_hash v)) \<and>
    gateway_step D input g \<noteq> None"
proof -
  note run = gateway_run_kept [OF assms]
  then obtain heard seen where heard: "feed_run (gd_prims D) (gateway_staleness env) (gw_resolver g) heard seen"
    by (auto simp: gateway_ok_def kept_def)
  have "poll_tick (gd_prims D) e fetched (gw_resolver g) \<noteq> None" for e fetched
    using poll_once_total [OF heard] by (simp add: poll_tick_def)
  moreover have "i < length (gw_conns g) \<Longrightarrow>
      conn_step D (gateway_serving (gw_node_id g)) (gw_resolver g) x (gw_conns g ! i) \<noteq> None" for i x
    using run conn_step_total [of "gd_prims D" delivered "gw_conns g ! i"] by (simp add: gateway_ok_def list_all_length)
  ultimately have "gateway_step D input g \<noteq> None"
    using watch_step_total [OF heard] by (cases input) (simp_all add: gateway_step_def, blast+)
  then show ?thesis using run by (simp add: verified_pins_def)
qed

section \<open>A concrete run\<close>

definition demo_deps :: gateway_deps where
  "demo_deps = \<lparr>gd_hash = (\<lambda>_. GENESIS), gd_http = demo_http, gd_json = Tap.demo_js, gd_quote = (\<lambda>s. s),
     gd_prims = demo_prims []\<rparr>"

definition demo_boot :: "(unit, unit) gateway_boot" where
  "demo_boot = \<lparr>gb_parse_addr = (\<lambda>_. Ok ()), gb_connect_sink = (\<lambda>s _. (s, Ok ())), gb_source_new = (\<lambda>_. Ok ()),
     gb_upstream_new = (\<lambda>_ _. Ok ()), gb_bind = (\<lambda>s _. (s, Ok ()))\<rparr>"

definition demo_vars :: environment where
  "demo_vars key = (if key = ''ANCRE_NODE_ID'' then Some ''gw-1'' else None)"

definition demo_node :: "connection list \<Rightarrow> gateway" where
  "demo_node cs = \<lparr>gw_node_id = ''gw-1'', gw_resolver = demo_resolver, gw_watcher = Subscribing,
     gw_polling = True, gw_conns = cs, gw_result = None\<rparr>"

lemma demo_gateway_boots: "\<exists>log. gateway_run demo_deps demo_boot demo_vars (demo_node []) [] 0 log"
proof -
  obtain h where h: "spec_hash (demo_prims []) (demo_spec 41) = Ok h" using demo_spec_hashes by blast
  let ?e = "envelope_seal (demo_spec 41) h" and ?c = "cold default_policy 0 0"
  have inst: "install (demo_prims []) 0 ?e = Ok (demo_snapshot 41 0)"
    using h demo_builds [of 0 41] by (simp add: install_eq_Inr envelope_verify_def envelope_seal_def)
  have "is_cold ?c" by (simp add: is_cold_def cold_def)
  then obtain a where poll: "poll_once (demo_prims []) (demo_feed_env\<lparr>fd_now := 100\<rparr>) (Ok ?e) ?c =
      Some (demo_resolver, Ok (Some a), [])"
    using inst by (simp add: poll_once_def feed_apply_def demo_feed_env_def reload_def cold_def
      record_applied_def first_snapshot_def outcome_is_empty_def Let_def demo_resolver_def)
  have policy: "gateway_staleness demo_vars = default_policy"
    by (simp add: gateway_staleness_def demo_vars_def env_or_def default_policy_def)
  have "cold_start (demo_prims []) u (0 + COLD_START_BUDGET)
      [\<lparr>at_clock = 0, at_env = demo_feed_env\<lparr>fd_now := 100\<rparr>, at_fetched = Ok ?e\<rparr>] ?c = (demo_resolver, [], Installed a)" for u
    using poll by (simp add: COLD_START_BUDGET_def)
  then have "gateway_main (gd_prims demo_deps) demo_boot demo_vars 0 0 0 0
      [\<lparr>at_clock = 0, at_env = demo_feed_env\<lparr>fd_now := 100\<rparr>, at_fetched = Ok ?e\<rparr>] () =
      Some ((), [], Running (demo_node []))"
    by (simp add: gateway_main_def gateway_prepare_def gateway_listen_def or_fatal_def demo_boot_def demo_deps_def
      policy node_name_def demo_node_def) (simp add: demo_vars_def)
  then show ?thesis by (intro exI) (rule gateway_booted)
qed

theorem gateway_records_responses_witness:
  "\<exists>es log. gateway_run demo_deps demo_boot demo_vars (demo_node [Closed]) es 1 log \<and>
    length (filter is_request es) = 1 \<and>
    gateway_step demo_deps Poll_shutdown (demo_node [Closed]) \<noteq> None"
proof -
  obtain resp b where h: "demo_handle = Some (Ok resp)" "px_body resp = Tapped b" using demo_handled by blast
  have state: "gateway_serving ''gw-1'' = demo_gateway" by (simp add: gateway_serving_def demo_gateway_def)
  obtain t where t: "b = tapped_body_new t"
    using handle_tapped [OF h(1)[unfolded demo_handle_def] h(2)] by (auto simp: demo_gateway_def)
  let ?up = "\<lambda>_ _ _. Ok (200, [])"
  let ?r = "Resolving demo_resolver demo_request_env demo_http_request"
  let ?q = "Calling demo_resolver demo_resolver demo_request_env demo_http_request"
  note [simp] = gateway_step_def demo_node_def serve_accept_def
  obtain log where 0: "gateway_run demo_deps demo_boot demo_vars (demo_node []) [] 0 log"
    using demo_gateway_boots by blast
  have 1: "gateway_run demo_deps demo_boot demo_vars (demo_node [Idle]) [] 0 log"
    using gateway_stepped [OF 0, of "Accepted (Ok ()) (\<lambda>_. demo_env)"] by (simp add: begins_def)
  have 2: "gateway_run demo_deps demo_boot demo_vars (demo_node [?r]) [] 0 log"
    using gateway_stepped [OF 1, of "Conn 0 (Received demo_request_env demo_http_request)"] by (simp add: begins_def)
  have 3: "gateway_run demo_deps demo_boot demo_vars (demo_node [?q]) [] 0 log"
    using gateway_stepped [OF 2, of "Conn 0 Tenant_read"] by (simp add: begins_def)
  have answer: "conn_step demo_deps (gateway_serving ''gw-1'') demo_resolver (Answered ?up) ?q =
      Some (Responding (Tapped b), [])"
    using h by (simp add: demo_deps_def state demo_handle_def)
  have begun: "begins demo_deps (Conn 0 (Answered ?up)) (demo_node [?q])"
    using h consults_iff [OF h(1) [unfolded demo_handle_def]]
    by (simp add: begins_def demo_deps_def state demo_handle_def)
  have 4: "gateway_run demo_deps demo_boot demo_vars (demo_node [Responding (Tapped b)]) [] 1 log"
    using gateway_stepped [OF 3, of "Conn 0 (Answered ?up)"] answer begun
    by (simp del: conn_step.simps live.simps)
  have "\<not> begins demo_deps (Conn 0 (Peer_gone demo_env)) (demo_node [Responding (Tapped b)])"
    by (simp add: begins_def)
  then have "gateway_run demo_deps demo_boot demo_vars (demo_node [Closed])
      ([] @ drop_body demo_deps demo_env (Tapped b)) 1 log"
    using gateway_stepped [OF 4, of "Conn 0 (Peer_gone demo_env)"] by simp
  from this gateway_records_responses [OF this, of Poll_shutdown] show ?thesis by (auto simp del: gateway_step_def)
qed

end
