(* ===== verification/Cancel.thy ===== *)
theory Cancel
  imports Bus
begin

text \<open>
  \<open>crates/ancre-ingester/src/bus.rs\<close>: the loop of \<open>run\<close>, with the pull that a heartbeat cancels.

  \<open>tokio::select!\<close> drops the future of every branch but the one that completed. The pull holds the
  ingester by reference and has chained its batch before it awaits the insertion, so a pull
  that is dropped there leaves the ingester behind events that nobody stores. The future of the
  heartbeat is awaited in its handler and is not dropped. Every turn is a step of the runs of the
  theory \<open>Bus\<close>, in which the pull may also be dropped earlier or later.
\<close>

section \<open>The turns of the loop\<close>

text \<open>
  What the locals of \<open>ingest\<close> are when a pull is suspended in \<open>insert_with_retry\<close>; \<open>None\<close> is a pull
  that does not come to it.
\<close>

definition pull_suspended ::
    "canon_prims \<Rightarrow> 's store_ops \<Rightarrow> ('m \<Rightarrow> emitted_event option) \<Rightarrow> (emitted_event \<Rightarrow> timestamp) \<Rightarrow>
      (('m, string) result list, string) result \<Rightarrow> ingester \<Rightarrow> 's \<Rightarrow> 's ingest_vars option" where
  "pull_suspended P S dec clock fetched ing s =
     (case fetched of
        Inl _ \<Rightarrow> None
      | Inr messages \<Rightarrow>
          case sort_messages dec messages of
            Inl _ \<Rightarrow> None
          | Inr (batch, pending, undecodable) \<Rightarrow>
              case ingest_loop P S \<lparr>iv_ing = ing, iv_world = s, iv_report = empty_report, iv_chained = [],
                     iv_rollback = Map.empty\<rparr> (map (\<lambda>e. (e, clock e)) batch) of
                Inl _ \<Rightarrow> None
              | Inr v \<Rightarrow> if iv_chained v = [] then None else Some v)"

text \<open>
  The heartbeat completes first. \<open>pulling\<close> is what the pull beside it had fetched, with its clock, when
  it was suspended in the insertion, before the store took anything; otherwise the pull had changed
  nothing yet.
\<close>

definition heartbeat_turn ::
    "canon_prims \<Rightarrow> 's store_ops \<Rightarrow> ('m \<Rightarrow> emitted_event option) \<Rightarrow>
      ((('m, string) result list, string) result \<times> (emitted_event \<Rightarrow> timestamp)) option \<Rightarrow>
      chain_id list \<Rightarrow> timestamp \<Rightarrow> timestamp \<Rightarrow> ingester \<Rightarrow> 's \<Rightarrow>
      ingester \<times> 's \<times> (u64, ingest_error) result" where
  "heartbeat_turn P S dec pulling order now ingested ing s =
     (case Option.bind pulling (\<lambda>(fetched, clock). pull_suspended P S dec clock fetched ing s) of
        None \<Rightarrow> heartbeats P S ing s order now ingested
      | Some v \<Rightarrow> heartbeats P S (iv_ing v) (iv_world v) order now ingested)"

text \<open>The pull completes first; after an error the loop sleeps for a second.\<close>

definition pull_turn ::
    "canon_prims \<Rightarrow> 's store_ops \<Rightarrow> 's sleeper \<Rightarrow> consumer_config \<Rightarrow> ('m \<Rightarrow> emitted_event option) \<Rightarrow>
      ('m \<Rightarrow> (unit, string) result) \<Rightarrow> (emitted_event \<Rightarrow> timestamp) \<Rightarrow>
      (('m, string) result list, string) result \<Rightarrow> consume_report \<Rightarrow> ingester \<Rightarrow> 's \<Rightarrow>
      consume_report \<times> ingester \<times> 's \<times> 'm reply list" where
  "pull_turn P S Z config dec ack clock fetched tot ing s =
     (case pull_once P S Z config dec ack clock fetched ing s of
        (ing, s, sent, Inr r) \<Rightarrow> (add_report tot r, ing, s, sent)
      | (ing, s, sent, Inl _) \<Rightarrow> (tot, ing, Z s (10 ^ 9), sent))"

section \<open>Turns are steps of the runs\<close>

lemma ensure_writer_rows:
  assumes "clickhouse_lawful V" "ensure_writer (clickhouse_ops V) c v = Inr v'"
  shows "cv_rows V (iv_world v') = cv_rows V (iv_world v)"
  using assms(2) click.head_keeps [OF assms(1)]
  by (auto simp: ensure_writer_def Let_def split: if_splits prod.splits sum.splits)

lemma chain_one_world: "chain_one P c e now v = Inr v' \<Longrightarrow> iv_world v' = iv_world v"
  by (auto simp: chain_one_def Let_def split: prod.splits sum.splits ingest_error.splits)

lemma ingest_loop_rows:
  "clickhouse_lawful V \<Longrightarrow> ingest_loop P (clickhouse_ops V) v items = Inr v' \<Longrightarrow>
    cv_rows V (iv_world v') = cv_rows V (iv_world v)"
proof (induction items arbitrary: v)
  case (Cons item items)
  then obtain v1 v2 where v: "ensure_writer (clickhouse_ops V) (chain_of (fst item)) v = Inr v1"
      "chain_one P (chain_of (fst item)) (fst item) (snd item) v1 = Inr v2"
      "ingest_loop P (clickhouse_ops V) v2 items = Inr v'"
    by (cases item) (auto simp: ingest_one_def Let_def and_then_eq_Inr)
  show ?case
    using Cons.IH [OF Cons.prems(1) v(3)] ensure_writer_rows [OF Cons.prems(1) v(1)] chain_one_world [OF v(2)]
    by simp
qed simp

lemma suspended_chaining:
  assumes "clickhouse_lawful V" "pull_suspended P (clickhouse_ops V) dec clock fetched ing s = Some v"
  shows "pull_chaining P (clickhouse_ops V) dec clock (fetched_count fetched) fetched ing s = Some v \<and>
    cv_rows V (iv_world v) = cv_rows V s"
proof -
  obtain ms batch pending undecodable where f: "fetched = Inr ms"
      "sort_messages dec ms = Inr (batch, pending, undecodable)"
      "ingest_loop P (clickhouse_ops V) \<lparr>iv_ing = ing, iv_world = s, iv_report = empty_report, iv_chained = [],
         iv_rollback = Map.empty\<rparr> (map (\<lambda>e. (e, clock e)) batch) = Inr v"
    using assms(2) by (auto simp: pull_suspended_def split: sum.splits if_splits)
  have "take (fetched_count fetched) batch = batch"
    using sort_messages_ok [OF f(2)] f(1) by (simp add: fetched_count_def)
  then show ?thesis using f ingest_loop_rows [OF assms(1) f(3)] by (simp add: pull_chaining_def)
qed

lemma heartbeat_turn_runs:
  assumes "clickhouse_lawful V" "consumer_run P V config dec ing s acked st"
    and "\<And>fetched clock. pulling = Some (fetched, clock) \<Longrightarrow>
      length (cv_rows V s) + fetched_count fetched < 2 ^ 64 - 1"
    and "heartbeat_turn P (clickhouse_ops V) dec pulling order now ingested ing s = (ing', s', beat)"
    and "length (cv_rows V s') < 2 ^ 64 - 1"
  shows "\<exists>st'. consumer_run P V config dec ing' s' acked st'"
proof (cases "Option.bind pulling (\<lambda>(fetched, clock). pull_suspended P (clickhouse_ops V) dec clock fetched ing s)")
  case None
  then have "heartbeats P (clickhouse_ops V) ing s order now ingested = (ing', s', beat)"
    using assms(4) by (simp add: heartbeat_turn_def)
  then show ?thesis using run_heartbeats [OF assms(2) _ assms(5)] by blast
next
  case (Some v)
  then obtain fetched clock where p: "pulling = Some (fetched, clock)"
      "pull_suspended P (clickhouse_ops V) dec clock fetched ing s = Some v"
    by (cases pulling) auto
  note c = suspended_chaining [OF assms(1) p(2)]
  have "consumer_run P V config dec (iv_ing v) (iv_world v) acked (after_turn st (iv_chained v \<noteq> []) True)"
    by (rule run_dropped [OF assms(2) assms(3) [OF p(1)]]) (use c in auto)
  moreover have "heartbeats P (clickhouse_ops V) (iv_ing v) (iv_world v) order now ingested = (ing', s', beat)"
    using assms(4) Some by (simp add: heartbeat_turn_def)
  ultimately show ?thesis using run_heartbeats [OF _ _ assms(5)] by blast
qed

lemma pull_turn_runs:
  assumes "clickhouse_lawful V" "consumer_run P V config dec ing s acked st"
    and "length (cv_rows V s) + fetched_count fetched < 2 ^ 64 - 1"
    and "pull_turn P (clickhouse_ops V) (cv_sleep V) config dec ack clock fetched tot ing s = (tot', ing', s', sent)"
  shows "\<exists>st'. consumer_run P V config dec ing' s' (acked @ acked_events dec sent) st'"
proof -
  obtain ing1 s1 sent1 r where p: "pull_once P (clickhouse_ops V) (cv_sleep V) config dec ack clock fetched ing s =
      (ing1, s1, sent1, r)"
    by (metis prod_cases4)
  have out: "ing' = ing1" "sent = sent1" "cv_rows V s' = cv_rows V s1"
    using assms(4) p click.sleep_keeps [OF assms(1)] by (auto simp: pull_turn_def split: sum.splits)
  have "\<exists>st'. consumer_run P V config dec ing1 s1 (acked @ acked_events dec sent1) st'"
    using run_pull [OF assms(2,3) p refl, of "length sent1"] by auto
  then show ?thesis using out run_world by metis
qed

section \<open>A writer remembers what it has just accepted\<close>

lemma recent_last: "x \<in> set (recent (h @ [x]))"
proof -
  have "length (h @ [x]) - DEDUPE_WINDOW \<le> length h" by (simp add: DEDUPE_WINDOW_def)
  then have "recent (h @ [x]) = drop (length (h @ [x]) - DEDUPE_WINDOW) h @ [x]" by (simp add: recent_def)
  then show ?thesis by simp
qed

lemma follows_seen:
  assumes "follows P w e ev w'" "writer_ok w"
  shows "cw_seen w' (e_event_id e) = Some (ae_seq ev)"
proof -
  obtain h where "remembers w h" using writer_ok_remembers [OF assms(2)] by blast
  then have r: "remembers w' (h @ [event_key ev])" by (rule follows_remembers [OF assms(1)])
  have "event_key ev \<in> set (recent (h @ [event_key ev]))" by (rule recent_last)
  then have "cw_seen w' (e_event_id (ae_emitted ev)) = Some (ae_seq ev)"
    using r unfolding remembers_def by (simp add: map_of_eq_Some_iff)
  then show ?thesis using follows_sel(8) [OF assms(1)] by simp
qed

section \<open>One event\<close>

text \<open>
  A pull of one message that is suspended in the insertion: the one event is chained, and the
  writer of its chain remembers it.
\<close>

lemma suspended_one:
  assumes "\<forall>c w. ig_writers ing c = Some w \<longrightarrow> writer_ok w" "dec m = Some e"
    and "pull_suspended P S dec clock (Inr [Inr m]) ing s = Some v"
  shows "\<exists>ev w. iv_chained v = [ev] \<and> ae_emitted ev = e \<and>
    ig_writers (iv_ing v) (chain_of e) = Some w \<and> cw_seen w (e_event_id e) = Some (ae_seq ev)"
proof -
  let ?v = "\<lparr>iv_ing = ing, iv_world = s, iv_report = empty_report, iv_chained = [], iv_rollback = Map.empty\<rparr>"
  have one: "ingest_one P S ?v (e, clock e) = Inr v" and ne: "iv_chained v \<noteq> []"
    using assms(2,3)
    by (auto simp: pull_suspended_def and_then_def split: sum.splits if_splits)
  obtain v1 where v1: "ensure_writer S (chain_of e) ?v = Inr v1" "chain_one P (chain_of e) e (clock e) v1 = Inr v"
    using one by (auto simp: ingest_one_def Let_def and_then_eq_Inr)
  obtain w where w: "ig_writers (iv_ing v1) (chain_of e) = Some w" "writer_ok w" "iv_chained v1 = []"
    using v1(1) assms(1)
    by (auto simp: ensure_writer_def writer_new_def Let_def split: if_splits prod.splits sum.splits option.splits)
  show ?thesis
  proof (cases rule: writer_append_cases [of w e P "clock e"])
    case (chained ev w')
    then show ?thesis
      using v1(2) w follows_seen [OF chained(2) w(2)] follows_sel(8) [OF chained(2)]
      by (auto simp: chain_one_def Let_def)
  qed (use v1(2) w ne in \<open>auto simp: chain_one_def Let_def\<close>)
qed

text \<open>A message whose event the writer remembers is acknowledged, and nothing is stored.\<close>

lemma pull_remembered:
  assumes "dec m = Some e" "ig_writers ing (chain_of e) = Some w" "cw_seen w (e_event_id e) = Some q"
    and "ack m = Ok ()"
  shows "pull_once P S Z config dec ack clock (Ok [Ok m]) ing s =
    (ing, s, [Ack m], Ok (empty_consume\<lparr>co_batches := 1, co_messages := 1, co_duplicates := 1\<rparr>))"
proof -
  have same: "(ig_writers ing)(chain_of e \<mapsto> w) = ig_writers ing" using assms(2) by (simp add: fun_upd_idem_iff)
  show ?thesis
    using assms same
    by (simp add: pull_once_def ingest_def ingest_one_def ensure_writer_def chain_one_def writer_append_def
      Let_def empty_report_def empty_consume_def)
qed

section \<open>Properties\<close>

text \<open>
  C10. A heartbeat that comes due while a batch is being inserted loses the batch: it drops the pull,
  nothing rewinds the writers, and from then on the ingester agrees with the store on no history;
  and when the bus delivers the message again it is taken for a duplicate and acknowledged, though
  the table never held it. (Stated for a batch of one message, at a heartbeat of a day that is already marked.)
\<close>

theorem cancelled_pull_loses_event:
  assumes "clickhouse_lawful V" "store_holds P base (cv_rows V s)" "ingester_at base ing"
    and "\<forall>c w. ig_writers ing c = Some w \<longrightarrow> writer_ok w" "length (cv_rows V s) < 2 ^ 64 - 2"
    and "dec m = Some e" "ack m = Ok ()"
    and "pull_suspended P (clickhouse_ops V) dec clock (Ok [Ok m]) ing s = Some v"
    and "\<forall>c \<in> set order. \<forall>w. ig_writers (iv_ing v) c = Some w \<longrightarrow> cw_last_heartbeat_day w = Some (day_of now)"
    and "heartbeat_turn P (clickhouse_ops V) dec (Some (Ok [Ok m], clock)) order now ingested ing s = (ing', s', beat)"
  shows "beat = Ok 0 \<and> cv_rows V s' = cv_rows V s \<and> \<not> synced P ing' (cv_rows V s') \<and>
    pull_turn P (clickhouse_ops V) (cv_sleep V) config dec ack later (Ok [Ok m]) tot ing' s' =
      (add_report tot (empty_consume\<lparr>co_batches := 1, co_messages := 1, co_duplicates := 1\<rparr>), ing', s', [Ack m])"
proof -
  obtain ev w where ev: "iv_chained v = [ev]" "ae_emitted ev = e"
      "ig_writers (iv_ing v) (chain_of e) = Some w" "cw_seen w (e_event_id e) = Some (ae_seq ev)"
    using suspended_one [OF assms(4,6,8)] by blast
  let ?v = "\<lparr>iv_ing = ing, iv_world = s, iv_report = empty_report, iv_chained = [], iv_rollback = Map.empty\<rparr>"
  have loop: "ingest_loop P (clickhouse_ops V) ?v [(e, clock e)] = Inr v"
    using assms(6,8) by (auto simp: pull_suspended_def split: sum.splits if_splits)
  have start: "loop_ok P base ?v []"
    using assms(2,3) by (simp add: loop_ok_def store_holds_def ingester_at_def rollback_ok_def empty_report_def)
  have ok: "loop_ok P base v [e]" and rows: "cv_rows V (iv_world v) = cv_rows V s"
    using click.ingest_loop_ok [OF assms(1) start, of "[(e, clock e)]"] loop assms(2,5) by simp_all
  have after: "ing' = iv_ing v" "s' = iv_world v" "beat = Ok 0"
    using assms(8,10) heartbeats_marked [OF assms(9), of P "clickhouse_ops V" "iv_world v" ingested]
    by (simp_all add: heartbeat_turn_def)
  have pend: "pend_of (chain_of e) (iv_chained v) = [ev]" using ev(1,2) by simp
  have "\<not> synced P (iv_ing v) (cv_rows V s)"
  proof (rule not_synced [OF assms(2) _ ev(3)])
    show "writer_at (chain_of e) (base (chain_of e) @ [ev]) w" using loop_okD(2) [OF ok ev(3)] pend by simp
    show "length (base (chain_of e)) + length [ev] < 2 ^ 64 - 1"
      using store_holds_length [OF assms(2), of "chain_of e"] assms(5) by simp
  qed simp
  then show ?thesis
    using after rows pull_remembered [where S = "clickhouse_ops V" and ack = ack and dec = dec and m = m and e = e,
        OF assms(6) ev(3,4) assms(7)]
    by (simp add: pull_turn_def)
qed

theorem cancelled_pull_loses_event_witness:
  "\<exists>v. pull_suspended chain_prims (clickhouse_ops demo_view) (\<lambda>m. Some (demo_emitted m)) (\<lambda>_. 0) (Ok [Ok 4])
      (ingester_new ''n'') ([], [], []) = Some v \<and>
    \<not> synced chain_prims (iv_ing v) [] \<and>
    snd (snd (snd (pull_turn chain_prims (clickhouse_ops demo_view) (cv_sleep demo_view) default_consumer
      (\<lambda>m. Some (demo_emitted m)) (\<lambda>_. Ok ()) (\<lambda>_. 0) (Ok [Ok 4]) empty_consume (iv_ing v) ([], [], [])))) = [Ack 4]"
proof -
  let ?S = "clickhouse_ops demo_view" and ?dec = "\<lambda>m. Some (demo_emitted m)"
  have c: "chain_of (demo_emitted g) = \<lparr>cid_tenant_id = ''t'', cid_system_id = ''s''\<rparr>"
    "e_event_id (demo_emitted g) = ucast g" for g
    by (simp_all add: chain_of_def demo_emitted_def)
  obtain v where v: "pull_suspended chain_prims ?S ?dec (\<lambda>_. 0) (Ok [Ok 4]) (ingester_new ''n'') ([], [], []) = Some v"
      "iv_world v = ([], [], [])"
    by (simp add: pull_suspended_def demo_ingest_simps c read_head_def demo_head_def chain_one_def demo_append
      writer_new_def)
  obtain ing' s' beat where t: "heartbeat_turn chain_prims ?S ?dec (Some (Ok [Ok 4], \<lambda>_. 0)) [] 0 0
      (ingester_new ''n'') ([], [], []) = (ing', s', beat)"
    by (metis prod_cases3)
  then have after: "ing' = iv_ing v" "s' = ([], [], [])"
    using v by (simp_all add: heartbeat_turn_def heartbeats_def)
  have "store_holds chain_prims (\<lambda>_. []) (cv_rows demo_view ([], [], []))" "ingester_at (\<lambda>_. []) (ingester_new ''n'')"
    "\<forall>c w. ig_writers (ingester_new ''n'') c = Some w \<longrightarrow> writer_ok w"
    by (simp_all add: store_holds_def ingester_at_def ingester_new_def)
  from cancelled_pull_loses_event [where ack = "\<lambda>_. Ok ()" and dec = ?dec and m = 4 and e = "demo_emitted 4"
      and config = default_consumer and later = "\<lambda>_. 0" and tot = empty_consume, OF demo_lawful this _ _ _ v(1) _ t]
  show ?thesis using v(1) after by simp
qed

end
